(* ===== verification/Orama_Prelude.thy ===== *)
theory Orama_Prelude
  imports Main "HOL-Library.Word"
begin

text \<open>
  Shared vocabulary of the development: the machine types of the Go sources,
  the result type of fallible functions, and generic facts on words, iterated
  functions and lists that several components use.

  Go's \<^verbatim>\<open>byte\<close> is an \<^typ>\<open>8 word\<close>; a fallible Go function
  returning \<^verbatim>\<open>(T, error)\<close> is a HOL function into \<^typ>\<open>'e + 'a\<close>, the left
  injection carrying the error.
\<close>

unbundle bit_operations_syntax

type_synonym byte = "8 word"
type_synonym ('e, 'a) result = "'e + 'a"

named_theorems word_bits \<open>bit-level facts on machine words\<close>
named_theorems field_ops \<open>meaning of the byte operations in the abstract field\<close>
named_theorems inv_intros \<open>preservation of component invariants\<close>

section \<open>Results\<close>

fun result_bind :: "('e, 'a) result \<Rightarrow> ('a \<Rightarrow> ('e, 'b) result) \<Rightarrow> ('e, 'b) result" where
  "result_bind (Inl e) f = Inl e"
| "result_bind (Inr x) f = f x"

fun result_map_list :: "('a \<Rightarrow> ('e, 'b) result) \<Rightarrow> 'a list \<Rightarrow> ('e, 'b list) result" where
  "result_map_list f [] = Inr []"
| "result_map_list f (x # xs) =
     result_bind (f x) (\<lambda>y. result_bind (result_map_list f xs) (\<lambda>ys. Inr (y # ys)))"

lemma result_bind_Inr_iff:
  "result_bind r f = Inr y \<longleftrightarrow> (\<exists>x. r = Inr x \<and> f x = Inr y)"
  by (cases r) auto

lemma result_bind_Inl_iff:
  "result_bind r f = Inl e \<longleftrightarrow> r = Inl e \<or> (\<exists>x. r = Inr x \<and> f x = Inl e)"
  by (cases r) auto

lemma result_map_list_Inr:
  "(\<And>x. x \<in> set xs \<Longrightarrow> f x = Inr (g x)) \<Longrightarrow> result_map_list f xs = Inr (map g xs)"
  by (induction xs) auto

section \<open>Lists\<close>

lemma map_eq_nth_iff:
  "length ys = length xs \<Longrightarrow> map f xs = ys \<longleftrightarrow> (\<forall>i < length xs. f (xs ! i) = ys ! i)"
  by (metis length_map nth_equalityI nth_map)

section \<open>Words\<close>

lemma bit_word_double [word_bits]:
  "bit (a * 2 :: 'a::len word) n \<longleftrightarrow> n < LENGTH('a) \<and> n \<noteq> 0 \<and> bit a (n - 1)"
  using bit_double_iff [of a n] by (simp add: mult.commute)

lemma unat_byte_less [simp]: "unat (a :: byte) < 256"
  using unsigned_less [of a] by simp

lemma byte_not_bit [simp]: "8 \<le> n \<Longrightarrow> \<not> bit (a :: byte) n"
  using bit_imp_le_length [of a n] by auto

lemma unat_byte_of_nat [simp]: "n < 256 \<Longrightarrow> unat (word_of_nat n :: byte) = n"
  by (simp add: unsigned_of_nat take_bit_nat_eq_self)

lemma byte_of_nat_inj: "m < 256 \<Longrightarrow> n < 256 \<Longrightarrow> (word_of_nat m :: byte) = word_of_nat n \<longleftrightarrow> m = n"
  by (metis unat_byte_of_nat)

lemma word_xor_eq_0: "a XOR b = (0 :: 'a::len word) \<longleftrightarrow> a = b"
  by (auto simp: bit_eq_iff bit_xor_iff)

section \<open>Iteration\<close>

lemma funpow_numeral: "(f ^^ numeral k) x = (f ^^ pred_numeral k) (f x)"
  by (simp add: numeral_eq_Suc funpow_swap1)

lemma funpow_period: "(f ^^ d) x = x \<Longrightarrow> (f ^^ (d * n)) x = x"
  by (induction n) (simp_all add: funpow_add)

lemma funpow_gcd_period:
  assumes "(f ^^ m) x = x" "(f ^^ n) x = x" "m \<noteq> 0"
  shows "(f ^^ gcd m n) x = x"
proof -
  obtain u v where uv: "m * u = n * v + gcd m n"
    using bezout_nat [of m n] assms(3) by auto
  have "(f ^^ (m * u)) x = (f ^^ gcd m n) ((f ^^ (n * v)) x)"
    by (simp only: uv add.commute [of "n * v"] funpow_add comp_apply)
  thus ?thesis
    using assms by (simp add: funpow_period)
qed

end
