(* ===== verification/Go_Strings.thy ===== *)
theory Go_Strings
  imports Orama_Prelude "HOL-Library.Char_ord" "HOL-Library.List_Lexorder"
begin

text \<open>
  The functions of Go's packages \<^verbatim>\<open>strings\<close> and \<^verbatim>\<open>strconv\<close> that the
  modelled components call, on strings as lists of bytes.  White space and
  letter case are those of ASCII.
\<close>

section \<open>Searching\<close>

definition is_prefix :: "string \<Rightarrow> string \<Rightarrow> bool" where
  "is_prefix p s \<longleftrightarrow> take (length p) s = p"

fun contains_str :: "string \<Rightarrow> string \<Rightarrow> bool" where
  "contains_str [] sub = (sub = [])"
| "contains_str (c # cs) sub = (is_prefix sub (c # cs) \<or> contains_str cs sub)"

definition HasPrefix :: "string \<Rightarrow> string \<Rightarrow> bool" where
  "HasPrefix s p \<longleftrightarrow> is_prefix p s"

definition HasSuffix :: "string \<Rightarrow> string \<Rightarrow> bool" where
  "HasSuffix s p \<longleftrightarrow> is_prefix (rev p) (rev s)"

text \<open>The text before and after the first occurrence of a byte, if there is one.\<close>

fun cut_at :: "char \<Rightarrow> string \<Rightarrow> (string \<times> string) option" where
  "cut_at c [] = None"
| "cut_at c (x # xs) = (if x = c then Some ([], xs) else map_option (\<lambda>(a, b). (x # a, b)) (cut_at c xs))"

lemma is_prefix_iff: "is_prefix p s \<longleftrightarrow> (\<exists>r. s = p @ r)"
  by (metis append_eq_conv_conj append_take_drop_id is_prefix_def)

lemma HasPrefix_iff: "HasPrefix s p \<longleftrightarrow> (\<exists>r. s = p @ r)"
  by (simp add: HasPrefix_def is_prefix_iff)

lemma HasSuffix_iff: "HasSuffix s p \<longleftrightarrow> (\<exists>r. s = r @ p)"
  by (metis HasSuffix_def is_prefix_iff rev_append rev_rev_ident)

lemma cut_at_None: "cut_at c s = None \<longleftrightarrow> c \<notin> set s"
  by (induction s) auto

lemma cut_at_Some: "cut_at c s = Some (a, b) \<longleftrightarrow> s = a @ c # b \<and> c \<notin> set a"
proof (induction s arbitrary: a)
  case (Cons x s)
  thus ?case by (cases a) auto
qed simp

section \<open>Trimming and letter case\<close>

definition is_space :: "char \<Rightarrow> bool" where
  "is_space c \<longleftrightarrow> c = CHR '' '' \<or> (of_char c :: nat) \<in> {9..13}"

definition TrimSpace :: "string \<Rightarrow> string" where
  "TrimSpace s = rev (dropWhile is_space (rev (dropWhile is_space s)))"

definition lower_char :: "char \<Rightarrow> char" where
  "lower_char c = (let n = of_char c :: nat in if 65 \<le> n \<and> n \<le> 90 then char_of (n + 32) else c)"

definition ToLower :: "string \<Rightarrow> string" where
  "ToLower s = map lower_char s"

lemma lower_char_idem [simp]: "lower_char (lower_char c) = lower_char c"
  by (auto simp: lower_char_def Let_def)

lemma ToLower_idem [simp]: "ToLower (ToLower s) = ToLower s"
  by (simp add: ToLower_def)

lemma is_space_lower [simp]: "is_space (lower_char c) \<longleftrightarrow> is_space c"
proof (cases "65 \<le> (of_char c :: nat) \<and> (of_char c :: nat) \<le> 90")
  case True
  hence l: "of_char (lower_char c) = (of_char c + 32 :: nat)" by (simp add: lower_char_def Let_def)
  have sp: "(of_char (CHR '' '') :: nat) = 32" by simp
  have "lower_char c \<noteq> CHR '' ''" "c \<noteq> CHR '' ''" using True l sp by force+
  thus ?thesis using True l by (simp add: is_space_def)
qed (auto simp: lower_char_def Let_def)

lemma TrimSpace_id: "(\<And>c. c \<in> set s \<Longrightarrow> \<not> is_space c) \<Longrightarrow> TrimSpace s = s"
proof -
  assume *: "\<And>c. c \<in> set s \<Longrightarrow> \<not> is_space c"
  have keep: "dropWhile is_space t = t" if "set t = set s" for t
    using * that hd_in_set [of t] by (auto simp: dropWhile_eq_self_iff)
  show ?thesis using keep [of s] keep [of "rev s"] by (simp add: TrimSpace_def)
qed

lemma set_TrimSpace: "set (TrimSpace s) \<subseteq> set s"
  by (auto simp: TrimSpace_def dest!: set_dropWhileD)

section \<open>Splitting and joining\<close>

fun split_by :: "(char \<Rightarrow> bool) \<Rightarrow> string \<Rightarrow> string list" where
  "split_by P [] = [[]]"
| "split_by P (c # cs) = (if P c then [] # split_by P cs
     else case split_by P cs of w # ws \<Rightarrow> (c # w) # ws | [] \<Rightarrow> [[c]])"

definition strings_Split :: "string \<Rightarrow> char \<Rightarrow> string list" where
  "strings_Split s sep = split_by (\<lambda>c. c = sep) s"

definition FieldsFunc :: "(char \<Rightarrow> bool) \<Rightarrow> string \<Rightarrow> string list" where
  "FieldsFunc P s = filter (\<lambda>w. w \<noteq> []) (split_by P s)"

definition Fields :: "string \<Rightarrow> string list" where
  "Fields s = FieldsFunc is_space s"

fun strings_Join :: "string list \<Rightarrow> char \<Rightarrow> string" where
  "strings_Join [] sep = []"
| "strings_Join [w] sep = w"
| "strings_Join (w # v # ws) sep = w @ sep # strings_Join (v # ws) sep"

lemma split_by_nonempty [simp]: "split_by P s \<noteq> []"
  by (induction s) (auto split: list.splits)

lemma split_by_word: "w \<in> set (split_by P s) \<Longrightarrow> c \<in> set w \<Longrightarrow> c \<in> set s \<and> \<not> P c"
proof (induction s arbitrary: w)
  case (Cons x s)
  show ?case
  proof (cases "P x")
    case False
    obtain v vs where "split_by P s = v # vs" using split_by_nonempty by (meson neq_Nil_conv)
    thus ?thesis using False Cons.prems Cons.IH [of v] Cons.IH [of w] by auto
  qed (use Cons in auto)
qed auto

lemma split_by_clean: "(\<And>c. c \<in> set w \<Longrightarrow> \<not> P c) \<Longrightarrow> split_by P w = [w]"
  by (induction w) auto

lemma split_by_append_sep:
  "(\<And>c. c \<in> set w \<Longrightarrow> \<not> P c) \<Longrightarrow> P x \<Longrightarrow> split_by P (w @ x # s) = w # split_by P s"
  by (induction w) auto

lemma split_by_Join:
  "ws \<noteq> [] \<Longrightarrow> P sep \<Longrightarrow> (\<And>w c. w \<in> set ws \<Longrightarrow> c \<in> set w \<Longrightarrow> \<not> P c) \<Longrightarrow> split_by P (strings_Join ws sep) = ws"
proof (induction ws sep rule: strings_Join.induct)
  case (2 w sep)
  thus ?case by (auto intro!: split_by_clean)
next
  case (3 w v ws sep)
  have "split_by P (w @ sep # strings_Join (v # ws) sep) = w # split_by P (strings_Join (v # ws) sep)"
    by (rule split_by_append_sep) (use 3 in auto)
  moreover have "split_by P (strings_Join (v # ws) sep) = v # ws" by (rule 3(1)) (use 3 in auto)
  ultimately show ?case by simp
qed simp

lemma Split_Join:
  "ws \<noteq> [] \<Longrightarrow> (\<And>w. w \<in> set ws \<Longrightarrow> sep \<notin> set w) \<Longrightarrow> strings_Split (strings_Join ws sep) sep = ws"
  unfolding strings_Split_def by (rule split_by_Join) auto

lemma FieldsFunc_Join:
  "ws \<noteq> [] \<Longrightarrow> P sep \<Longrightarrow> (\<And>w c. w \<in> set ws \<Longrightarrow> c \<in> set w \<Longrightarrow> \<not> P c) \<Longrightarrow> [] \<notin> set ws \<Longrightarrow>
     FieldsFunc P (strings_Join ws sep) = ws"
  unfolding FieldsFunc_def by (subst split_by_Join) (auto intro: filter_True)

lemma Join_Nil_iff: "[] \<notin> set ws \<Longrightarrow> strings_Join ws sep = [] \<longleftrightarrow> ws = []"
  by (induction ws sep rule: strings_Join.induct) auto

lemma hd_Join: "ws \<noteq> [] \<Longrightarrow> hd ws \<noteq> [] \<Longrightarrow> hd (strings_Join ws sep) = hd (hd ws)"
  by (induction ws sep rule: strings_Join.induct) auto

lemma last_Join: "ws \<noteq> [] \<Longrightarrow> [] \<notin> set ws \<Longrightarrow> last (strings_Join ws sep) = last (last ws)"
  by (induction ws sep rule: strings_Join.induct) (auto simp: Join_Nil_iff)

lemma TrimSpace_ends: "s \<noteq> [] \<Longrightarrow> \<not> is_space (hd s) \<Longrightarrow> \<not> is_space (last s) \<Longrightarrow> TrimSpace s = s"
proof -
  assume s: "s \<noteq> []" "\<not> is_space (hd s)" "\<not> is_space (last s)"
  hence "dropWhile is_space s = s" "dropWhile is_space (rev s) = rev s"
    by (simp_all add: dropWhile_eq_self_iff hd_rev)
  thus ?thesis by (simp add: TrimSpace_def)
qed

lemma set_Join: "set (strings_Join ws sep) \<subseteq> insert sep (\<Union> (set ` set ws))"
  by (induction ws sep rule: strings_Join.induct) auto

section \<open>Decimal integers\<close>

text \<open>\<^verbatim>\<open>strconv.Atoi\<close>: an optional sign and at least one decimal digit, whose value
  fits into 64 bits.\<close>

definition digit_value :: "char \<Rightarrow> int option" where
  "digit_value c = (let n = of_char c :: nat in if 48 \<le> n \<and> n \<le> 57 then Some (int n - 48) else None)"

fun digits_value :: "int \<Rightarrow> string \<Rightarrow> int option" where
  "digits_value acc [] = Some acc"
| "digits_value acc (c # cs) = (case digit_value c of None \<Rightarrow> None | Some d \<Rightarrow> digits_value (10 * acc + d) cs)"

definition unsigned_value :: "string \<Rightarrow> int option" where
  "unsigned_value s = (if s = [] then None else digits_value 0 s)"

definition MaxInt64 :: int where "MaxInt64 = 2 ^ 63 - 1"

definition Atoi :: "string \<Rightarrow> int option" where
  "Atoi s =
     (case s of
        [] \<Rightarrow> None
      | c # cs \<Rightarrow>
          (case (if c = CHR ''-'' then map_option uminus (unsigned_value cs)
                 else if c = CHR ''+'' then unsigned_value cs else unsigned_value s) of
             None \<Rightarrow> None
           | Some n \<Rightarrow> if - MaxInt64 - 1 \<le> n \<and> n \<le> MaxInt64 then Some n else None))"

lemma Atoi_range: "Atoi s = Some n \<Longrightarrow> - MaxInt64 - 1 \<le> n \<and> n \<le> MaxInt64"
  by (auto simp: Atoi_def split: list.splits option.splits if_splits)

text \<open>The decimal representation of a natural number.\<close>

fun decimal :: "nat \<Rightarrow> string" where
  "decimal n = (if n < 10 then [char_of (48 + n)] else decimal (n div 10) @ [char_of (48 + n mod 10)])"

declare decimal.simps [simp del]

lemma digit_value_char: "d < 10 \<Longrightarrow> digit_value (char_of (48 + d)) = Some (int d)"
  by (simp add: digit_value_def Let_def)

lemma digits_value_append:
  "digits_value acc (a @ b) = (case digits_value acc a of None \<Rightarrow> None | Some m \<Rightarrow> digits_value m b)"
  by (induction a arbitrary: acc) (auto split: option.splits)

lemma digits_value_decimal: "digits_value 0 (decimal n) = Some (int n)"
proof (induction n rule: decimal.induct)
  case (1 n)
  show ?case
  proof (cases "n < 10")
    case False
    have "digits_value (int (n div 10)) [char_of (48 + n mod 10)] = Some (10 * int (n div 10) + int (n mod 10))"
      by (simp add: digit_value_char)
    also have "10 * int (n div 10) + int (n mod 10) = int n"
      by (metis mult_div_mod_eq of_nat_add of_nat_mult of_nat_numeral)
    finally show ?thesis using False 1 by (simp add: decimal.simps [of n] digits_value_append)
  qed (simp add: decimal.simps [of n] digit_value_char)
qed

definition is_digit :: "char \<Rightarrow> bool" where
  "is_digit c \<longleftrightarrow> (of_char c :: nat) \<in> {48..57}"

lemma decimal_digits: "c \<in> set (decimal n) \<Longrightarrow> is_digit c"
proof (induction n rule: decimal.induct)
  case (1 n)
  have "is_digit (char_of (48 + d))" if "d < 10" for d :: nat using that by (simp add: is_digit_def)
  thus ?case using 1 by (auto simp: decimal.simps [of n] split: if_splits)
qed

lemma decimal_nonempty [simp]: "decimal n \<noteq> []"
  by (simp add: decimal.simps [of n])

lemma digit_not [simp]:
  "is_digit c \<Longrightarrow> c \<noteq> CHR ''-''" "is_digit c \<Longrightarrow> c \<noteq> CHR ''+''" "is_digit c \<Longrightarrow> c \<noteq> CHR ''/''"
  "is_digit c \<Longrightarrow> c \<noteq> CHR '',''" "is_digit c \<Longrightarrow> c \<noteq> CHR ''*''" "is_digit c \<Longrightarrow> \<not> is_space c"
  by (auto simp: is_digit_def is_space_def)

lemma not_digit [simp]:
  "\<not> is_digit CHR ''-''" "\<not> is_digit CHR ''+''" "\<not> is_digit CHR ''/''" "\<not> is_digit CHR '',''"
  "\<not> is_digit CHR ''*''" "\<not> is_digit CHR '' ''"
  by (simp_all add: is_digit_def)

lemma not_in_decimal: "\<not> is_digit c \<Longrightarrow> c \<notin> set (decimal n)"
  using decimal_digits by blast

lemma Atoi_decimal: "int n \<le> MaxInt64 \<Longrightarrow> Atoi (decimal n) = Some (int n)"
proof -
  assume n: "int n \<le> MaxInt64"
  obtain c cs where d: "decimal n = c # cs" by (metis decimal_nonempty neq_Nil_conv)
  have "is_digit c" using decimal_digits [of c n] d by simp
  hence "c \<noteq> CHR ''-''" "c \<noteq> CHR ''+''" by simp_all
  moreover have "unsigned_value (c # cs) = Some (int n)"
    unfolding d [symmetric] unsigned_value_def by (simp add: digits_value_decimal)
  ultimately show ?thesis using n by (simp add: Atoi_def d MaxInt64_def)
qed

end
