(* ===== verification/Go_Net.thy ===== *)
theory Go_Net
  imports Go_Strings Orama_Prelude
begin

text \<open>
  What the gateway uses of the standard library's \<^verbatim>\<open>net\<close> package: \<^verbatim>\<open>SplitHostPort\<close>,
  the parser of textual IP addresses, and the tests for the loopback addresses
  and for membership in a network.  An address is its sixteen bytes, as
  \<^verbatim>\<open>net.ParseIP\<close> returns it; an IPv4 address has the prefix of the mapped
  addresses.
\<close>

section \<open>Host and port\<close>

fun last_index :: "char \<Rightarrow> string \<Rightarrow> nat option" where
  "last_index c [] = None"
| "last_index c (x # xs) =
     (case last_index c xs of Some i \<Rightarrow> Some (Suc i) | None \<Rightarrow> if x = c then Some 0 else None)"

fun first_index :: "char \<Rightarrow> string \<Rightarrow> nat option" where
  "first_index c [] = None"
| "first_index c (x # xs) = (if x = c then Some 0 else map_option Suc (first_index c xs))"

text \<open>The host of an address, \<^term>\<open>None\<close> if the address is malformed.\<close>

definition SplitHostPort :: "string \<Rightarrow> (string \<times> string) option" where
  "SplitHostPort hostport =
     (case last_index CHR '':'' hostport of
        None \<Rightarrow> None
      | Some i \<Rightarrow>
          if hd hostport = CHR ''['' then
            (case first_index CHR '']'' hostport of
               None \<Rightarrow> None
             | Some e \<Rightarrow>
                 if e + 1 \<noteq> i then None
                 else if CHR ''['' \<in> set (drop 1 hostport) \<or> CHR '']'' \<in> set (drop (e + 1) hostport) then None
                 else Some (drop 1 (take e hostport), drop (i + 1) hostport))
          else if CHR '':'' \<in> set (take i hostport) then None
          else if CHR ''['' \<in> set hostport \<or> CHR '']'' \<in> set hostport then None
          else Some (take i hostport, drop (i + 1) hostport))"

section \<open>IP addresses\<close>

text \<open>A decimal field of an IPv4 address: one to three digits, no leading zero, at most 255.\<close>

definition ipv4_field :: "string \<Rightarrow> nat option" where
  "ipv4_field s =
     (if s = [] \<or> 3 < length s \<or> (1 < length s \<and> hd s = CHR ''0'') then None
      else case unsigned_value s of
        None \<Rightarrow> None
      | Some n \<Rightarrow> if n \<le> 255 then Some (nat n) else None)"

definition parse_ipv4 :: "string \<Rightarrow> nat list option" where
  "parse_ipv4 s =
     (case map ipv4_field (strings_Split s CHR ''.'') of
        [Some a, Some b, Some c, Some d] \<Rightarrow> Some [a, b, c, d]
      | _ \<Rightarrow> None)"

definition hex_value :: "char \<Rightarrow> nat option" where
  "hex_value c =
     (let n = of_char c :: nat in
      if 48 \<le> n \<and> n \<le> 57 then Some (n - 48)
      else if 97 \<le> n \<and> n \<le> 102 then Some (n - 87)
      else if 65 \<le> n \<and> n \<le> 70 then Some (n - 55)
      else None)"

definition is_hex :: "char \<Rightarrow> bool" where
  "is_hex c \<longleftrightarrow> hex_value c \<noteq> None"

definition hex_number :: "string \<Rightarrow> nat" where
  "hex_number s = fold (\<lambda>c acc. acc * 16 + the (hex_value c)) s 0"

text \<open>The loop over the groups of an IPv6 address: \<open>acc\<close> the bytes so far, \<open>ell\<close> the
  position of the ellipsis if one was read.  Each group takes a character.\<close>

function ipv6_loop :: "string \<Rightarrow> nat list \<Rightarrow> nat option \<Rightarrow> (nat list \<times> nat option) option" where
  "ipv6_loop s acc ell =
     (if 16 \<le> length acc then (if s = [] then Some (acc, ell) else None)
      else let digits = takeWhile is_hex s; rest = dropWhile is_hex s in
        if digits = [] \<or> 4 < length digits then None
        else if rest \<noteq> [] \<and> hd rest = CHR ''.'' then
          (if (ell = None \<and> length acc \<noteq> 12) \<or> 16 < length acc + 4 then None
           else map_option (\<lambda>v4. (acc @ v4, ell)) (parse_ipv4 s))
        else let acc' = acc @ [hex_number digits div 256, hex_number digits mod 256] in
          if rest = [] then Some (acc', ell)
          else if hd rest \<noteq> CHR '':'' \<or> length rest = 1 then None
          else if rest ! 1 = CHR '':'' then
            (if ell \<noteq> None then None
             else if drop 2 rest = [] then Some (acc', Some (length acc'))
             else ipv6_loop (drop 2 rest) acc' (Some (length acc')))
          else ipv6_loop (drop 1 rest) acc' ell)"
  by auto

termination
  by (relation "measure (\<lambda>(s, acc, ell). 16 - length acc)") auto

declare ipv6_loop.simps [simp del]

definition parse_ipv6 :: "string \<Rightarrow> nat list option" where
  "parse_ipv6 s =
     (let (s', ell) = (if is_prefix ''::'' s then (drop 2 s, Some 0) else (s, None)) in
      if ell \<noteq> None \<and> s' = [] then Some (replicate 16 0)
      else case ipv6_loop s' [] ell of
        None \<Rightarrow> None
      | Some (bytes, ell) \<Rightarrow>
          (case ell of
             None \<Rightarrow> if length bytes < 16 then None else Some bytes
           | Some e \<Rightarrow>
               if length bytes < 16 then Some (take e bytes @ replicate (16 - length bytes) 0 @ drop e bytes)
               else None))"

definition ParseIP :: "string \<Rightarrow> nat list option" where
  "ParseIP s =
     (case find (\<lambda>c. c \<in> {CHR ''.'', CHR '':'', CHR ''%''}) s of
        None \<Rightarrow> None
      | Some c \<Rightarrow>
          if c = CHR ''.'' then map_option (\<lambda>v4. replicate 10 0 @ [255, 255] @ v4) (parse_ipv4 s)
          else if c = CHR '':'' then parse_ipv6 s
          else None)"

definition To4 :: "nat list \<Rightarrow> nat list option" where
  "To4 ip = (if take 12 ip = replicate 10 0 @ [255, 255] then Some (drop 12 ip) else None)"

definition IsLoopback :: "nat list \<Rightarrow> bool" where
  "IsLoopback ip =
     (case To4 ip of Some v4 \<Rightarrow> hd v4 = 127 | None \<Rightarrow> ip = replicate 15 0 @ [1])"

end
