(* ===== verification/Gateway_Requests.thy ===== *)
theory Gateway_Requests
  imports Go_Net
begin

text \<open>
  What the middlewares of the gateway read of a request
  (\<^verbatim>\<open>core/pkg/gateway/middleware.go\<close>, \<^verbatim>\<open>core/pkg/gateway/rate_limiter.go\<close>,
  \<^verbatim>\<open>core/pkg/auth/internal_auth.go\<close>): credentials, addresses and the classes of
  paths.  A header set is the function \<^verbatim>\<open>Get\<close> of it, which gives the empty string
  for a header that is absent; so is the query.
\<close>

section \<open>Requests\<close>

type_synonym headers = "string \<Rightarrow> string"

record http_request =
  rq_Method :: string
  rq_Path :: string
  rq_Header :: headers
  rq_Query :: "string \<Rightarrow> string"
  rq_RemoteAddr :: string

definition isWebSocketUpgrade :: "http_request \<Rightarrow> bool" where
  "isWebSocketUpgrade r \<longleftrightarrow>
     contains_str (ToLower (rq_Header r ''Connection'')) ''upgrade'' \<and>
     ToLower (rq_Header r ''Upgrade'') = ''websocket''"

definition count_dots :: "string \<Rightarrow> nat" where
  "count_dots s = length (filter (\<lambda>c. c = CHR ''.'') s)"

text \<open>The token of a bearer header that looks like a JWT.\<close>

definition bearer_jwt :: "http_request \<Rightarrow> string option" where
  "bearer_jwt r =
     (let auth = rq_Header r ''Authorization''; tok = TrimSpace (drop 7 auth) in
      if auth \<noteq> [] \<and> HasPrefix (ToLower auth) ''bearer '' \<and> count_dots tok = 2 then Some tok else None)"

definition maxQueryJWTLength :: nat where
  "maxQueryJWTLength = 4096"

definition query_jwt :: "http_request \<Rightarrow> string option" where
  "query_jwt r =
     (let tok = TrimSpace (rq_Query r ''jwt'') in
      if isWebSocketUpgrade r \<and> tok \<noteq> [] \<and> length tok \<le> maxQueryJWTLength \<and> count_dots tok = 2
      then Some tok else None)"

definition stripJWTQueryParam :: "http_request \<Rightarrow> http_request" where
  "stripJWTQueryParam r = r\<lparr>rq_Query := (rq_Query r)(''jwt'' := [])\<rparr>"

text \<open>The key in the Authorization header, if that header decides: the result of
  \<open>Some\<close> is returned even if it is empty.\<close>

definition authorization_key :: "string \<Rightarrow> string option" where
  "authorization_key auth =
     (if auth = [] then None
      else let lower = ToLower auth in
        if HasPrefix lower ''bearer '' then
          (let tok = TrimSpace (drop 7 auth) in if count_dots tok = 2 then None else Some tok)
        else if HasPrefix lower ''apikey '' then Some (TrimSpace (drop 7 auth))
        else if \<not> contains_str auth '' '' then
          (let tok = TrimSpace auth in if count_dots tok \<noteq> 2 then Some tok else None)
        else None)"

definition extractAPIKey :: "http_request \<Rightarrow> string" where
  "extractAPIKey r =
     (let v = TrimSpace (rq_Header r ''X-API-Key'') in
      if v \<noteq> [] then v
      else case authorization_key (rq_Header r ''Authorization'') of
        Some k \<Rightarrow> k
      | None \<Rightarrow>
          if isWebSocketUpgrade r then
            (let k = TrimSpace (rq_Query r ''api_key''); t = TrimSpace (rq_Query r ''token'') in
             if k \<noteq> [] then k else if t \<noteq> [] then t else [])
          else [])"

section \<open>Addresses\<close>

definition remoteAddrIP :: "http_request \<Rightarrow> string" where
  "remoteAddrIP r =
     (case SplitHostPort (rq_RemoteAddr r) of None \<Rightarrow> rq_RemoteAddr r | Some (host, port) \<Rightarrow> host)"

definition getClientIP :: "http_request \<Rightarrow> string" where
  "getClientIP r =
     (let xff = TrimSpace (rq_Header r ''X-Forwarded-For''); xr = TrimSpace (rq_Header r ''X-Real-IP'') in
      if xff \<noteq> [] then TrimSpace (hd (strings_Split xff CHR '',''))
      else if xr \<noteq> [] then xr
      else remoteAddrIP r)"

text \<open>The mesh of the nodes is \<^verbatim>\<open>10.0.0.0/24\<close>.\<close>

definition wireGuardNet_Contains :: "nat list \<Rightarrow> bool" where
  "wireGuardNet_Contains ip = (case To4 ip of Some v4 \<Rightarrow> take 3 v4 = [10, 0, 0] | None \<Rightarrow> False)"

definition IsWireGuardPeer :: "string \<Rightarrow> bool" where
  "IsWireGuardPeer remoteAddr =
     (case SplitHostPort remoteAddr of
        None \<Rightarrow> False
      | Some (host, port) \<Rightarrow>
          (case ParseIP host of None \<Rightarrow> False | Some ip \<Rightarrow> wireGuardNet_Contains ip))"

definition strip_port :: "string \<Rightarrow> string" where
  "strip_port ipStr =
     (if contains_str ipStr '':'' then
        (case SplitHostPort ipStr of None \<Rightarrow> ipStr | Some (host, port) \<Rightarrow> host)
      else ipStr)"

definition isInternalIP :: "string \<Rightarrow> bool" where
  "isInternalIP ipStr =
     (case ParseIP (strip_port ipStr) of
        None \<Rightarrow> False
      | Some ip \<Rightarrow> IsLoopback ip \<or> wireGuardNet_Contains ip)"

section \<open>Classes of paths\<close>

definition public_paths :: "string list" where
  "public_paths =
     [''/health'', ''/v1/health'', ''/status'', ''/v1/status'', ''/v1/auth/jwks'', ''/.well-known/jwks.json'',
      ''/v1/version'', ''/v1/auth/challenge'', ''/v1/auth/verify'', ''/v1/auth/register'', ''/v1/auth/refresh'',
      ''/v1/auth/logout'', ''/v1/auth/api-key'', ''/v1/network/status'', ''/v1/network/peers'',
      ''/v1/internal/tls/check'', ''/v1/internal/acme/present'', ''/v1/internal/acme/cleanup'', ''/v1/internal/ping'']"

definition isPublicPath :: "string \<Rightarrow> bool" where
  "isPublicPath p \<longleftrightarrow>
     HasPrefix p ''/.well-known/acme-challenge/'' \<or>
     HasPrefix p ''/v1/invoke/'' \<or> (HasPrefix p ''/v1/functions/'' \<and> HasSuffix p ''/invoke'') \<or>
     HasPrefix p ''/v1/internal/deployments/replica/'' \<or>
     HasPrefix p ''/v1/internal/wg/'' \<or>
     p = ''/v1/internal/join'' \<or>
     p = ''/v1/internal/namespace/spawn'' \<or>
     p = ''/v1/internal/namespace/repair'' \<or>
     HasPrefix p ''/v1/internal/namespace/webrtc/'' \<or>
     HasPrefix p ''/v1/vault/'' \<or>
     HasPrefix p ''/v1/auth/phantom/'' \<or>
     p \<in> set public_paths \<or>
     HasPrefix p ''/v1/namespace/status''"

definition isLongRunningProxyPath :: "string \<Rightarrow> bool" where
  "isLongRunningProxyPath p \<longleftrightarrow>
     HasPrefix p ''/v1/storage/upload'' \<or> HasPrefix p ''/v1/storage/pin'' \<or> HasPrefix p ''/v1/invoke/'' \<or>
     HasPrefix p ''/v1/functions/'' \<and> (HasSuffix p ''/invoke'' \<or> HasSuffix p ''/ws'')"

definition isKeyMgmtPath :: "string \<Rightarrow> bool" where
  "isKeyMgmtPath p \<longleftrightarrow> p = ''/v1/namespace/keys'' \<or> HasPrefix p ''/v1/namespace/keys/''"

definition requiresNamespaceOwnership :: "string \<Rightarrow> bool" where
  "requiresNamespaceOwnership p \<longleftrightarrow>
     p = ''/rqlite'' \<or> p = ''/v1/rqlite'' \<or> HasPrefix p ''/v1/rqlite/'' \<or>
     HasPrefix p ''/v1/pubsub'' \<or> HasPrefix p ''/v1/proxy/'' \<or> HasPrefix p ''/v1/functions'' \<or>
     HasPrefix p ''/v1/webrtc/'' \<or> HasPrefix p ''/v1/push/'' \<or>
     p = ''/v1/namespace/push-credentials'' \<or> HasPrefix p ''/v1/namespace/push-credentials/'' \<or>
     HasPrefix p ''/v1/serverless/'' \<or>
     p = ''/v1/namespace/keys'' \<or> HasPrefix p ''/v1/namespace/keys/''"

end
