(* ===== verification/Access_Scopes.thy ===== *)
theory Access_Scopes
  imports Gateway_Requests "HOL-Library.List_Lexorder" "HOL-Library.Char_ord"
begin

text \<open>
  The grants of API keys (\<^verbatim>\<open>core/pkg/gateway/auth/scopes.go\<close>) and the grant that
  each route asks for (\<^verbatim>\<open>core/pkg/gateway/scope_policy.go\<close>).  A \<^verbatim>\<open>ScopeSet\<close> is a
  finite set of strings; strings are ordered by their bytes, as \<^verbatim>\<open>sort.Strings\<close>
  orders them.
\<close>

section \<open>auth/scopes.go\<close>

type_synonym ScopeSet = "string set"

abbreviation ScopeAdmin :: string where "ScopeAdmin \<equiv> ''admin''"
abbreviation ScopeInvoke :: string where "ScopeInvoke \<equiv> ''invoke''"
abbreviation ScopeStorage :: string where "ScopeStorage \<equiv> ''storage''"
abbreviation ScopePush :: string where "ScopePush \<equiv> ''push''"
abbreviation ScopeWebRTC :: string where "ScopeWebRTC \<equiv> ''webrtc''"
abbreviation ScopeProxy :: string where "ScopeProxy \<equiv> ''proxy''"
abbreviation ScopePubsub :: string where "ScopePubsub \<equiv> ''pubsub''"
abbreviation ScopeCache :: string where "ScopeCache \<equiv> ''cache''"

definition knownGrants :: ScopeSet where
  "knownGrants = {ScopeAdmin, ScopeInvoke, ScopeStorage, ScopePush, ScopeWebRTC, ScopeProxy, ScopeCache}"

definition Has :: "ScopeSet \<Rightarrow> string \<Rightarrow> bool" where
  "Has s required \<longleftrightarrow> required = [] \<or> ScopeAdmin \<in> s \<or> required \<in> s"

definition IsAdmin :: "ScopeSet \<Rightarrow> bool" where
  "IsAdmin s \<longleftrightarrow> ScopeAdmin \<in> s"

definition Canonical :: "ScopeSet \<Rightarrow> string" where
  "Canonical s = (if s = {} then [] else strings_Join (sorted_list_of_set s) CHR '','')"

definition ParseScopes :: "string \<Rightarrow> ScopeSet" where
  "ParseScopes raw =
     set (filter (\<lambda>g. g \<noteq> []) (map (\<lambda>part. ToLower (TrimSpace part)) (strings_Split raw CHR '','')))"

definition ScopesFromStored :: "string \<Rightarrow> ScopeSet" where
  "ScopesFromStored raw = (if TrimSpace raw = [] then {ScopeAdmin} else ParseScopes raw)"

definition DataPlaneScopes :: ScopeSet where
  "DataPlaneScopes = {ScopeInvoke, ScopeStorage, ScopePush, ScopeWebRTC, ScopeProxy, ScopePubsub, ScopeCache}"

definition ProfileGrants :: "string \<Rightarrow> string list option" where
  "ProfileGrants profile =
     (let p = ToLower (TrimSpace profile) in
      if p = ''admin'' then Some [ScopeAdmin]
      else if p \<in> {''app-runtime'', ''runtime'', ''app''}
        then Some [ScopeInvoke, ScopeStorage, ScopePush, ScopeWebRTC, ScopeProxy]
      else if p \<in> {''invoke-only'', ''invoke''} then Some [ScopeInvoke]
      else None)"

datatype grant_error = ScopeRequired | UnknownGrant string | NoValidGrants string

definition is_grant_separator :: "char \<Rightarrow> bool" where
  "is_grant_separator c \<longleftrightarrow> c = CHR '','' \<or> c = CHR '' ''"

fun collect_grants :: "string list \<Rightarrow> ScopeSet \<Rightarrow> (grant_error, ScopeSet) result" where
  "collect_grants [] s = Inr s"
| "collect_grants (f # fs) s =
     (let g = ToLower (TrimSpace f) in
      if g = [] then collect_grants fs s
      else if g \<notin> knownGrants then Inl (UnknownGrant g)
      else collect_grants fs (insert g s))"

definition NormalizeGrants :: "string \<Rightarrow> (grant_error, string) result" where
  "NormalizeGrants requested0 =
     (let requested = TrimSpace requested0 in
      if requested = [] then Inl ScopeRequired
      else case ProfileGrants requested of
        Some grants \<Rightarrow> Inr (Canonical (set grants))
      | None \<Rightarrow>
          (case collect_grants (FieldsFunc is_grant_separator requested) {} of
             Inl e \<Rightarrow> Inl e
           | Inr s \<Rightarrow> if s = {} then Inl (NoValidGrants requested) else Inr (Canonical s)))"

section \<open>scope_policy.go: the grant of a route\<close>

definition requiredScope :: "string \<Rightarrow> string" where
  "requiredScope path =
     (if isPublicPath path then []
      else if path = ''/v1/functions'' \<or> HasPrefix path ''/v1/functions/'' then
        (if HasSuffix path ''/ws'' then ScopeInvoke else ScopeAdmin)
      else if HasPrefix path ''/v1/storage/'' then ScopeStorage
      else if path = ''/v1/push/devices'' \<or> HasPrefix path ''/v1/push/devices/'' then ScopePush
      else if HasPrefix path ''/v1/push/'' then ScopeAdmin
      else if path = ''/v1/namespace/push-credentials'' \<or> HasPrefix path ''/v1/namespace/push-credentials/'' then ScopeAdmin
      else if HasPrefix path ''/v1/webrtc/'' then ScopeWebRTC
      else if HasPrefix path ''/v1/namespace/webrtc/'' then
        (if HasSuffix path ''/status'' then [] else ScopeAdmin)
      else if HasPrefix path ''/v1/proxy/'' then ScopeProxy
      else if HasPrefix path ''/v1/pubsub/'' then ScopePubsub
      else if HasPrefix path ''/v1/cache/'' then ScopeCache
      else if path = ''/rqlite'' \<or> path = ''/v1/rqlite'' \<or> HasPrefix path ''/v1/rqlite/'' then ScopeAdmin
      else if HasPrefix path ''/v1/deployments/'' then ScopeAdmin
      else if HasPrefix path ''/v1/db/sqlite/'' then ScopeAdmin
      else if HasPrefix path ''/v1/serverless/'' then ScopeAdmin
      else if path = ''/v1/namespace/rate-limit'' then ScopeAdmin
      else if path = ''/v1/namespace/keys'' \<or> HasPrefix path ''/v1/namespace/keys/'' then ScopeAdmin
      else if path = ''/v1/namespace/delete'' \<or> path = ''/v1/namespace/list'' then ScopeAdmin
      else [])"

definition requiresUserJWT :: "string \<Rightarrow> bool" where
  "requiresUserJWT grant \<longleftrightarrow> grant = ScopeStorage \<or> grant = ScopeWebRTC \<or> grant = ScopeProxy"

section \<open>Round trips\<close>

definition grant_text :: "string \<Rightarrow> bool" where
  "grant_text g \<longleftrightarrow> g \<noteq> [] \<and> TrimSpace g = g \<and> ToLower g = g \<and> CHR '','' \<notin> set g"

lemma TrimSpace_ToLower: "TrimSpace (ToLower s) = ToLower (TrimSpace s)"
  by (simp add: TrimSpace_def ToLower_def dropWhile_map rev_map comp_def)

lemma TrimSpace_idem [simp]: "TrimSpace (TrimSpace s) = TrimSpace s"
proof (cases "TrimSpace s = []")
  case False
  let ?t = "dropWhile is_space s"
  have "?t = TrimSpace s @ rev (takeWhile is_space (rev ?t))"
    using takeWhile_dropWhile_id [of is_space "rev ?t"] by (metis TrimSpace_def rev_append rev_rev_ident)
  then have "hd (TrimSpace s) = hd ?t" "?t \<noteq> []"
    using False by (metis hd_append2, metis append_is_Nil_conv)
  then have "\<not> is_space (hd (TrimSpace s))" using hd_dropWhile [of is_space s] by metis
  moreover have "\<not> is_space (last (TrimSpace s))"
    using False hd_dropWhile [of is_space "rev ?t"] by (simp add: TrimSpace_def last_rev)
  ultimately show ?thesis using False by (intro TrimSpace_ends)
next
  case True
  show ?thesis unfolding True by (simp add: TrimSpace_def)
qed

lemma lower_char_comma: "lower_char c = CHR '','' \<longleftrightarrow> c = CHR '',''"
proof (cases "65 \<le> (of_char c :: nat) \<and> (of_char c :: nat) \<le> 90")
  case True
  then have "of_char (lower_char c) = (of_char c + 32 :: nat)" by (simp add: lower_char_def Let_def)
  moreover have "(of_char (CHR '','') :: nat) = 44" by simp
  ultimately have "lower_char c \<noteq> CHR '',''" "c \<noteq> CHR '',''" using True by force+
  then show ?thesis by simp
qed (auto simp: lower_char_def Let_def)

lemma comma_in_ToLower: "CHR '','' \<in> set (ToLower s) \<longleftrightarrow> CHR '','' \<in> set s"
  unfolding ToLower_def set_map image_iff using lower_char_comma by metis

lemma comma_not_in_part: "p \<in> set (strings_Split raw CHR '','') \<Longrightarrow> CHR '','' \<notin> set (TrimSpace p)"
  using set_TrimSpace [of p] split_by_word [of p "\<lambda>c. c = CHR '',''" raw "CHR '',''"]
  by (auto simp: strings_Split_def)

lemma ParseScopes_texts: "g \<in> ParseScopes raw \<Longrightarrow> grant_text g"
  by (auto simp: ParseScopes_def grant_text_def TrimSpace_ToLower comma_in_ToLower comma_not_in_part)

lemma finite_ParseScopes [simp]: "finite (ParseScopes raw)"
  by (simp add: ParseScopes_def)

lemma Parse_Canonical:
  assumes "finite s" "\<And>g. g \<in> s \<Longrightarrow> grant_text g"
  shows "ParseScopes (Canonical s) = s"
proof (cases "s = {}")
  case True
  then show ?thesis by (simp add: Canonical_def ParseScopes_def strings_Split_def TrimSpace_def ToLower_def)
next
  case False
  have "strings_Split (strings_Join (sorted_list_of_set s) CHR '','') CHR '','' = sorted_list_of_set s"
    using assms False by (intro Split_Join) (auto simp: grant_text_def)
  moreover have "ToLower (TrimSpace g) = g \<and> g \<noteq> []" if "g \<in> s" for g
    using assms(2) [OF that] by (simp add: grant_text_def)
  ultimately show ?thesis using False assms(1)
    by (auto simp: Canonical_def ParseScopes_def image_iff)
qed


lemma TrimSpace_Nil_iff: "TrimSpace s = [] \<longleftrightarrow> (\<forall>c\<in>set s. is_space c)"
proof -
  have "TrimSpace s = [] \<longleftrightarrow> (\<forall>c\<in>set (dropWhile is_space s). is_space c)"
    by (simp add: TrimSpace_def)
  also have "\<dots> \<longleftrightarrow> (\<forall>c\<in>set s. is_space c)"
    by (metis dropWhile_eq_Nil_conv hd_dropWhile hd_in_set set_dropWhileD)
  finally show ?thesis .
qed

lemma word_in_Join: "w \<in> set ws \<Longrightarrow> set w \<subseteq> set (strings_Join ws sep)"
  by (induction ws sep rule: strings_Join.induct) auto

lemma Canonical_blank_iff:
  assumes "finite s" "\<And>g. g \<in> s \<Longrightarrow> grant_text g"
  shows "TrimSpace (Canonical s) = [] \<longleftrightarrow> s = {}"
proof
  assume blank: "TrimSpace (Canonical s) = []"
  show "s = {}"
  proof (rule ccontr)
    assume ne: "s \<noteq> {}"
    then obtain g where g: "g \<in> s" by blast
    then have "TrimSpace g \<noteq> []" using assms(2) by (metis grant_text_def)
    then obtain c where "c \<in> set g" "\<not> is_space c" by (auto simp: TrimSpace_Nil_iff)
    moreover have "set g \<subseteq> set (Canonical s)"
      using g ne assms(1) word_in_Join [of g "sorted_list_of_set s"] by (simp add: Canonical_def)
    ultimately show False using blank by (auto simp: TrimSpace_Nil_iff)
  qed
qed (simp add: Canonical_def TrimSpace_def)

lemma known_grant_text: "g \<in> knownGrants \<Longrightarrow> grant_text g"
  unfolding knownGrants_def grant_text_def
  by (elim insertE emptyE; simp add: TrimSpace_def ToLower_def is_space_def lower_char_def Let_def)


lemma Stored_Canonical:
  assumes "finite s" "s \<noteq> {}" "\<And>g. g \<in> s \<Longrightarrow> grant_text g"
  shows "ScopesFromStored (Canonical s) = s"
  using assms Canonical_blank_iff [OF assms(1) assms(3)] Parse_Canonical [OF assms(1) assms(3)]
  by (simp add: ScopesFromStored_def)

lemma admin_text: "grant_text ScopeAdmin"
  by (rule known_grant_text) (simp add: knownGrants_def)

lemma ScopesFromStored_texts: "g \<in> ScopesFromStored raw \<Longrightarrow> grant_text g"
  using admin_text by (auto simp: ScopesFromStored_def ParseScopes_texts split: if_splits)

lemma finite_ScopesFromStored [simp]: "finite (ScopesFromStored raw)"
  by (simp add: ScopesFromStored_def)

lemma Parse_Canonical_Stored: "ParseScopes (Canonical (ScopesFromStored raw)) = ScopesFromStored raw"
  by (rule Parse_Canonical) (simp_all add: ScopesFromStored_texts)

section \<open>Issuance\<close>

definition requested_grants :: "string \<Rightarrow> ScopeSet" where
  "requested_grants req =
     (case ProfileGrants req of
        Some grants \<Rightarrow> set grants
      | None \<Rightarrow> {g. \<exists>f \<in> set (FieldsFunc is_grant_separator (TrimSpace req)). g = ToLower (TrimSpace f)} - {[]})"

lemma collect_grants_Inr:
  "collect_grants fs s = Inr t \<Longrightarrow> t = s \<union> ({g. \<exists>f \<in> set fs. g = ToLower (TrimSpace f)} - {[]}) \<and> t - s \<subseteq> knownGrants"
  by (induction fs s rule: collect_grants.induct) (auto simp: Let_def split: if_splits)

lemma ProfileGrants_known: "ProfileGrants p = Some grants \<Longrightarrow> set grants \<subseteq> knownGrants \<and> grants \<noteq> []"
  by (auto simp: ProfileGrants_def knownGrants_def Let_def split: if_splits)

lemma finite_known: "s \<subseteq> knownGrants \<Longrightarrow> finite s"
  by (rule finite_subset) (auto simp: knownGrants_def)

lemma ProfileGrants_trim [simp]: "ProfileGrants (TrimSpace p) = ProfileGrants p"
  by (simp add: ProfileGrants_def)

lemma NormalizeGrants_Inr:
  assumes "NormalizeGrants req = Inr stored"
  obtains s where "stored = Canonical s" "s = requested_grants req" "s \<noteq> {}" "s \<subseteq> knownGrants"
proof (cases "ProfileGrants req")
  case (Some grants)
  then show ?thesis using assms that ProfileGrants_known [OF Some]
    by (auto simp: NormalizeGrants_def requested_grants_def Let_def split: if_splits)
next
  case None
  then obtain s where "collect_grants (FieldsFunc is_grant_separator (TrimSpace req)) {} = Inr s" "s \<noteq> {}"
      "stored = Canonical s"
    using assms by (auto simp: NormalizeGrants_def Let_def split: if_splits sum.splits)
  then show ?thesis using that None collect_grants_Inr by (force simp: requested_grants_def)
qed

lemma issued_scopes:
  assumes "NormalizeGrants req = Inr stored"
  shows "ScopesFromStored stored = requested_grants req \<and>
         requested_grants req \<noteq> {} \<and> requested_grants req \<subseteq> knownGrants"
proof -
  obtain s where s: "stored = Canonical s" "s = requested_grants req" "s \<noteq> {}" "s \<subseteq> knownGrants"
    using NormalizeGrants_Inr [OF assms] by blast
  have "ScopesFromStored stored = s"
    unfolding s(1) using s(3,4) by (intro Stored_Canonical) (auto intro: finite_known known_grant_text)
  then show ?thesis using s by simp
qed

text \<open>C25: The string that is stored for a new key reads back as the set of grants that was asked
  for, which is a set of known grants and not empty.  So a new key is never taken for a key of
  the time before grants, which is admin.\<close>

theorem issued_grants_exact:
  "NormalizeGrants req = Inr stored \<Longrightarrow>
     ScopesFromStored stored = requested_grants req \<and> requested_grants req \<noteq> {} \<and>
     requested_grants req \<subseteq> knownGrants"
  by (rule issued_scopes)

theorem issued_grants_exact_witness:
  "NormalizeGrants '' storage, INVOKE'' = Inr ''invoke,storage'' \<and>
   ScopesFromStored ''invoke,storage'' = requested_grants '' storage, INVOKE'' \<and>
   requested_grants '' storage, INVOKE'' \<subseteq> knownGrants"
proof -
  have "NormalizeGrants '' storage, INVOKE'' = Inr ''invoke,storage''" by code_simp
  then show ?thesis using issued_grants_exact [of "'' storage, INVOKE''" "''invoke,storage''"] by simp
qed

lemma pubsub_route: "requiredScope (''/v1/pubsub/'' @ rest) = ScopePubsub"
  by (simp add: requiredScope_def isPublicPath_def public_paths_def HasPrefix_def is_prefix_def)

text \<open>C39: The routes below \<^verbatim>\<open>/v1/pubsub/\<close> ask for the grant pubsub, which the documentation and
  the error message of the issuance name as valid; but it cannot be issued, and a key that can
  be issued reaches these routes only with the admin grant.\<close>

theorem pubsub_grant_not_issuable:
  "NormalizeGrants ''pubsub'' = Inl (UnknownGrant ''pubsub'') \<and>
   (NormalizeGrants req = Inr stored \<longrightarrow>
    Has (ScopesFromStored stored) (requiredScope (''/v1/pubsub/'' @ rest)) \<longrightarrow>
    IsAdmin (ScopesFromStored stored))"
proof -
  have "NormalizeGrants ''pubsub'' = Inl (UnknownGrant ''pubsub'')" by code_simp
  moreover have "ScopePubsub \<notin> knownGrants" by (simp add: knownGrants_def)
  ultimately show ?thesis unfolding pubsub_route using issued_scopes [of req stored]
    by (auto simp: Has_def IsAdmin_def)
qed

theorem pubsub_grant_not_issuable_witness:
  "NormalizeGrants ''app'' = Inr ''invoke,proxy,push,storage,webrtc'' \<and>
   \<not> Has (ScopesFromStored ''invoke,proxy,push,storage,webrtc'') (requiredScope ''/v1/pubsub/publish'')"
proof -
  have n: "NormalizeGrants ''app'' = Inr ''invoke,proxy,push,storage,webrtc''" by code_simp
  have "\<not> IsAdmin (ScopesFromStored ''invoke,proxy,push,storage,webrtc'')" by code_simp
  then show ?thesis
    using n pubsub_grant_not_issuable [of "''app''" "''invoke,proxy,push,storage,webrtc''" "''publish''"] by auto
qed

end
