(* ===== verification/Token_Bucket.thy ===== *)
theory Token_Bucket
  imports Complex_Main Orama_Prelude
begin

text \<open>
  The token buckets of the code base and what they guarantee.

  Five limiters are token buckets: \<^verbatim>\<open>bucketLimiter\<close>
  (\<^verbatim>\<open>core/pkg/ratelimit/manager.go\<close>), \<^verbatim>\<open>tokenBucket\<close> and
  \<^verbatim>\<open>TokenBucketLimiter\<close> (\<^verbatim>\<open>core/pkg/serverless/ratelimit.go\<close>), the
  per-client bucket of the gateway's \<^verbatim>\<open>RateLimiter\<close>
  (\<^verbatim>\<open>core/pkg/gateway/rate_limiter.go\<close>) and the per-identity bucket of the
  vault handlers (\<^verbatim>\<open>core/pkg/gateway/handlers/vault/rate_limiter.go\<close>).
  They share the contract of the locale \<open>token_bucket\<close>: in any stretch of time
  at most capacity plus rate times duration calls are admitted, and a call that
  waited for one token is admitted.

  A point in time is the number of nanoseconds as an \<^typ>\<open>int\<close>; \<open>float64\<close>
  amounts of tokens are exact rationals (rounding is not modelled).
\<close>

type_synonym time_ns = int

definition seconds :: "int \<Rightarrow> rat" where
  "seconds d = of_int d / 1000000000"

lemma seconds_0 [simp]: "seconds 0 = 0"
  by (simp add: seconds_def)

lemma seconds_nonneg [simp]: "0 \<le> d \<Longrightarrow> 0 \<le> seconds d"
  by (simp add: seconds_def)

lemma seconds_mono: "a \<le> b \<Longrightarrow> seconds a \<le> seconds b"
  by (simp add: seconds_def divide_right_mono)

lemma seconds_add: "seconds (a + b) = seconds a + seconds b"
  by (simp add: seconds_def add_divide_distrib)

lemma seconds_diff: "seconds (a - b) = seconds a - seconds b"
  by (simp add: seconds_def diff_divide_distrib)

lemma seconds_split: "r * seconds (b - a) + r * seconds (c - b) = r * seconds (c - a)"
  by (simp add: seconds_diff algebra_simps)

section \<open>Contract\<close>

primrec admissions :: "(time_ns \<Rightarrow> 's \<Rightarrow> bool \<times> 's) \<Rightarrow> 's \<Rightarrow> time_ns list \<Rightarrow> bool list" where
  "admissions allow s [] = []"
| "admissions allow s (now # ts) = (let (ok, s') = allow now s in ok # admissions allow s' ts)"

definition admitted :: "(time_ns \<Rightarrow> 's \<Rightarrow> bool \<times> 's) \<Rightarrow> 's \<Rightarrow> time_ns list \<Rightarrow> nat" where
  "admitted allow s ts = length (filter id (admissions allow s ts))"

lemma admitted_Nil [simp]: "admitted allow s [] = 0"
  by (simp add: admitted_def)

lemma admitted_Cons [simp]:
  "admitted allow s (now # ts) = (if fst (allow now s) then 1 else 0) + admitted allow (snd (allow now s)) ts"
  by (simp add: admitted_def split: prod.splits)

locale token_bucket =
  fixes tokens_of :: "'s \<Rightarrow> rat" and last_of :: "'s \<Rightarrow> time_ns"
    and allow :: "time_ns \<Rightarrow> 's \<Rightarrow> bool \<times> 's"
    and rate cap :: rat and inv :: "'s \<Rightarrow> bool"
  assumes allow_admits: "inv s \<Longrightarrow>
      fst (allow now s) \<longleftrightarrow> min cap (tokens_of s + seconds (now - last_of s) * rate) \<ge> 1"
    and allow_tokens: "inv s \<Longrightarrow> tokens_of (snd (allow now s))
      = min cap (tokens_of s + seconds (now - last_of s) * rate) - (if fst (allow now s) then 1 else 0)"
    and allow_last: "inv s \<Longrightarrow> last_of (snd (allow now s)) = now"
    and allow_inv: "inv s \<Longrightarrow> inv (snd (allow now s))"
begin

lemma tokens_bounded:
  assumes "inv s" "0 \<le> rate" "0 \<le> tokens_of s" "0 \<le> cap" "last_of s \<le> now"
  shows "0 \<le> tokens_of (snd (allow now s))" "tokens_of (snd (allow now s)) \<le> cap"
  using assms by (auto simp: allow_tokens allow_admits min_def)

text \<open>Over any sequence of calls the admissions are paid for by the tokens held
  at the start and the refill since then.\<close>

lemma admitted_le:
  assumes "inv s" "0 \<le> rate" "0 \<le> tokens_of s" "0 \<le> cap" "sorted (last_of s # ts)"
  shows "of_nat (admitted allow s ts) \<le> tokens_of s + rate * seconds (last (last_of s # ts) - last_of s)"
  using assms
proof (induction ts arbitrary: s)
  case (Cons now ts)
  let ?s = "snd (allow now s)" and ?ok = "if fst (allow now s) then 1 else 0 :: rat"
  have le: "last_of s \<le> now" using Cons.prems by simp
  have "of_nat (admitted allow ?s ts) \<le> tokens_of ?s + rate * seconds (last (last_of ?s # ts) - last_of ?s)"
    using Cons.prems le tokens_bounded by (intro Cons.IH) (auto simp: allow_inv allow_last)
  hence "of_nat (admitted allow s (now # ts))
      \<le> ?ok + tokens_of ?s + rate * seconds (last (now # ts) - now)"
    using Cons.prems(1) by (simp add: allow_last)
  also have "?ok + tokens_of ?s \<le> tokens_of s + rate * seconds (now - last_of s)"
    using Cons.prems(1) by (simp add: allow_tokens mult.commute)
  finally show ?case by (simp add: seconds_diff algebra_simps)
qed simp

lemma rate_bound:
  assumes "inv s" "0 \<le> rate" "0 \<le> tokens_of s" "tokens_of s \<le> cap" "sorted (last_of s # ts)"
  shows "of_nat (admitted allow s ts) \<le> cap + rate * seconds (last (last_of s # ts) - last_of s)"
  using admitted_le [of s ts] assms by linarith

text \<open>A caller that waited for one token is admitted.\<close>

lemma waiting_suffices:
  assumes "inv s" "1 \<le> cap" "0 \<le> tokens_of s" "1 \<le> seconds (now - last_of s) * rate"
  shows "fst (allow now s)"
  using assms by (simp add: allow_admits)

lemma burst_admitted:
  assumes "inv s" "0 \<le> rate" "of_nat (length ts) \<le> tokens_of s" "tokens_of s \<le> cap"
    "sorted (last_of s # ts)"
  shows "list_all id (admissions allow s ts)"
  using assms
proof (induction ts arbitrary: s)
  case (Cons now ts)
  let ?l = "min cap (tokens_of s + seconds (now - last_of s) * rate)"
  have "0 \<le> seconds (now - last_of s) * rate" using Cons.prems by simp
  moreover have "of_nat (Suc (length ts)) \<le> tokens_of s" "tokens_of s \<le> cap" using Cons.prems by simp_all
  ultimately have l: "of_nat (Suc (length ts)) \<le> ?l" by linarith
  hence ok: "fst (allow now s)" using Cons.prems(1) by (simp add: allow_admits)
  have "tokens_of (snd (allow now s)) = ?l - 1" using ok Cons.prems(1) by (simp add: allow_tokens)
  hence "of_nat (length ts) \<le> tokens_of (snd (allow now s))" "tokens_of (snd (allow now s)) \<le> cap"
    using l by linarith+
  hence "list_all id (admissions allow (snd (allow now s)) ts)"
    using Cons.prems by (intro Cons.IH) (simp_all add: allow_inv allow_last)
  thus ?case using ok by (simp add: case_prod_beta id_def)
qed simp

end

section \<open>The buckets\<close>

subsection \<open>ratelimit/manager.go\<close>

record bucketLimiter =
  bl_rate :: rat
  bl_burst :: rat
  bl_tokens :: rat
  bl_lastCheck :: time_ns

definition newBucketLimiter :: "int \<Rightarrow> int \<Rightarrow> time_ns \<Rightarrow> bucketLimiter" where
  "newBucketLimiter ratePerMinute burst now =
     \<lparr>bl_rate = of_int ratePerMinute / 60, bl_burst = of_int burst, bl_tokens = of_int burst,
      bl_lastCheck = now\<rparr>"

definition bucketLimiter_allow :: "time_ns \<Rightarrow> bucketLimiter \<Rightarrow> bool \<times> bucketLimiter" where
  "bucketLimiter_allow now b =
     (let elapsed = seconds (now - bl_lastCheck b);
          t = bl_tokens b + elapsed * bl_rate b;
          t' = (if t > bl_burst b then bl_burst b else t);
          b' = b\<lparr>bl_tokens := t', bl_lastCheck := now\<rparr>
      in if t' \<ge> 1 then (True, b'\<lparr>bl_tokens := t' - 1\<rparr>) else (False, b'))"

interpretation bucketLimiter: token_bucket bl_tokens bl_lastCheck bucketLimiter_allow r c
    "\<lambda>b. bl_rate b = r \<and> bl_burst b = c" for r c
  by unfold_locales (auto simp: bucketLimiter_allow_def Let_def)

subsection \<open>serverless/ratelimit.go\<close>

record tokenBucket =
  tb_tokens :: rat
  tb_max :: rat
  tb_refill :: rat
  tb_lastRefill :: time_ns

record decision =
  Allowed :: bool
  RetryAfter :: int
  Scope :: string

definition tokenBucket_tryConsume :: "time_ns \<Rightarrow> tokenBucket \<Rightarrow> decision \<times> tokenBucket" where
  "tokenBucket_tryConsume now b =
     (let elapsed = seconds (now - tb_lastRefill b);
          t = tb_tokens b + elapsed * tb_refill b;
          t' = (if t > tb_max b then tb_max b else t);
          b' = b\<lparr>tb_lastRefill := now, tb_tokens := t'\<rparr>
      in if t' < 1
         then let needed = 1 - t'; secs = needed / tb_refill b
              in (\<lparr>Allowed = False, RetryAfter = \<lfloor>secs * 1000000000\<rfloor>, Scope = ''''\<rparr>, b')
         else (\<lparr>Allowed = True, RetryAfter = 0, Scope = ''''\<rparr>, b'\<lparr>tb_tokens := t' - 1\<rparr>))"

definition tokenBucket_allow :: "time_ns \<Rightarrow> tokenBucket \<Rightarrow> bool \<times> tokenBucket" where
  "tokenBucket_allow now b = map_prod Allowed id (tokenBucket_tryConsume now b)"

interpretation tokenBucket: token_bucket tb_tokens tb_lastRefill tokenBucket_allow r c
    "\<lambda>b. tb_refill b = r \<and> tb_max b = c" for r c
  by unfold_locales (auto simp: tokenBucket_allow_def tokenBucket_tryConsume_def Let_def)

record TokenBucketLimiter =
  tl_tokens :: rat
  tl_max :: rat
  tl_refill :: rat
  tl_lastTime :: time_ns

definition NewTokenBucketLimiter :: "int \<Rightarrow> time_ns \<Rightarrow> TokenBucketLimiter" where
  "NewTokenBucketLimiter perMinute now =
     (let perSecond = of_int perMinute / 60
      in \<lparr>tl_tokens = of_int perMinute, tl_max = of_int perMinute, tl_refill = perSecond, tl_lastTime = now\<rparr>)"

definition TokenBucketLimiter_Allow :: "time_ns \<Rightarrow> TokenBucketLimiter \<Rightarrow> bool \<times> TokenBucketLimiter" where
  "TokenBucketLimiter_Allow now t =
     (let elapsed = seconds (now - tl_lastTime t);
          n = tl_tokens t + elapsed * tl_refill t;
          n' = (if n > tl_max t then tl_max t else n);
          t' = t\<lparr>tl_lastTime := now, tl_tokens := n'\<rparr>
      in if n' < 1 then (False, t') else (True, t'\<lparr>tl_tokens := n' - 1\<rparr>))"

interpretation TokenBucketLimiter: token_bucket tl_tokens tl_lastTime TokenBucketLimiter_Allow r c
    "\<lambda>t. tl_refill t = r \<and> tl_max t = c" for r c
  by unfold_locales (auto simp: TokenBucketLimiter_Allow_def Let_def)

subsection \<open>gateway/rate_limiter.go and handlers/vault/rate_limiter.go\<close>

text \<open>Both refill a bucket of tokens and time with the limiter's rate and burst,
  then take one token if there is one.\<close>

record rl_bucket =
  rb_tokens :: rat
  rb_lastCheck :: time_ns

definition refill_and_take :: "rat \<Rightarrow> int \<Rightarrow> time_ns \<Rightarrow> rl_bucket \<Rightarrow> bool \<times> rl_bucket" where
  "refill_and_take rate burst now b =
     (let elapsed = seconds (now - rb_lastCheck b);
          t = rb_tokens b + elapsed * rate;
          t' = (if t > of_int burst then of_int burst else t);
          b' = b\<lparr>rb_tokens := t', rb_lastCheck := now\<rparr>
      in if t' \<ge> 1 then (True, b'\<lparr>rb_tokens := t' - 1\<rparr>) else (False, b'))"

interpretation client_bucket: token_bucket rb_tokens rb_lastCheck "refill_and_take r c" r "of_int c"
    "\<lambda>b. True" for r c
  by unfold_locales (auto simp: refill_and_take_def Let_def)

section \<open>Properties\<close>

text \<open>The namespace limiter of the gateway: over any sequence of calls after
  its construction at most burst plus rate times elapsed time are admitted.\<close>

lemma bucketLimiter_rate_bound:
  assumes "0 \<le> ratePerMinute" "0 \<le> burst" "sorted (t0 # ts)"
  shows "of_nat (admitted bucketLimiter_allow (newBucketLimiter ratePerMinute burst t0) ts)
    \<le> of_int burst + of_int ratePerMinute / 60 * seconds (last (t0 # ts) - t0)"
  using bucketLimiter.rate_bound [of "newBucketLimiter ratePerMinute burst t0" "of_int ratePerMinute / 60"
      "of_int burst" ts] assms
  by (simp add: newBucketLimiter_def)

lemma bucketLimiter_rate_bound_example:
  "of_nat (admitted bucketLimiter_allow (newBucketLimiter 60 2 0) [0, 0, 0, 1000000000])
    \<le> of_int 2 + of_int 60 / 60 * seconds (last [0, 0, 0, 0, 1000000000] - 0)"
  using bucketLimiter_rate_bound [of 60 2 0 "[0, 0, 0, 1000000000]"] by simp

text \<open>A function limiter that rejects a call with \<^verbatim>\<open>RetryAfter = d\<close> admits
  the next call once more than \<open>d\<close> nanoseconds have passed, if no other call
  came in between; the extra nanosecond is lost to truncation.  This is a fact
  about exact numbers: with \<^verbatim>\<open>float64\<close> tokens rounding can leave the bucket a
  little short of one token at that moment.\<close>

lemma tokenBucket_retry_after_suffices:
  assumes "0 < tb_refill b" "1 \<le> tb_max b"
    and "tokenBucket_tryConsume now b = (d, b')" "\<not> Allowed d" "now + RetryAfter d < later"
  shows "Allowed (fst (tokenBucket_tryConsume later b'))"
proof -
  let ?t = "min (tb_max b) (tb_tokens b + seconds (now - tb_lastRefill b) * tb_refill b)"
  have b': "b' = b\<lparr>tb_lastRefill := now, tb_tokens := ?t\<rparr>" and lt: "?t < 1"
    and d: "RetryAfter d = \<lfloor>(1 - ?t) / tb_refill b * 1000000000\<rfloor>"
    using assms(3,4) by (auto simp: tokenBucket_tryConsume_def Let_def min_def split: if_splits)
  have "\<lfloor>(1 - ?t) / tb_refill b * 1000000000\<rfloor> < later - now" using assms(5) d by linarith
  hence "(1 - ?t) / tb_refill b * 1000000000 \<le> of_int (later - now)" by (simp add: floor_less_iff)
  hence "(1 - ?t) / tb_refill b \<le> seconds (later - now)" by (simp add: seconds_def field_simps)
  hence "1 - ?t \<le> seconds (later - now) * tb_refill b" using assms(1) by (simp add: pos_divide_le_eq)
  thus ?thesis
    using assms(2) by (auto simp: b' tokenBucket_tryConsume_def Let_def)
qed

lemma tokenBucket_retry_after_suffices_example:
  "Allowed (fst (tokenBucket_tryConsume 100000001
     \<lparr>tb_tokens = 0, tb_max = 1, tb_refill = 10, tb_lastRefill = 0\<rparr>))"
  by (rule tokenBucket_retry_after_suffices [where now = 0 and d = "\<lparr>Allowed = False, RetryAfter = 100000000, Scope = []\<rparr>"
        and b = "\<lparr>tb_tokens = 0, tb_max = 1, tb_refill = 10, tb_lastRefill = 0\<rparr>"])
    (simp_all add: tokenBucket_tryConsume_def)

end
