(* ===== verification/Base64_Std.thy ===== *)
theory Base64_Std
  imports Orama_Prelude
begin

text \<open>
  \<^verbatim>\<open>base64.StdEncoding\<close> of Go's standard library, as the handlers use it:
  \<^verbatim>\<open>EncodeToString\<close> with padding, and \<^verbatim>\<open>DecodeString\<close>, which skips
  carriage returns and line feeds, requires the padding, and ignores the unused
  low bits of the last digit.
\<close>

definition base64_alphabet :: string where
  "base64_alphabet = ''ABCDEFGHIJKLMNOPQRSTUVWXYZabcdefghijklmnopqrstuvwxyz0123456789+/''"

definition digit_char :: "nat \<Rightarrow> char" where
  "digit_char d = base64_alphabet ! d"

fun index_of :: "'a \<Rightarrow> 'a list \<Rightarrow> nat option" where
  "index_of x [] = None"
| "index_of x (y # ys) = (if x = y then Some 0 else map_option Suc (index_of x ys))"

definition char_digit :: "char \<Rightarrow> nat option" where
  "char_digit c = index_of c base64_alphabet"

fun EncodeToString :: "byte list \<Rightarrow> string" where
  "EncodeToString [] = []"
| "EncodeToString [a] =
     (let v = unat a * 16 in [digit_char (v div 64), digit_char (v mod 64), CHR ''='', CHR ''=''])"
| "EncodeToString [a, b] =
     (let v = (unat a * 256 + unat b) * 4
      in [digit_char (v div 4096), digit_char (v div 64 mod 64), digit_char (v mod 64), CHR ''=''])"
| "EncodeToString (a # b # c # rest) =
     (let v = (unat a * 256 + unat b) * 256 + unat c
      in digit_char (v div 262144) # digit_char (v div 4096 mod 64) # digit_char (v div 64 mod 64)
         # digit_char (v mod 64) # EncodeToString rest)"

fun decode_quads :: "string \<Rightarrow> byte list option" where
  "decode_quads [] = Some []"
| "decode_quads (p # q # r # s # rest) =
     (case (char_digit p, char_digit q) of
        (Some i, Some j) \<Rightarrow>
          (case char_digit r of
             None \<Rightarrow> if r = CHR ''='' \<and> s = CHR ''='' \<and> rest = []
                      then Some [word_of_nat ((i * 64 + j) div 16)] else None
           | Some k \<Rightarrow>
               (case char_digit s of
                  None \<Rightarrow> if s = CHR ''='' \<and> rest = []
                           then (let v = (i * 64 + j) * 64 + k in Some [word_of_nat (v div 1024), word_of_nat (v div 4 mod 256)])
                           else None
                | Some l \<Rightarrow>
                    (let v = ((i * 64 + j) * 64 + k) * 64 + l
                     in map_option (\<lambda>bs. word_of_nat (v div 65536) # word_of_nat (v div 256 mod 256) # word_of_nat (v mod 256) # bs)
                          (decode_quads rest))))
      | _ \<Rightarrow> None)"
| "decode_quads _ = None"

definition DecodeString :: "string \<Rightarrow> byte list option" where
  "DecodeString s = decode_quads (filter (\<lambda>c. c \<noteq> CHR 0x0A \<and> c \<noteq> CHR 0x0D) s)"

lemma index_of_nth: "distinct ys \<Longrightarrow> i < length ys \<Longrightarrow> index_of (ys ! i) ys = Some i"
  by (induction ys arbitrary: i) (auto simp: nth_Cons split: nat.splits)

lemma alphabet_facts:
  "distinct base64_alphabet" "length base64_alphabet = 64" "CHR ''='' \<notin> set base64_alphabet"
  "CHR 0x0A \<notin> set base64_alphabet" "CHR 0x0D \<notin> set base64_alphabet"
  by code_simp+

lemma char_digit_char [simp]: "d < 64 \<Longrightarrow> char_digit (digit_char d) = Some d"
  by (simp add: char_digit_def digit_char_def index_of_nth alphabet_facts)

lemma digit_char_in: "d < 64 \<Longrightarrow> digit_char d \<in> set base64_alphabet"
  by (simp add: digit_char_def alphabet_facts)

lemma digit_char_neq [simp]:
  "d < 64 \<Longrightarrow> digit_char d \<noteq> CHR ''=''" "d < 64 \<Longrightarrow> digit_char d \<noteq> CHR 0x0A" "d < 64 \<Longrightarrow> digit_char d \<noteq> CHR 0x0D"
  using digit_char_in [of d] alphabet_facts by metis+

lemma char_digit_pad [simp]: "char_digit CHR ''='' = None"
  by code_simp

lemma sextets:
  assumes "v < 16777216"
  shows "((v div 262144 * 64 + v div 4096 mod 64) * 64 + v div 64 mod 64) * 64 + v mod 64 = (v :: nat)"
    "v div 262144 < 64"
proof -
  have "v div 262144 = v div 4096 div 64" "v div 4096 = v div 64 div 64"
    by (simp_all add: div_mult2_eq [symmetric])
  thus "((v div 262144 * 64 + v div 4096 mod 64) * 64 + v div 64 mod 64) * 64 + v mod 64 = v"
    by (simp only: div_mult_mod_eq)
  show "v div 262144 < 64" using assms by (intro less_mult_imp_div_less) simp
qed

lemma two_bytes_less: "x < 256 \<Longrightarrow> y < 256 \<Longrightarrow> x * 256 + y < (65536 :: nat)"
  by linarith

lemma two_bytes_bound: "x < 256 \<Longrightarrow> y < 256 \<Longrightarrow> (x * 256 + y) * 4 < (262144 :: nat)"
  using mult_strict_right_mono [OF two_bytes_less [of x y], of 4] by simp

lemma three_bytes_bound:
  assumes "x < 256" "y < 256" "z < 256"
  shows "(x * 256 + y) * 256 + z < (16777216 :: nat)"
proof -
  have "w * 256 + z < 16777216" if "w < 65536" for w using that assms(3) by linarith
  thus ?thesis using two_bytes_less [OF assms(1,2)] by blast
qed

lemma word_of_nat_unat_byte [simp]: "word_of_nat (unat (a :: byte)) = a"
  by simp

lemma decode_quads_Encode: "decode_quads (EncodeToString bs) = Some bs"
proof (induction bs rule: EncodeToString.induct)
  case (2 a)
  have "unat a * 16 div 64 < 64" using unat_byte_less [of a] by linarith
  moreover have "(unat a * 16 div 64 * 64 + unat a * 16 mod 64) div 16 = unat a"
    by (simp only: div_mult_mod_eq)
  ultimately show ?case by (simp add: Let_def)
next
  case (3 a b)
  define v where "v = (unat a * 256 + unat b) * 4"
  have b: "v < 262144" unfolding v_def by (rule two_bytes_bound) simp_all
  have d: "v div 4096 = v div 64 div 64" by (simp add: div_mult2_eq [symmetric])
  have "(v div 4096 * 64 + v div 64 mod 64) * 64 + v mod 64 = v"
    unfolding d by (simp only: div_mult_mod_eq)
  moreover have "v div 1024 = unat a" "v div 4 mod 256 = unat b"
    using unat_byte_less [of b] by (simp_all add: v_def)
  moreover have "v div 4096 < 64" using b by (intro less_mult_imp_div_less) simp
  ultimately show ?case unfolding EncodeToString.simps Let_def v_def [symmetric] by (simp add: Let_def)
next
  case (4 a b c rest)
  define v where "v = (unat a * 256 + unat b) * 256 + unat c"
  have b: "v < 16777216" unfolding v_def by (rule three_bytes_bound) simp_all
  have "v div 65536 = v div 256 div 256" by (simp add: div_mult2_eq [symmetric])
  moreover have "v div 256 = unat a * 256 + unat b" "v mod 256 = unat c"
    unfolding v_def by (simp_all only: div_mult_self3 mod_mult_self3 unat_byte_less) simp_all
  ultimately have "v div 65536 = unat a" "v div 256 mod 256 = unat b" "v mod 256 = unat c"
    using unat_byte_less [of b] by simp_all
  thus ?case using 4 sextets [OF b] unfolding EncodeToString.simps Let_def v_def [symmetric] by (simp add: Let_def)
qed simp

lemma Encode_no_newline:
  "filter (\<lambda>c. c \<noteq> CHR 0x0A \<and> c \<noteq> CHR 0x0D) (EncodeToString bs) = EncodeToString bs"
proof (induction bs rule: EncodeToString.induct)
  case (2 a)
  have "unat a * 16 div 64 < 64" using unat_byte_less [of a] by linarith
  thus ?case by (simp add: Let_def)
next
  case (3 a b)
  have "(unat a * 256 + unat b) * 4 div 4096 < 64"
    using two_bytes_bound [OF unat_byte_less unat_byte_less, of a b] by (intro less_mult_imp_div_less) simp
  thus ?case by (simp add: Let_def)
next
  case (4 a b c rest)
  have "((unat a * 256 + unat b) * 256 + unat c) div 262144 < 64"
    using three_bytes_bound [OF unat_byte_less unat_byte_less unat_byte_less, of a b c]
    by (intro less_mult_imp_div_less) simp
  thus ?case using 4 by (simp add: Let_def)
qed simp

lemma Decode_Encode [simp]: "DecodeString (EncodeToString bs) = Some bs"
  by (simp add: DecodeString_def Encode_no_newline decode_quads_Encode)

end
