(* ===== verification/Gateway_Auth.thy ===== *)
theory Gateway_Auth
  imports Access_Scopes Token_Bucket Base64_Std
begin

text \<open>
  The authentication, ownership and grant checks of the gateway
  (\<^verbatim>\<open>core/pkg/gateway/middleware.go\<close>, \<^verbatim>\<open>core/pkg/gateway/scope_policy.go\<close>,
  \<^verbatim>\<open>core/pkg/gateway/middleware_cache.go\<close>), the exchange of a key for a token
  (\<^verbatim>\<open>core/pkg/gateway/handlers/auth/jwt_handler.go\<close>), and the headers with which the
  main gateway passes an identity on to the gateway of a namespace.

  A middleware maps a request and its context to \<open>Pass\<close>, the call of the next
  handler, or to \<open>Reject\<close> with a status.  The verification of tokens, the
  keyed hash of API keys and the JSON encoding of the custom claims, a list of
  names and values, are arguments, and so is whether a query of the database is
  answered.
\<close>

section \<open>Requests in context\<close>

record JWTClaims =
  cl_Iss :: string
  cl_Sub :: string
  cl_Aud :: string
  cl_Iat :: int
  cl_Nbf :: int
  cl_Exp :: int
  cl_Namespace :: string
  cl_Custom :: "(string \<times> string) list"

record auth_ctx =
  cx_JWT :: "JWTClaims option"
  cx_APIKey :: "string option"
  cx_Namespace :: "string option"
  cx_Scopes :: "ScopeSet option"
  cx_OwnerConfirmed :: bool

definition empty_ctx :: auth_ctx where
  "empty_ctx = \<lparr>cx_JWT = None, cx_APIKey = None, cx_Namespace = None, cx_Scopes = None, cx_OwnerConfirmed = False\<rparr>"

datatype verdict = Pass http_request auth_ctx | Reject int

fun and_then :: "verdict \<Rightarrow> (http_request \<Rightarrow> auth_ctx \<Rightarrow> verdict) \<Rightarrow> verdict" where
  "and_then (Pass r cx) f = f r cx"
| "and_then (Reject status) f = Reject status"

section \<open>API keys\<close>

record api_key_row =
  ak_id :: int
  ak_key :: string
  ak_namespace :: string
  ak_scopes :: "string option"
  ak_revoked :: bool

text \<open>The row a lookup of a stored key value gives: the first that is not revoked, with the
  name of its namespace and its scopes, the empty string for NULL.\<close>

definition query_key :: "(string \<Rightarrow> bool) \<Rightarrow> api_key_row list \<Rightarrow> string \<Rightarrow> (string \<times> string) option" where
  "query_key answered rows k =
     (if \<not> answered k then None
      else case find (\<lambda>row. ak_key row = k \<and> \<not> ak_revoked row) rows of
        None \<Rightarrow> None
      | Some row \<Rightarrow>
          if ak_namespace row = [] then None
          else Some (ak_namespace row, case ak_scopes row of None \<Rightarrow> [] | Some s \<Rightarrow> s))"

record cachedValue =
  cv_value :: string
  cv_scopes :: string
  cv_expiresAt :: time_ns

record gatewayTarget =
  gt_ip :: string
  gt_port :: int

record cachedGatewayTargets =
  ct_targets :: "gatewayTarget list"
  ct_expiresAt :: time_ns

record middlewareCache =
  mc_apiKeyNS :: "string \<Rightarrow> cachedValue option"
  mc_nsTargets :: "string \<Rightarrow> cachedGatewayTargets option"
  mc_ttl :: int

definition newMiddlewareCache :: "int \<Rightarrow> middlewareCache" where
  "newMiddlewareCache ttl = \<lparr>mc_apiKeyNS = Map.empty, mc_nsTargets = Map.empty, mc_ttl = ttl\<rparr>"

definition GetNamespaceTargets :: "time_ns \<Rightarrow> string \<Rightarrow> middlewareCache \<Rightarrow> gatewayTarget list option" where
  "GetNamespaceTargets now namespace mc =
     (case mc_nsTargets mc namespace of
        None \<Rightarrow> None
      | Some entry \<Rightarrow> if ct_expiresAt entry < now then None else Some (ct_targets entry))"

definition SetNamespaceTargets :: "time_ns \<Rightarrow> string \<Rightarrow> gatewayTarget list \<Rightarrow> middlewareCache \<Rightarrow> middlewareCache" where
  "SetNamespaceTargets now namespace targets mc =
     mc\<lparr>mc_nsTargets := (mc_nsTargets mc)(namespace \<mapsto> \<lparr>ct_targets = targets, ct_expiresAt = now + mc_ttl mc\<rparr>)\<rparr>"

definition GetAPIKeyEntry :: "time_ns \<Rightarrow> string \<Rightarrow> middlewareCache \<Rightarrow> (string \<times> string) option" where
  "GetAPIKeyEntry now apiKey mc =
     (case mc_apiKeyNS mc apiKey of
        None \<Rightarrow> None
      | Some entry \<Rightarrow> if cv_expiresAt entry < now then None else Some (cv_value entry, cv_scopes entry))"

definition SetAPIKeyEntry :: "time_ns \<Rightarrow> string \<Rightarrow> string \<Rightarrow> string \<Rightarrow> middlewareCache \<Rightarrow> middlewareCache" where
  "SetAPIKeyEntry now apiKey namespace scopes mc =
     mc\<lparr>mc_apiKeyNS := (mc_apiKeyNS mc)(apiKey \<mapsto>
       \<lparr>cv_value = namespace, cv_scopes = scopes, cv_expiresAt = now + mc_ttl mc\<rparr>)\<rparr>"

definition cache_cleanup :: "time_ns \<Rightarrow> middlewareCache \<Rightarrow> middlewareCache" where
  "cache_cleanup now mc =
     mc\<lparr>mc_apiKeyNS := (\<lambda>k. case mc_apiKeyNS mc k of
          None \<Rightarrow> None
        | Some v \<Rightarrow> if cv_expiresAt v < now then None else Some v),
        mc_nsTargets := (\<lambda>k. case mc_nsTargets mc k of
          None \<Rightarrow> None
        | Some v \<Rightarrow> if ct_expiresAt v < now then None else Some v)\<rparr>"

text \<open>\<open>asked\<close> is the time at which the cache is read and \<open>stored\<close> that at which it is written.  A
  gateway without a cache behaves as with one that never holds the key.  The lookup is one step:
  what other requests do to the cache between the read and the write is not modelled.\<close>

definition lookupAPIKeyEntry :: "time_ns \<Rightarrow> time_ns \<Rightarrow> (string \<Rightarrow> string) \<Rightarrow> (string \<Rightarrow> bool) \<Rightarrow> api_key_row list
    \<Rightarrow> string \<Rightarrow> middlewareCache \<Rightarrow> (string \<times> string) option \<times> middlewareCache" where
  "lookupAPIKeyEntry asked stored hash answered rows key mc =
     (case GetAPIKeyEntry asked key mc of
        Some e \<Rightarrow> (Some e, mc)
      | None \<Rightarrow>
          (case query_key answered rows (hash key) of
             Some (ns, scopes) \<Rightarrow> (Some (ns, scopes), SetAPIKeyEntry stored key ns scopes mc)
           | None \<Rightarrow>
               if hash key \<noteq> key then
                 (case query_key answered rows key of
                    Some (ns, scopes) \<Rightarrow> (Some (ns, scopes), SetAPIKeyEntry stored key ns scopes mc)
                  | None \<Rightarrow> (None, mc))
               else (None, mc)))"

section \<open>The headers of the internal hop\<close>

abbreviation HeaderInternalAuthNamespace :: string where "HeaderInternalAuthNamespace \<equiv> ''X-Internal-Auth-Namespace''"
abbreviation HeaderInternalAuthValidated :: string where "HeaderInternalAuthValidated \<equiv> ''X-Internal-Auth-Validated''"
abbreviation HeaderInternalAuthJWTSub :: string where "HeaderInternalAuthJWTSub \<equiv> ''X-Internal-Auth-JWT-Sub''"
abbreviation HeaderInternalAuthJWTCustom :: string where "HeaderInternalAuthJWTCustom \<equiv> ''X-Internal-Auth-JWT-Custom''"
abbreviation HeaderInternalAuthScopes :: string where "HeaderInternalAuthScopes \<equiv> ''X-Internal-Auth-Scopes''"

definition setInternalAuthJWTHeaders :: "((string \<times> string) list \<Rightarrow> byte list option) \<Rightarrow> JWTClaims option \<Rightarrow> headers \<Rightarrow> headers" where
  "setInternalAuthJWTHeaders marshal claims h =
     (case claims of
        None \<Rightarrow> h
      | Some c \<Rightarrow>
          (let sub = TrimSpace (cl_Sub c);
               h1 = (if sub \<noteq> [] then h(HeaderInternalAuthJWTSub := sub) else h)
           in if cl_Custom c = [] then h1
              else case marshal (cl_Custom c) of
                None \<Rightarrow> h1
              | Some buf \<Rightarrow> h1(HeaderInternalAuthJWTCustom := EncodeToString buf)))"

definition stripInboundInternalAuthHeaders :: "headers \<Rightarrow> headers" where
  "stripInboundInternalAuthHeaders h =
     h(HeaderInternalAuthValidated := [], HeaderInternalAuthNamespace := [], HeaderInternalAuthJWTSub := [],
       HeaderInternalAuthJWTCustom := [], HeaderInternalAuthScopes := [])"

definition claimsFromInternalAuthHeaders :: "(byte list \<Rightarrow> (string \<times> string) list option) \<Rightarrow> headers \<Rightarrow> string \<Rightarrow> JWTClaims option" where
  "claimsFromInternalAuthHeaders unmarshal h namespace =
     (let sub = TrimSpace (h HeaderInternalAuthJWTSub); raw = TrimSpace (h HeaderInternalAuthJWTCustom) in
      if sub = [] then None
      else Some \<lparr>cl_Iss = [], cl_Sub = sub, cl_Aud = [], cl_Iat = 0, cl_Nbf = 0, cl_Exp = 0, cl_Namespace = namespace,
        cl_Custom = (if raw = [] then []
          else case DecodeString raw of
            None \<Rightarrow> []
          | Some decoded \<Rightarrow> (case unmarshal decoded of None \<Rightarrow> [] | Some custom \<Rightarrow> custom))\<rparr>)"

text \<open>What the main gateway knows of a request it proxies to the gateway of a namespace, and the
  internal headers it sends; the branch for WebSocket upgrades sets the same headers.\<close>

definition hop_headers :: "((string \<times> string) list \<Rightarrow> byte list option) \<Rightarrow> string \<Rightarrow> JWTClaims option \<Rightarrow> string \<Rightarrow> headers \<Rightarrow> headers" where
  "hop_headers marshal validatedNamespace validatedClaims validatedScopes h =
     (let h0 = stripInboundInternalAuthHeaders h in
      if validatedNamespace = [] then h0
      else let h1 = setInternalAuthJWTHeaders marshal validatedClaims
                      (h0(HeaderInternalAuthValidated := ''true'', HeaderInternalAuthNamespace := validatedNamespace))
        in if validatedScopes = [] then h1 else h1(HeaderInternalAuthScopes := validatedScopes))"


section \<open>The middlewares\<close>

record auth_db =
  db_namespaces :: "string list"
  db_ownership :: "(string \<times> string \<times> string) list"

text \<open>What the middlewares of a gateway are given: the verifier of tokens, the JSON decoder, the
  hash of keys, the rows of the keys, the clock, the namespace of the gateway, and which
  statements the database answers.\<close>

record auth_env =
  en_verify :: "string \<Rightarrow> JWTClaims option"
  en_unmarshal :: "byte list \<Rightarrow> (string \<times> string) list option"
  en_hash :: "string \<Rightarrow> string"
  en_rows :: "api_key_row list"
  en_answered :: "string \<Rightarrow> bool"
  en_asked :: time_ns
  en_stored :: time_ns
  en_ClientNamespace :: string
  en_insert_ok :: bool
  en_select_ok :: bool
  en_owner_ok :: "string \<Rightarrow> string \<Rightarrow> bool"

definition trusted_peer :: "http_request \<Rightarrow> bool" where
  "trusted_peer r \<longleftrightarrow> rq_Header r HeaderInternalAuthValidated = ''true'' \<and> isInternalIP (remoteAddrIP r)"

definition internal_ctx :: "(byte list \<Rightarrow> (string \<times> string) list option) \<Rightarrow> headers \<Rightarrow> string \<Rightarrow> auth_ctx \<Rightarrow> auth_ctx" where
  "internal_ctx unmarshal h ns cx =
     (let cx1 = cx\<lparr>cx_Namespace := Some ns\<rparr>;
          cx2 = (case claimsFromInternalAuthHeaders unmarshal h ns of
                   None \<Rightarrow> cx1 | Some claims \<Rightarrow> cx1\<lparr>cx_JWT := Some claims\<rparr>);
          raw = TrimSpace (h HeaderInternalAuthScopes)
      in if raw \<noteq> [] then cx2\<lparr>cx_Scopes := Some (ParseScopes raw)\<rparr> else cx2)"

definition claims_ctx :: "JWTClaims \<Rightarrow> auth_ctx \<Rightarrow> auth_ctx" where
  "claims_ctx claims cx =
     (let ns = TrimSpace (cl_Namespace claims); cx1 = cx\<lparr>cx_JWT := Some claims\<rparr>
      in if ns \<noteq> [] then cx1\<lparr>cx_Namespace := Some ns\<rparr> else cx1)"

definition authMiddleware :: "auth_env \<Rightarrow> middlewareCache \<Rightarrow> http_request \<Rightarrow> auth_ctx \<Rightarrow> verdict \<times> middlewareCache" where
  "authMiddleware e mc r cx =
     (if rq_Method r = ''OPTIONS'' then (Pass r cx, mc)
      else let isPublic = isPublicPath (rq_Path r); ns = TrimSpace (rq_Header r HeaderInternalAuthNamespace) in
        if trusted_peer r \<and> ns \<noteq> [] then (Pass r (internal_ctx (en_unmarshal e) (rq_Header r) ns cx), mc)
        else case Option.bind (bearer_jwt r) (en_verify e) of
          Some claims \<Rightarrow> (Pass r (claims_ctx claims cx), mc)
        | None \<Rightarrow>
            (case Option.bind (query_jwt r) (en_verify e) of
               Some claims \<Rightarrow> (Pass (stripJWTQueryParam r) (claims_ctx claims cx), mc)
             | None \<Rightarrow>
                 (let key = extractAPIKey r in
                  if key = [] then (if isPublic then Pass r cx else Reject 401, mc)
                  else case lookupAPIKeyEntry (en_asked e) (en_stored e) (en_hash e) (en_answered e) (en_rows e) key mc of
                    (None, mc') \<Rightarrow> (if isPublic then Pass r cx else Reject 401, mc')
                  | (Some (ns, rawScopes), mc') \<Rightarrow>
                      (Pass r (cx\<lparr>cx_APIKey := Some key, cx_Namespace := Some ns,
                                  cx_Scopes := Some (ScopesFromStored rawScopes)\<rparr>), mc'))))"

definition apiKeyOwnerCandidates :: "string \<Rightarrow> string \<Rightarrow> string \<Rightarrow> string list" where
  "apiKeyOwnerCandidates ownerType ownerID hashed =
     (if ownerType = ''api_key'' \<and> hashed \<noteq> [] \<and> hashed \<noteq> ownerID then [hashed, ownerID] else [ownerID])"

definition ownsBy :: "auth_env \<Rightarrow> auth_db \<Rightarrow> string \<Rightarrow> string \<Rightarrow> string \<Rightarrow> bool" where
  "ownsBy e db ns ot oid =
     (let hashed = (if ot = ''api_key'' then en_hash e oid else [])
      in \<exists>c \<in> set (apiKeyOwnerCandidates ot oid hashed). en_owner_ok e ot c \<and> (ns, ot, c) \<in> set (db_ownership db))"

text \<open>The owner's type and id, and the API key of the context beside a wallet; an empty id for no
  identity.\<close>

definition identify_actor :: "auth_ctx \<Rightarrow> string \<times> string \<times> string" where
  "identify_actor cx =
     (let key = (case cx_APIKey cx of None \<Rightarrow> [] | Some k \<Rightarrow> TrimSpace k);
          subj = (case cx_JWT cx of None \<Rightarrow> [] | Some claims \<Rightarrow> TrimSpace (cl_Sub claims))
      in if subj \<noteq> [] then
           (if HasPrefix (ToLower subj) ''ak_'' \<or> contains_str subj '':'' then (''api_key'', subj, [])
            else (''wallet'', subj, key))
         else if key \<noteq> [] then (''api_key'', key, []) else ([], [], []))"

definition authorizationMiddleware :: "auth_env \<Rightarrow> auth_db \<Rightarrow> http_request \<Rightarrow> auth_ctx \<Rightarrow> verdict \<times> auth_db" where
  "authorizationMiddleware e db r cx =
     (let path = rq_Path r;
          gatewayNamespace = (if en_ClientNamespace e \<noteq> [] then TrimSpace (en_ClientNamespace e) else ''default'');
          userNamespace = (case cx_Namespace cx of None \<Rightarrow> [] | Some s \<Rightarrow> TrimSpace s);
          ns = (if userNamespace = [] then TrimSpace (en_ClientNamespace e) else userNamespace);
          (ownerType, ownerID, apiKeyFallback) = identify_actor cx
      in if rq_Method r = ''OPTIONS'' \<or> isPublicPath path then (Pass r cx, db)
         else if path = ''/v1/auth/whoami'' then (Pass r cx, db)
         else if HasPrefix path ''/v1/namespace/status'' then (Pass r cx, db)
         else if trusted_peer r then (Pass r cx, db)
         else if gatewayNamespace \<noteq> ''default'' \<and> userNamespace \<noteq> [] \<and> userNamespace \<noteq> gatewayNamespace then (Reject 403, db)
         else if \<not> requiresNamespaceOwnership path then (Pass r cx, db)
         else if ns = [] then (Reject 403, db)
         else if ownerType = [] \<or> ownerID = [] then (Reject 403, db)
         else if \<not> en_insert_ok e then (Reject 500, db)
         else let db' = db\<lparr>db_namespaces := List.insert ns (db_namespaces db)\<rparr> in
           if \<not> en_select_ok e then (Reject 403, db')
           else let owns = ownsBy e db' ns ownerType ownerID \<or>
                           (ownerType = ''wallet'' \<and> apiKeyFallback \<noteq> [] \<and> ownsBy e db' ns ''api_key'' apiKeyFallback)
             in if \<not> owns then (Reject 403, db')
                else (Pass r (if ownerType = ''wallet'' then cx\<lparr>cx_OwnerConfirmed := True\<rparr> else cx), db'))"

definition isAPIKeySubject :: "string \<Rightarrow> bool" where
  "isAPIKeySubject sub \<longleftrightarrow> HasPrefix (ToLower (TrimSpace sub)) ''ak_''"

definition callerScopes :: "auth_ctx \<Rightarrow> ScopeSet" where
  "callerScopes cx =
     (case cx_JWT cx of
        Some claims \<Rightarrow>
          (let raw = (case map_of (cl_Custom claims) ''scopes'' of None \<Rightarrow> [] | Some s \<Rightarrow> TrimSpace s) in
           if isAPIKeySubject (cl_Sub claims) \<and> raw \<noteq> [] then ParseScopes raw
           else if cx_OwnerConfirmed cx then {ScopeAdmin}
           else DataPlaneScopes)
      | None \<Rightarrow> (case cx_Scopes cx of Some s \<Rightarrow> s | None \<Rightarrow> {}))"

definition hasWalletJWT :: "auth_ctx \<Rightarrow> bool" where
  "hasWalletJWT cx =
     (case cx_JWT cx of
        None \<Rightarrow> False
      | Some claims \<Rightarrow> TrimSpace (cl_Sub claims) \<noteq> [] \<and> \<not> isAPIKeySubject (TrimSpace (cl_Sub claims)))"

definition scopeMiddleware :: "http_request \<Rightarrow> auth_ctx \<Rightarrow> verdict" where
  "scopeMiddleware r cx =
     (if rq_Method r = ''OPTIONS'' \<or> isPublicPath (rq_Path r) then Pass r cx
      else let required = requiredScope (rq_Path r); scopes = callerScopes cx in
        if required = [] then Pass r cx
        else if \<not> Has scopes required then Reject 403
        else if requiresUserJWT required \<and> \<not> IsAdmin scopes \<and> \<not> hasWalletJWT cx then Reject 401
        else Pass r cx)"

text \<open>The three checks in the order of \<^verbatim>\<open>withMiddleware\<close>.\<close>

definition gateway_checks :: "auth_env \<Rightarrow> middlewareCache \<Rightarrow> auth_db \<Rightarrow> http_request \<Rightarrow> auth_ctx \<Rightarrow> verdict \<times> middlewareCache \<times> auth_db" where
  "gateway_checks e mc db r cx =
     (let (v, mc') = authMiddleware e mc r cx in
      case v of
        Reject status \<Rightarrow> (Reject status, mc', db)
      | Pass r1 cx1 \<Rightarrow>
          (let (v1, db') = authorizationMiddleware e db r1 cx1 in (and_then v1 scopeMiddleware, mc', db')))"


section \<open>The identity behind a proxied request\<close>

text \<open>The validated namespace, claims and scopes, whether the credentials were invalid, and the
  request, from which a verified token of the query is removed.\<close>

definition validateAuthForNamespaceProxy :: "auth_env \<Rightarrow> middlewareCache \<Rightarrow> http_request
    \<Rightarrow> (string \<times> JWTClaims option \<times> string \<times> bool) \<times> http_request \<times> middlewareCache" where
  "validateAuthForNamespaceProxy e mc r =
     (let named = (\<lambda>claims. if TrimSpace (cl_Namespace claims) = [] then None else Some claims) in
      case Option.bind (Option.bind (bearer_jwt r) (en_verify e)) named of
        Some claims \<Rightarrow> ((TrimSpace (cl_Namespace claims), Some claims, [], False), r, mc)
      | None \<Rightarrow>
          (case Option.bind (Option.bind (query_jwt r) (en_verify e)) named of
             Some claims \<Rightarrow> ((TrimSpace (cl_Namespace claims), Some claims, [], False), stripJWTQueryParam r, mc)
           | None \<Rightarrow>
               (let key = extractAPIKey r in
                if key = [] then (([], None, [], False), r, mc)
                else case lookupAPIKeyEntry (en_asked e) (en_stored e) (en_hash e) (en_answered e) (en_rows e) key mc of
                  (None, mc') \<Rightarrow> (([], None, [], True), r, mc')
                | (Some (ns, rawScopes), mc') \<Rightarrow> ((ns, None, Canonical (ScopesFromStored rawScopes), False), r, mc'))))"

text \<open>The request that reaches the gateway of the namespace, from the address \<open>peer\<close> of the
  main gateway.\<close>

definition forwarded_request :: "((string \<times> string) list \<Rightarrow> byte list option) \<Rightarrow> string \<Rightarrow> string
    \<Rightarrow> string \<times> JWTClaims option \<times> string \<Rightarrow> http_request \<Rightarrow> http_request" where
  "forwarded_request marshal host peer validated r =
     (let (ns, claims, scopes) = validated;
          h = (rq_Header r)(''X-Forwarded-For'' := getClientIP r, ''X-Forwarded-Proto'' := ''https'', ''X-Forwarded-Host'' := host);
          h' = (if isWebSocketUpgrade r then h else h(''X-Original-Host'' := host))
      in r\<lparr>rq_Header := hop_headers marshal ns claims scopes h', rq_RemoteAddr := peer\<rparr>)"

section \<open>The exchange of a key for a token\<close>

definition apiKeyLookupCandidates :: "string \<Rightarrow> string \<Rightarrow> string list" where
  "apiKeyLookupCandidates rawKey hashedKey = (if hashedKey = rawKey then [rawKey] else [hashedKey, rawKey])"

fun first_answer :: "('a \<Rightarrow> 'b option) \<Rightarrow> 'a list \<Rightarrow> 'b option" where
  "first_answer f [] = None"
| "first_answer f (x # xs) = (case f x of Some y \<Rightarrow> Some y | None \<Rightarrow> first_answer f xs)"

text \<open>The claims of the token that is minted for a key at time \<open>now\<close> in seconds.\<close>

definition APIKeyToJWT :: "auth_env \<Rightarrow> int \<Rightarrow> string \<Rightarrow> JWTClaims option" where
  "APIKeyToJWT e now key =
     (if TrimSpace key = [] then None
      else case first_answer (query_key (en_answered e) (en_rows e)) (apiKeyLookupCandidates key (en_hash e key)) of
        None \<Rightarrow> None
      | Some (ns, rawScopes) \<Rightarrow>
          Some \<lparr>cl_Iss = ''orama-gateway'', cl_Sub = key, cl_Aud = ''gateway'', cl_Iat = now, cl_Nbf = now,
            cl_Exp = now + 15 * 60, cl_Namespace = ns,
            cl_Custom = [(''scopes'', Canonical (ScopesFromStored rawScopes))]\<rparr>)"

section \<open>Internal headers from outside\<close>

definition outcome :: "verdict \<Rightarrow> (int, auth_ctx) result" where
  "outcome v = (case v of Pass r cx \<Rightarrow> Inr cx | Reject status \<Rightarrow> Inl status)"

definition refusal :: "verdict \<Rightarrow> int option" where
  "refusal v = (case v of Pass r cx \<Rightarrow> None | Reject status \<Rightarrow> Some status)"

definition without_internal_headers :: "http_request \<Rightarrow> http_request" where
  "without_internal_headers r = r\<lparr>rq_Header := stripInboundInternalAuthHeaders (rq_Header r)\<rparr>"

lemma stripped_other [simp]:
  "stripInboundInternalAuthHeaders h ''Authorization'' = h ''Authorization''"
  "stripInboundInternalAuthHeaders h ''X-API-Key'' = h ''X-API-Key''"
  "stripInboundInternalAuthHeaders h ''Connection'' = h ''Connection''"
  "stripInboundInternalAuthHeaders h ''Upgrade'' = h ''Upgrade''"
  "stripInboundInternalAuthHeaders h HeaderInternalAuthValidated = []"
  "stripInboundInternalAuthHeaders h HeaderInternalAuthNamespace = []"
  "stripInboundInternalAuthHeaders h HeaderInternalAuthJWTSub = []"
  "stripInboundInternalAuthHeaders h HeaderInternalAuthJWTCustom = []"
  "stripInboundInternalAuthHeaders h HeaderInternalAuthScopes = []"
  by (simp_all add: stripInboundInternalAuthHeaders_def)

lemma without_headers_same [simp]:
  "rq_Method (without_internal_headers r) = rq_Method r"
  "rq_Path (without_internal_headers r) = rq_Path r"
  "remoteAddrIP (without_internal_headers r) = remoteAddrIP r"
  "isWebSocketUpgrade (without_internal_headers r) = isWebSocketUpgrade r"
  "bearer_jwt (without_internal_headers r) = bearer_jwt r"
  "query_jwt (without_internal_headers r) = query_jwt r"
  "extractAPIKey (without_internal_headers r) = extractAPIKey r"
  "trusted_peer (without_internal_headers r) = False"
  by (simp_all add: without_internal_headers_def remoteAddrIP_def isWebSocketUpgrade_def bearer_jwt_def
        query_jwt_def extractAPIKey_def trusted_peer_def Let_def cong: if_cong option.case_cong)

lemma checks_cong:
  assumes "rq_Method r = rq_Method r'" "rq_Path r = rq_Path r'" "trusted_peer r = trusted_peer r'"
  shows "outcome (fst (authorizationMiddleware e db r cx)) = outcome (fst (authorizationMiddleware e db r' cx))"
    and "outcome (scopeMiddleware r cx) = outcome (scopeMiddleware r' cx)"
  using assms
  by (simp_all add: authorizationMiddleware_def scopeMiddleware_def outcome_def Let_def if_distrib [of fst]
        if_distrib [of "case_verdict _ _"] split: prod.split cong: if_cong)


fun map_request :: "(http_request \<Rightarrow> http_request) \<Rightarrow> verdict \<Rightarrow> verdict" where
  "map_request f (Pass r cx) = Pass (f r) cx"
| "map_request f (Reject status) = Reject status"

lemma strip_query_commutes: "stripJWTQueryParam (without_internal_headers r) = without_internal_headers (stripJWTQueryParam r)"
  by (simp add: stripJWTQueryParam_def without_internal_headers_def)

lemma outside_not_trusted: "\<not> isInternalIP (remoteAddrIP r) \<Longrightarrow> \<not> trusted_peer r"
  by (simp add: trusted_peer_def)

lemma authMiddleware_stripped:
  assumes "\<not> trusted_peer r"
  shows "authMiddleware e mc (without_internal_headers r) cx =
           (map_request without_internal_headers (fst (authMiddleware e mc r cx)), snd (authMiddleware e mc r cx))"
  using assms by (simp add: authMiddleware_def Let_def strip_query_commutes split: option.split prod.split)

lemma authMiddleware_request:
  "fst (authMiddleware e mc r cx) = Pass r1 cx1 \<Longrightarrow>
     rq_Method r1 = rq_Method r \<and> rq_Path r1 = rq_Path r \<and> trusted_peer r1 = trusted_peer r"
  by (auto simp: authMiddleware_def Let_def stripJWTQueryParam_def trusted_peer_def remoteAddrIP_def
        split: if_splits option.splits prod.splits)

lemma outcome_and_then:
  assumes "outcome v = outcome v'" "\<And>cx r r'. v = Pass r cx \<Longrightarrow> v' = Pass r' cx \<Longrightarrow> outcome (f r cx) = outcome (f r' cx)"
  shows "outcome (and_then v f) = outcome (and_then v' f)"
  using assms by (cases v; cases v') (auto simp: outcome_def)

lemma authorization_request:
  "fst (authorizationMiddleware e db r cx) = Pass r1 cx1 \<Longrightarrow> r1 = r"
  by (auto simp: authorizationMiddleware_def Let_def split: if_splits prod.splits)

lemma checks_verdict:
  "fst (gateway_checks e mc db r cx) =
     and_then (fst (authMiddleware e mc r cx))
       (\<lambda>r1 cx1. and_then (fst (authorizationMiddleware e db r1 cx1)) scopeMiddleware)"
  by (cases "authMiddleware e mc r cx"; cases "fst (authMiddleware e mc r cx)")
     (simp_all add: gateway_checks_def Let_def split: prod.split)

lemma refusal_None: "refusal v = None \<longleftrightarrow> (\<exists>r cx. v = Pass r cx)"
  by (simp add: refusal_def split: verdict.split)

text \<open>A gateway with one admin key, and a request from the outside.\<close>

definition example_env :: auth_env where
  "example_env =
     \<lparr>en_verify = (\<lambda>t. None), en_unmarshal = (\<lambda>b. None), en_hash = (\<lambda>k. ''h'' @ k),
      en_rows = [\<lparr>ak_id = 1, ak_key = ''hak_1:acme'', ak_namespace = ''acme'', ak_scopes = Some ''admin'', ak_revoked = False\<rparr>],
      en_answered = (\<lambda>k. True), en_asked = 0, en_stored = 0, en_ClientNamespace = ''default'',
      en_insert_ok = True, en_select_ok = True, en_owner_ok = (\<lambda>t k. True)\<rparr>"

definition example_db :: auth_db where
  "example_db = \<lparr>db_namespaces = [''acme''], db_ownership = [(''acme'', ''api_key'', ''hak_1:acme'')]\<rparr>"

definition example_request :: "headers \<Rightarrow> http_request" where
  "example_request h =
     \<lparr>rq_Method = ''POST'', rq_Path = ''/v1/functions'', rq_Header = h, rq_Query = (\<lambda>_. []),
      rq_RemoteAddr = ''203.0.113.9:443''\<rparr>"

text \<open>C11: Internal headers in a request whose sender is neither on the loopback interface nor in
  the mesh have no effect: the checks end the same way, with the same context, as if the request
  did not have them.\<close>

theorem forged_headers_have_no_effect:
  assumes "\<not> isInternalIP (remoteAddrIP r)"
  shows "outcome (fst (gateway_checks e mc db r cx)) = outcome (fst (gateway_checks e mc db (without_internal_headers r) cx))"
proof (cases "fst (authMiddleware e mc r cx)")
  case (Pass r1 cx1)
  let ?r1 = "without_internal_headers r1"
  note nt = outside_not_trusted [OF assms]
  have 1: "fst (authMiddleware e mc (without_internal_headers r) cx) = Pass ?r1 cx1"
    by (simp add: authMiddleware_stripped [OF nt] Pass)
  have same: "rq_Method r1 = rq_Method ?r1" "rq_Path r1 = rq_Path ?r1" "trusted_peer r1 = trusted_peer ?r1"
    using authMiddleware_request [OF Pass] nt by simp_all
  have "outcome (and_then (fst (authorizationMiddleware e db r1 cx1)) scopeMiddleware) =
        outcome (and_then (fst (authorizationMiddleware e db ?r1 cx1)) scopeMiddleware)"
    using same by (intro outcome_and_then checks_cong) (auto dest!: authorization_request)
  then show ?thesis using Pass 1 by (simp add: checks_verdict)
next
  case (Reject status)
  then show ?thesis using authMiddleware_stripped [OF outside_not_trusted [OF assms]]
    by (simp add: checks_verdict)
qed


theorem forged_headers_have_no_effect_witness:
  "(let r = example_request ((\<lambda>_. [])(HeaderInternalAuthValidated := ''true'', HeaderInternalAuthNamespace := ''acme'',
              HeaderInternalAuthScopes := ScopeAdmin)) in
    trusted_peer (r\<lparr>rq_RemoteAddr := ''127.0.0.1:443''\<rparr>) \<and>
    refusal (fst (gateway_checks example_env (newMiddlewareCache 60) example_db (without_internal_headers r) empty_ctx)) = Some 401 \<and>
    outcome (fst (gateway_checks example_env (newMiddlewareCache 60) example_db r empty_ctx)) =
      outcome (fst (gateway_checks example_env (newMiddlewareCache 60) example_db (without_internal_headers r) empty_ctx)))"
proof -
  let ?r = "example_request ((\<lambda>_. [])(HeaderInternalAuthValidated := ''true'', HeaderInternalAuthNamespace := ''acme'',
              HeaderInternalAuthScopes := ScopeAdmin))"
  have "\<not> isInternalIP (remoteAddrIP ?r)" "trusted_peer (?r\<lparr>rq_RemoteAddr := ''127.0.0.1:443''\<rparr>)"
    "refusal (fst (gateway_checks example_env (newMiddlewareCache 60) example_db (without_internal_headers ?r) empty_ctx)) = Some 401"
    by code_simp+
  then show ?thesis unfolding Let_def using forged_headers_have_no_effect by blast
qed

section \<open>Who reaches the control plane\<close>

definition acting_namespace :: "auth_env \<Rightarrow> auth_ctx \<Rightarrow> string" where
  "acting_namespace e cx =
     (let ns = (case cx_Namespace cx of None \<Rightarrow> [] | Some s \<Rightarrow> TrimSpace s)
      in if ns = [] then TrimSpace (en_ClientNamespace e) else ns)"

lemma data_plane_not_admin [simp]: "ScopeAdmin \<notin> DataPlaneScopes"
  by (simp add: DataPlaneScopes_def)

lemma admin_route_private: "requiredScope path = ScopeAdmin \<Longrightarrow> \<not> isPublicPath path"
  by (auto simp: requiredScope_def)

lemma scope_admin:
  "scopeMiddleware r cx = Pass r' cx' \<Longrightarrow> requiredScope (rq_Path r) = ScopeAdmin \<Longrightarrow> rq_Method r \<noteq> ''OPTIONS'' \<Longrightarrow>
     cx' = cx \<and> ScopeAdmin \<in> callerScopes cx"
  using admin_route_private [of "rq_Path r"]
  by (auto simp: scopeMiddleware_def Has_def Let_def split: if_splits)

lemma confirmed_owner:
  assumes "fst (authorizationMiddleware e db r cx) = Pass r' cx'" "cx_OwnerConfirmed cx'" "\<not> cx_OwnerConfirmed cx"
    and "cx_APIKey cx = None"
  shows "\<exists>c. cx_JWT cx = Some c \<and> cx' = cx\<lparr>cx_OwnerConfirmed := True\<rparr> \<and>
           (acting_namespace e cx, ''wallet'', TrimSpace (cl_Sub c)) \<in> set (db_ownership db)"
  using assms
  by (auto simp: authorizationMiddleware_def acting_namespace_def identify_actor_def ownsBy_def apiKeyOwnerCandidates_def
        Let_def split: if_splits option.splits)


definition presents_token :: "auth_env \<Rightarrow> http_request \<Rightarrow> JWTClaims \<Rightarrow> bool" where
  "presents_token e r c \<longleftrightarrow>
     (\<exists>tok. (bearer_jwt r = Some tok \<or> query_jwt r = Some tok) \<and> en_verify e tok = Some c)"

lemma auth_cases:
  assumes "fst (authMiddleware e mc r cx) = Pass r1 cx1"
    and "rq_Method r \<noteq> ''OPTIONS''" "\<not> trusted_peer r" "\<not> isPublicPath (rq_Path r)"
  shows "(\<exists>c. presents_token e r c \<and> cx1 = claims_ctx c cx) \<or>
         (\<exists>ns raw. fst (lookupAPIKeyEntry (en_asked e) (en_stored e) (en_hash e) (en_answered e) (en_rows e) (extractAPIKey r) mc) = Some (ns, raw) \<and>
            cx1 = cx\<lparr>cx_APIKey := Some (extractAPIKey r), cx_Namespace := Some ns, cx_Scopes := Some (ScopesFromStored raw)\<rparr>)"
  using assms
  by (auto simp: authMiddleware_def presents_token_def Let_def bind_eq_Some_conv
        split: option.splits if_splits prod.splits)

lemma authorization_ctx:
  "fst (authorizationMiddleware e db r cx) = Pass r' cx' \<Longrightarrow>
     r' = r \<and> (cx' = cx \<or> cx' = cx\<lparr>cx_OwnerConfirmed := True\<rparr> \<and> cx_JWT cx \<noteq> None)"
  by (auto simp: authorizationMiddleware_def identify_actor_def Let_def split: if_splits prod.splits option.splits)

text \<open>C5: A request that is not from the mesh reaches a route of the control plane only with an
  API key that holds the admin grant, with a token exchanged for such a key, or with the token of
  a wallet that the database records as an owner of the namespace in which the request acts.\<close>

theorem control_plane_needs_admin:
  assumes "fst (gateway_checks e mc db r (empty_ctx\<lparr>cx_Namespace := n\<rparr>)) = Pass r' cx"
    and "requiredScope (rq_Path r) = ScopeAdmin" "rq_Method r \<noteq> ''OPTIONS''" "\<not> trusted_peer r"
  shows "(\<exists>ns raw. fst (lookupAPIKeyEntry (en_asked e) (en_stored e) (en_hash e) (en_answered e) (en_rows e) (extractAPIKey r) mc) = Some (ns, raw) \<and>
            ScopeAdmin \<in> ScopesFromStored raw) \<or>
         (\<exists>c. presents_token e r c \<and> isAPIKeySubject (cl_Sub c) \<and>
            (\<exists>s. map_of (cl_Custom c) ''scopes'' = Some s \<and> ScopeAdmin \<in> ParseScopes (TrimSpace s))) \<or>
         (\<exists>c. presents_token e r c \<and>
            (acting_namespace e cx, ''wallet'', TrimSpace (cl_Sub c)) \<in> set (db_ownership db))"
proof -
  let ?cx0 = "empty_ctx\<lparr>cx_Namespace := n\<rparr>"
  obtain r1 cx1 where 1: "fst (authMiddleware e mc r ?cx0) = Pass r1 cx1"
    and "and_then (fst (authorizationMiddleware e db r1 cx1)) scopeMiddleware = Pass r' cx"
    using assms(1) by (cases "fst (authMiddleware e mc r ?cx0)") (auto simp: checks_verdict)
  then obtain r2 cx2 where 2: "fst (authorizationMiddleware e db r1 cx1) = Pass r2 cx2" and 3: "scopeMiddleware r2 cx2 = Pass r' cx"
    by (cases "fst (authorizationMiddleware e db r1 cx1)") auto
  have r1: "rq_Method r1 = rq_Method r" "rq_Path r1 = rq_Path r" using authMiddleware_request [OF 1] by auto
  have r2: "r2 = r1" using authorization_ctx [OF 2] by simp
  have admin: "cx = cx2" "ScopeAdmin \<in> callerScopes cx2" using scope_admin [OF 3] r1 r2 assms(2,3) by simp_all
  from auth_cases [OF 1 assms(3,4) admin_route_private [OF assms(2)]] show ?thesis
  proof (elim disjE exE conjE)
    fix c assume c: "presents_token e r c" "cx1 = claims_ctx c ?cx0"
    have jwt: "cx_JWT cx1 = Some c" "cx_APIKey cx1 = None" "\<not> cx_OwnerConfirmed cx1"
      using c(2) by (simp_all add: claims_ctx_def empty_ctx_def Let_def)
    show ?thesis
    proof (cases "cx_OwnerConfirmed cx2")
      case True
      have "acting_namespace e cx = acting_namespace e cx1"
        using admin(1) authorization_ctx [OF 2] by (auto simp: acting_namespace_def)
      then show ?thesis using confirmed_owner [OF 2 True jwt(3,2)] jwt(1) c(1) by auto
    next
      case False
      then have "cx2 = cx1" using authorization_ctx [OF 2] by auto
      then show ?thesis using admin(2) jwt False c(1)
        by (auto simp: callerScopes_def Let_def split: if_splits option.splits)
    qed
  next
    fix ns raw
    assume l: "fst (lookupAPIKeyEntry (en_asked e) (en_stored e) (en_hash e) (en_answered e) (en_rows e) (extractAPIKey r) mc) = Some (ns, raw)"
      and "cx1 = ?cx0\<lparr>cx_APIKey := Some (extractAPIKey r), cx_Namespace := Some ns, cx_Scopes := Some (ScopesFromStored raw)\<rparr>"
    then have "callerScopes cx2 = ScopesFromStored raw"
      using authorization_ctx [OF 2] by (auto simp: callerScopes_def empty_ctx_def)
    then show ?thesis using l admin(2) by auto
  qed
qed


theorem control_plane_needs_admin_witness:
  "(let r = example_request ((\<lambda>_. [])(''X-API-Key'' := ''ak_1:acme'')) in
    refusal (fst (gateway_checks example_env (newMiddlewareCache 60) example_db r empty_ctx)) = None \<and>
    requiredScope (rq_Path r) = ScopeAdmin \<and>
    (\<exists>ns raw. fst (lookupAPIKeyEntry 0 0 (en_hash example_env) (en_answered example_env) (en_rows example_env)
        (extractAPIKey r) (newMiddlewareCache 60)) = Some (ns, raw) \<and> ScopeAdmin \<in> ScopesFromStored raw))"
proof -
  let ?r = "example_request ((\<lambda>_. [])(''X-API-Key'' := ''ak_1:acme''))"
  have f: "refusal (fst (gateway_checks example_env (newMiddlewareCache 60) example_db ?r empty_ctx)) = None"
    "requiredScope (rq_Path ?r) = ScopeAdmin" "\<not> trusted_peer ?r" "rq_Method ?r \<noteq> ''OPTIONS''"
    by code_simp+
  then obtain r' cx where "fst (gateway_checks example_env (newMiddlewareCache 60) example_db ?r empty_ctx) = Pass r' cx"
    by (auto simp: refusal_None)
  moreover have "empty_ctx\<lparr>cx_Namespace := None\<rparr> = empty_ctx" by (simp add: empty_ctx_def)
  moreover have "\<not> presents_token example_env ?r c" for c by (simp add: presents_token_def example_env_def)
  ultimately show ?thesis unfolding Let_def
    using f control_plane_needs_admin [of example_env "newMiddlewareCache 60" example_db ?r None r' cx]
    by (simp add: example_env_def)
qed

section \<open>Internal headers from the loopback interface\<close>

definition forged_request :: "string \<Rightarrow> string \<Rightarrow> string \<Rightarrow> http_request" where
  "forged_request meth path ns =
     \<lparr>rq_Method = meth, rq_Path = path,
      rq_Header = (\<lambda>_. [])(HeaderInternalAuthValidated := ''true'', HeaderInternalAuthNamespace := ns,
                    HeaderInternalAuthScopes := ScopeAdmin),
      rq_Query = (\<lambda>_. []), rq_RemoteAddr = ''127.0.0.1:40000''\<rparr>"

lemma loopback_internal: "isInternalIP ''127.0.0.1''" "SplitHostPort ''127.0.0.1:40000'' = Some (''127.0.0.1'', ''40000'')"
  by code_simp+

text \<open>C30: The gateway trusts the internal headers of every request that comes from the loopback
  interface, where also the reverse proxy of the node sends the requests of the clients from:
  with three headers such a request passes all the checks without any credential, for every route
  and every namespace, with the admin grant.\<close>

theorem loopback_headers_grant_admin:
  assumes "meth \<noteq> ''OPTIONS''" "TrimSpace ns \<noteq> []"
  shows "\<exists>cx. fst (gateway_checks e mc db (forged_request meth path ns) empty_ctx) = Pass (forged_request meth path ns) cx \<and>
           cx_Namespace cx = Some (TrimSpace ns) \<and> callerScopes cx = {ScopeAdmin}"
proof -
  let ?r = "forged_request meth path ns"
  have t: "trusted_peer ?r" by (simp add: trusted_peer_def forged_request_def remoteAddrIP_def loopback_internal)
  have s: "TrimSpace ScopeAdmin = ScopeAdmin" "ParseScopes ScopeAdmin = {ScopeAdmin}" by code_simp+
  let ?cx = "empty_ctx\<lparr>cx_Namespace := Some (TrimSpace ns), cx_Scopes := Some {ScopeAdmin}\<rparr>"
  have "fst (authMiddleware e mc ?r empty_ctx) = Pass ?r ?cx"
    using t assms s by (simp add: authMiddleware_def internal_ctx_def claimsFromInternalAuthHeaders_def forged_request_def
        TrimSpace_def [of "[]"])
  moreover have "fst (authorizationMiddleware e db ?r ?cx) = Pass ?r ?cx"
    using t by (simp add: authorizationMiddleware_def Let_def split: prod.split)
  moreover have scopes: "callerScopes ?cx = {ScopeAdmin}" by (simp add: callerScopes_def empty_ctx_def)
  then have "scopeMiddleware ?r ?cx = Pass ?r ?cx"
    by (simp only: scopeMiddleware_def Has_def IsAdmin_def Let_def) simp
  ultimately have "fst (gateway_checks e mc db ?r empty_ctx) = Pass ?r ?cx" by (simp only: checks_verdict and_then.simps)
  then show ?thesis using scopes by (intro exI [of _ ?cx]) simp
qed

theorem loopback_headers_grant_admin_witness:
  "\<exists>cx. fst (gateway_checks example_env (newMiddlewareCache 60) example_db (forged_request ''DELETE'' ''/v1/namespace/keys/1'' ''acme'') empty_ctx) =
          Pass (forged_request ''DELETE'' ''/v1/namespace/keys/1'' ''acme'') cx \<and>
        cx_Namespace cx = Some ''acme'' \<and> callerScopes cx = {ScopeAdmin}"
proof -
  have "TrimSpace ''acme'' = ''acme''" by code_simp
  then show ?thesis using loopback_headers_grant_admin [of "''DELETE''" "''acme''"] by simp
qed

end
