(* ===== verification/Api_Key_Cache.thy ===== *)
theory Api_Key_Cache
  imports Gateway_Auth
begin

text \<open>
  The lookup of API keys through the cache of the gateway over time: how long a
  revoked key goes on working, and what a reader of the table of keys can do.
\<close>

section \<open>Revoked keys\<close>

datatype cache_event =
    KeyLookup time_ns time_ns "string \<Rightarrow> bool" "api_key_row list" string
  | CacheCleanup time_ns

fun cache_step :: "(string \<Rightarrow> string) \<Rightarrow> cache_event \<Rightarrow> middlewareCache \<Rightarrow> middlewareCache" where
  "cache_step hash (KeyLookup asked stored answered rows key) mc = snd (lookupAPIKeyEntry asked stored hash answered rows key mc)"
| "cache_step hash (CacheCleanup now) mc = cache_cleanup now mc"

definition active_key :: "(string \<Rightarrow> string) \<Rightarrow> api_key_row list \<Rightarrow> string \<Rightarrow> bool" where
  "active_key hash rows key \<longleftrightarrow> (\<exists>row \<in> set rows. \<not> ak_revoked row \<and> (ak_key row = hash key \<or> ak_key row = key))"

definition entry_origin :: "(string \<Rightarrow> string) \<Rightarrow> cache_event list \<Rightarrow> string \<Rightarrow> time_ns \<Rightarrow> bool" where
  "entry_origin hash evs key stored \<longleftrightarrow>
     (\<exists>asked answered rows. KeyLookup asked stored answered rows key \<in> set evs \<and> active_key hash rows key)"

lemma query_key_active: "query_key answered rows k = Some v \<Longrightarrow> \<exists>row \<in> set rows. \<not> ak_revoked row \<and> ak_key row = k"
  by (auto simp: query_key_def find_Some_iff split: if_splits option.splits)

lemma lookup_cases:
  assumes "lookupAPIKeyEntry asked stored hash answered rows key mc = (res, mc')"
  shows "(\<exists>e. GetAPIKeyEntry asked key mc = Some e \<and> res = Some e \<and> mc' = mc) \<or>
         (\<exists>ns raw. active_key hash rows key \<and> res = Some (ns, raw) \<and> mc' = SetAPIKeyEntry stored key ns raw mc) \<or>
         (res = None \<and> mc' = mc)"
  using assms query_key_active [of answered rows "hash key"] query_key_active [of answered rows key]
  by (auto simp: lookupAPIKeyEntry_def active_key_def split: option.splits if_splits)

lemma cache_ttl [simp]: "mc_ttl (fold (cache_step hash) evs mc) = mc_ttl mc"
proof (induction evs arbitrary: mc)
  case (Cons ev evs)
  have "mc_ttl (cache_step hash ev mc) = mc_ttl mc"
  proof (cases ev)
    case (KeyLookup a st ans rows k)
    then show ?thesis using lookup_cases [of a st hash ans rows k mc] by (cases "lookupAPIKeyEntry a st hash ans rows k mc") (auto simp: SetAPIKeyEntry_def)
  qed (simp add: cache_cleanup_def)
  then show ?case by (simp add: Cons.IH)
qed simp

lemma entry_origin_mono: "entry_origin hash evs key t \<Longrightarrow> entry_origin hash (evs @ [ev]) key t"
  by (auto simp: entry_origin_def)

lemma cache_entries_origin:
  "mc_apiKeyNS (fold (cache_step hash) evs (newMiddlewareCache ttl)) key = Some v \<Longrightarrow>
     entry_origin hash evs key (cv_expiresAt v - ttl)"
proof (induction evs arbitrary: v rule: rev_induct)
  case (snoc ev evs)
  let ?mc = "fold (cache_step hash) evs (newMiddlewareCache ttl)"
  have ttl: "mc_ttl ?mc = ttl" by (simp add: newMiddlewareCache_def)
  show ?case
  proof (cases ev)
    case (KeyLookup a st ans rows k)
    obtain res mc' where l: "lookupAPIKeyEntry a st hash ans rows k ?mc = (res, mc')" by fastforce
    have v: "mc_apiKeyNS mc' key = Some v" using snoc.prems KeyLookup l by simp
    show ?thesis
    proof (cases "mc' = ?mc")
      case True
      then show ?thesis using snoc.IH v entry_origin_mono by metis
    next
      case False
      then obtain ns raw where "active_key hash rows k" "mc' = SetAPIKeyEntry st k ns raw ?mc"
        using lookup_cases [OF l] by auto
      note stored = this
      show ?thesis
      proof (cases "k = key")
        case True
        then have "cv_expiresAt v - ttl = st" using v stored(2) ttl by (auto simp: SetAPIKeyEntry_def)
        then show ?thesis unfolding entry_origin_def KeyLookup using True stored(1) by (intro exI [of _ a] exI [of _ ans] exI [of _ rows]) simp
      next
        case False
        then have "mc_apiKeyNS ?mc key = Some v" using v stored(2) by (simp add: SetAPIKeyEntry_def)
        then show ?thesis by (rule entry_origin_mono [OF snoc.IH])
      qed
    qed
  next
    case (CacheCleanup now)
    then have "mc_apiKeyNS ?mc key = Some v" using snoc.prems by (auto simp: cache_cleanup_def split: option.splits if_splits)
    then show ?thesis using snoc.IH entry_origin_mono by metis
  qed
qed (simp add: newMiddlewareCache_def)

text \<open>C26: A key that resolves at some time is active in the database then, or was looked up and
  active in the database at most the lifetime of a cache entry ago: a revoked key stops working
  after that time, however often it is used.\<close>

theorem revoked_key_stops_working:
  assumes "fst (lookupAPIKeyEntry asked stored hash answered rows key (fold (cache_step hash) evs (newMiddlewareCache ttl))) = Some (ns, raw)"
  shows "active_key hash rows key \<or> (\<exists>t. asked \<le> t + ttl \<and> entry_origin hash evs key t)"
proof -
  let ?mc = "fold (cache_step hash) evs (newMiddlewareCache ttl)"
  obtain mc' where "lookupAPIKeyEntry asked stored hash answered rows key ?mc = (Some (ns, raw), mc')"
    using assms by (metis prod.collapse)
  from lookup_cases [OF this] show ?thesis
  proof (elim disjE exE conjE)
    fix e assume "GetAPIKeyEntry asked key ?mc = Some e"
    then obtain v where v: "mc_apiKeyNS ?mc key = Some v" "asked \<le> cv_expiresAt v"
      by (auto simp: GetAPIKeyEntry_def split: option.splits if_splits)
    then show ?thesis using cache_entries_origin [OF v(1)] by (intro disjI2 exI [of _ "cv_expiresAt v - ttl"]) simp
  qed auto
qed

section \<open>Stored hashes\<close>

text \<open>C32: The value that is stored for a key in place of the key is itself accepted as a key,
  because a presented key is also looked up as it is: hashing the keys does not keep a reader of
  the table from using them.\<close>

theorem stored_hash_is_a_credential:
  assumes "find (\<lambda>row. ak_key row = hash key \<and> \<not> ak_revoked row) rows = Some row" "ak_namespace row \<noteq> []"
    and "find (\<lambda>row. ak_key row = hash (hash key) \<and> \<not> ak_revoked row) rows = None" "hash (hash key) \<noteq> hash key"
    and "GetAPIKeyEntry asked (hash key) mc = None" "\<And>k. answered k"
  shows "fst (lookupAPIKeyEntry asked stored hash answered rows (hash key) mc) =
           Some (ak_namespace row, case ak_scopes row of None \<Rightarrow> [] | Some s \<Rightarrow> s)"
  using assms by (simp add: lookupAPIKeyEntry_def query_key_def)


section \<open>Examples\<close>

theorem revoked_key_stops_working_witness:
  "(let ev = KeyLookup 0 0 (\<lambda>_. True) (en_rows example_env) ''ak_1:acme'';
        mc = fold (cache_step (en_hash example_env)) [ev] (newMiddlewareCache 60)
    in fst (lookupAPIKeyEntry 50 50 (en_hash example_env) (\<lambda>_. True) [] ''ak_1:acme'' mc) = Some (''acme'', ''admin'') \<and>
       (\<exists>t. 50 \<le> t + 60 \<and> entry_origin (en_hash example_env) [ev] ''ak_1:acme'' t))"
proof -
  let ?ev = "KeyLookup 0 0 (\<lambda>_. True) (en_rows example_env) ''ak_1:acme''"
  have l: "fst (lookupAPIKeyEntry 50 50 (en_hash example_env) (\<lambda>_. True) [] ''ak_1:acme''
      (fold (cache_step (en_hash example_env)) [?ev] (newMiddlewareCache 60))) = Some (''acme'', ''admin'')" by code_simp
  show ?thesis unfolding Let_def using l revoked_key_stops_working [OF l] by (simp add: active_key_def)
qed

theorem stored_hash_is_a_credential_witness:
  "fst (lookupAPIKeyEntry 0 0 (en_hash example_env) (\<lambda>_. True) (en_rows example_env) ''hak_1:acme'' (newMiddlewareCache 60)) =
     Some (''acme'', ''admin'')"
  using stored_hash_is_a_credential [of "en_hash example_env" "''ak_1:acme''" "en_rows example_env"
      "hd (en_rows example_env)" 0 "newMiddlewareCache 60" "\<lambda>_. True" 0]
  by (simp add: example_env_def GetAPIKeyEntry_def newMiddlewareCache_def)

end
