(* ===== verification/Circuit_Breaker.thy ===== *)
theory Circuit_Breaker
  imports Token_Bucket
begin

text \<open>
  The circuit breakers of the gateway (\<^verbatim>\<open>core/pkg/gateway/circuit_breaker.go\<close>).

  A registry creates a breaker per target on demand and never removes one, so
  it maps a target to the state of its breaker.  The clock is an argument; the
  zero time, which is more than any duration before every reading of the
  clock, is \<^term>\<open>None\<close>.  Every method holds the mutex of its breaker and is one
  step.  The specification of a breaker is a function of the history of its
  calls (\<open>history_allows\<close>).
\<close>

section \<open>The breaker\<close>

datatype CircuitState = CircuitClosed | CircuitOpen | CircuitHalfOpen

definition defaultFailureThreshold :: int where
  "defaultFailureThreshold = 5"

definition defaultOpenDuration :: int where
  "defaultOpenDuration = 30 * 1000000000"

record CircuitBreaker =
  cb_state :: CircuitState
  failures :: int
  failureThreshold :: int
  lastFailure :: "time_ns option"
  openDuration :: int

definition NewCircuitBreaker :: CircuitBreaker where
  "NewCircuitBreaker =
     \<lparr>cb_state = CircuitClosed, failures = 0, failureThreshold = defaultFailureThreshold,
      lastFailure = None, openDuration = defaultOpenDuration\<rparr>"

definition open_elapsed :: "time_ns \<Rightarrow> CircuitBreaker \<Rightarrow> bool" where
  "open_elapsed now cb = (case lastFailure cb of None \<Rightarrow> True | Some t \<Rightarrow> openDuration cb \<le> now - t)"

definition breaker_Allow :: "time_ns \<Rightarrow> CircuitBreaker \<Rightarrow> bool \<times> CircuitBreaker" where
  "breaker_Allow now cb =
     (case cb_state cb of
        CircuitClosed \<Rightarrow> (True, cb)
      | CircuitOpen \<Rightarrow>
          if open_elapsed now cb then (True, cb\<lparr>cb_state := CircuitHalfOpen\<rparr>) else (False, cb)
      | CircuitHalfOpen \<Rightarrow> (False, cb))"

definition RecordSuccess :: "CircuitBreaker \<Rightarrow> CircuitBreaker" where
  "RecordSuccess cb = cb\<lparr>failures := 0, cb_state := CircuitClosed\<rparr>"

definition RecordFailure :: "time_ns \<Rightarrow> CircuitBreaker \<Rightarrow> CircuitBreaker" where
  "RecordFailure now cb =
     (let cb' = cb\<lparr>failures := failures cb + 1, lastFailure := Some now\<rparr>
      in if failureThreshold cb' \<le> failures cb' then cb'\<lparr>cb_state := CircuitOpen\<rparr> else cb')"

definition IsResponseFailure :: "int \<Rightarrow> bool" where
  "IsResponseFailure statusCode \<longleftrightarrow> statusCode = 502 \<or> statusCode = 503 \<or> statusCode = 504"

section \<open>The registry\<close>

type_synonym CircuitBreakerRegistry = "string \<Rightarrow> CircuitBreaker option"

definition NewCircuitBreakerRegistry :: CircuitBreakerRegistry where
  "NewCircuitBreakerRegistry = Map.empty"

definition registry_Get :: "string \<Rightarrow> CircuitBreakerRegistry \<Rightarrow> CircuitBreaker \<times> CircuitBreakerRegistry" where
  "registry_Get target r =
     (case r target of
        Some cb \<Rightarrow> (cb, r)
      | None \<Rightarrow> (NewCircuitBreaker, r(target \<mapsto> NewCircuitBreaker)))"

text \<open>\<^verbatim>\<open>Get(target).Allow()\<close>, and what the proxies record on the breaker of the target
  when the exchange with it ends.\<close>

definition target_Allow :: "time_ns \<Rightarrow> string \<Rightarrow> CircuitBreakerRegistry \<Rightarrow> bool \<times> CircuitBreakerRegistry" where
  "target_Allow now target r =
     (let (cb, r1) = registry_Get target r; (ok, cb') = breaker_Allow now cb
      in (ok, r1(target \<mapsto> cb')))"

datatype exchange = TransportError | Response int

definition record_exchange :: "time_ns \<Rightarrow> exchange \<Rightarrow> string \<Rightarrow> CircuitBreakerRegistry \<Rightarrow> CircuitBreakerRegistry" where
  "record_exchange now x target r =
     (let (cb, r1) = registry_Get target r
      in r1(target \<mapsto> (case x of
            TransportError \<Rightarrow> RecordFailure now cb
          | Response status \<Rightarrow> if IsResponseFailure status then RecordFailure now cb else RecordSuccess cb)))"

section \<open>A breaker and the history of its calls\<close>

datatype breaker_call = CallAllow time_ns | CallSuccess | CallFailure time_ns

datatype breaker_event = Asked time_ns bool | Succeeded | Failed time_ns

definition breaker_step :: "breaker_call \<Rightarrow> breaker_event list \<times> CircuitBreaker \<Rightarrow> breaker_event list \<times> CircuitBreaker" where
  "breaker_step c s =
     (let (h, cb) = s in
      case c of
        CallAllow now \<Rightarrow> (let (ok, cb') = breaker_Allow now cb in (Asked now ok # h, cb'))
      | CallSuccess \<Rightarrow> (Succeeded # h, RecordSuccess cb)
      | CallFailure now \<Rightarrow> (Failed now # h, RecordFailure now cb))"

definition breaker_run :: "breaker_call list \<Rightarrow> breaker_event list \<times> CircuitBreaker" where
  "breaker_run calls = fold breaker_step calls ([], NewCircuitBreaker)"

text \<open>The history has the latest event first.\<close>

fun consecutive_failures :: "breaker_event list \<Rightarrow> nat" where
  "consecutive_failures [] = 0"
| "consecutive_failures (Asked t ok # h) = consecutive_failures h"
| "consecutive_failures (Succeeded # h) = 0"
| "consecutive_failures (Failed t # h) = Suc (consecutive_failures h)"

fun last_failure :: "breaker_event list \<Rightarrow> time_ns option" where
  "last_failure [] = None"
| "last_failure (Failed t # h) = Some t"
| "last_failure (e # h) = last_failure h"

fun admitted_since_result :: "breaker_event list \<Rightarrow> bool" where
  "admitted_since_result (Asked t ok # h) \<longleftrightarrow> ok \<or> admitted_since_result h"
| "admitted_since_result h \<longleftrightarrow> False"

definition history_allows :: "time_ns \<Rightarrow> breaker_event list \<Rightarrow> bool" where
  "history_allows now h \<longleftrightarrow>
     consecutive_failures h < 5 \<or>
     \<not> admitted_since_result h \<and> (\<exists>t. last_failure h = Some t \<and> t + 30 * 1000000000 \<le> now)"

definition breaker_abs :: "breaker_event list \<Rightarrow> CircuitBreaker \<Rightarrow> bool" where
  "breaker_abs h cb \<longleftrightarrow>
     failureThreshold cb = 5 \<and> openDuration cb = 30 * 1000000000 \<and>
     failures cb = int (consecutive_failures h) \<and> lastFailure cb = last_failure h \<and>
     cb_state cb = (if consecutive_failures h < 5 then CircuitClosed
                    else if admitted_since_result h then CircuitHalfOpen else CircuitOpen) \<and>
     (0 < consecutive_failures h \<longrightarrow> last_failure h \<noteq> None)"

lemmas breaker_defs = breaker_Allow_def RecordSuccess_def RecordFailure_def open_elapsed_def

lemma breaker_abs_New [simp]: "breaker_abs [] NewCircuitBreaker"
  by (simp add: breaker_abs_def NewCircuitBreaker_def defaultFailureThreshold_def defaultOpenDuration_def)

lemma breaker_abs_Allow:
  "breaker_abs h cb \<Longrightarrow> fst (breaker_Allow now cb) = history_allows now h"
  by (auto simp: breaker_abs_def history_allows_def breaker_defs split: option.splits if_splits)

lemma breaker_abs_step:
  "breaker_abs (fst s) (snd s) \<Longrightarrow> breaker_abs (fst (breaker_step c s)) (snd (breaker_step c s))"
  by (cases s; cases c)
     (auto simp: breaker_abs_def breaker_step_def breaker_defs Let_def split: option.splits if_splits prod.splits)

lemma breaker_abs_run: "breaker_abs (fst (breaker_run calls)) (snd (breaker_run calls))"
proof -
  have "breaker_abs (fst s) (snd s) \<Longrightarrow>
      breaker_abs (fst (fold breaker_step calls s)) (snd (fold breaker_step calls s))" for s
    by (induction calls arbitrary: s) (simp_all add: breaker_abs_step)
  then show ?thesis by (simp add: breaker_run_def)
qed

text \<open>C13: Whatever calls a breaker has served, it lets a request through exactly when fewer
  than five failures have been recorded in a row, or when the last of them is at least thirty
  seconds old and no request has been let through since a result was last recorded.\<close>

theorem breaker_follows_history:
  "fst (breaker_Allow now (snd (breaker_run calls))) = history_allows now (fst (breaker_run calls))"
  by (rule breaker_abs_Allow [OF breaker_abs_run])

section \<open>The registry as a gate with keys\<close>

definition breaker_of :: "CircuitBreakerRegistry \<Rightarrow> string \<Rightarrow> CircuitBreaker" where
  "breaker_of r k = (case r k of None \<Rightarrow> NewCircuitBreaker | Some cb \<Rightarrow> cb)"

lemma registry_Get_eq: "registry_Get k r = (breaker_of r k, r(k \<mapsto> breaker_of r k))"
  by (auto simp: registry_Get_def breaker_of_def split: option.splits)

lemma breaker_of_upd [simp]: "breaker_of (r(k \<mapsto> cb)) = (breaker_of r)(k := cb)"
  by (auto simp: breaker_of_def)

lemma target_Allow_breaker [simp]:
  "fst (target_Allow now k r) = fst (breaker_Allow now (breaker_of r k))"
  "breaker_of (snd (target_Allow now k r)) = (breaker_of r)(k := snd (breaker_Allow now (breaker_of r k)))"
  by (simp_all add: target_Allow_def registry_Get_eq Let_def split: prod.splits)

lemma record_exchange_breaker [simp]:
  "breaker_of (record_exchange now x k r) =
     (breaker_of r)(k := (case x of
        TransportError \<Rightarrow> RecordFailure now (breaker_of r k)
      | Response status \<Rightarrow> if IsResponseFailure status then RecordFailure now (breaker_of r k)
                            else RecordSuccess (breaker_of r k)))"
  by (simp add: record_exchange_def registry_Get_eq)

text \<open>What a caller that tries several targets relies on: the answer for a target depends on
  the state of that target, which alone may change, and a refusal changes nothing.\<close>

locale keyed_gate =
  fixes ask :: "'k \<Rightarrow> 's \<Rightarrow> bool \<times> 's"
    and view :: "'s \<Rightarrow> 'k \<Rightarrow> 'v"
    and answer :: "'v \<Rightarrow> bool"
    and after :: "'v \<Rightarrow> 'v"
  assumes ask_answer: "fst (ask k s) = answer (view s k)"
    and ask_view: "view (snd (ask k s)) = (view s)(k := after (view s k))"
    and refusal_keeps: "\<not> answer v \<Longrightarrow> after v = v"
begin

lemma refusal_view: "\<not> answer (view s k) \<Longrightarrow> view (snd (ask k s)) = view s"
  by (simp add: ask_view refusal_keeps)

end

text \<open>A loop over candidates that takes the first one let through.\<close>

locale failover = keyed_gate ask view answer after
  for ask :: "'k \<Rightarrow> 's \<Rightarrow> bool \<times> 's" and view :: "'s \<Rightarrow> 'k \<Rightarrow> 'v"
    and answer :: "'v \<Rightarrow> bool" and after :: "'v \<Rightarrow> 'v" +
  fixes key :: "'c \<Rightarrow> 'k"
    and select :: "'c list \<Rightarrow> 's \<Rightarrow> 'c option \<times> 's"
  assumes select_Nil: "select [] s = (None, s)"
    and select_Cons: "select (c # cs) s =
      (if fst (ask (key c) s) then (Some c, snd (ask (key c) s)) else select cs (snd (ask (key c) s)))"
begin

lemma select_first: "fst (select cs s) = find (\<lambda>c. answer (view s (key c))) cs"
  by (induction cs arbitrary: s) (auto simp: select_Nil select_Cons ask_answer refusal_view)

lemma select_view:
  "view (snd (select cs s)) =
     (case find (\<lambda>c. answer (view s (key c))) cs of
        None \<Rightarrow> view s
      | Some c \<Rightarrow> (view s)(key c := after (view s (key c))))"
proof (induction cs arbitrary: s)
  case (Cons c cs)
  show ?case
    by (cases "answer (view s (key c))")
       (simp_all add: select_Cons ask_answer ask_view refusal_keeps Cons.IH split: option.split)
qed (simp add: select_Nil)

end

lemma breaker_refusal_keeps: "\<not> fst (breaker_Allow now cb) \<Longrightarrow> snd (breaker_Allow now cb) = cb"
  by (auto simp: breaker_Allow_def split: CircuitState.splits if_splits)

interpretation breakers: keyed_gate "target_Allow now" breaker_of
    "\<lambda>cb. fst (breaker_Allow now cb)" "\<lambda>cb. snd (breaker_Allow now cb)" for now
  by unfold_locales (simp_all add: breaker_refusal_keeps)

end
