(* ===== verification/Civil_Calendar.thy ===== *)
theory Civil_Calendar
  imports Main
begin

text \<open>
  Calendar dates and times of day in UTC, as Go's package \<^verbatim>\<open>time\<close> computes
  them.  A time is a number of nanoseconds since the Unix epoch; a day is a
  number of days since the epoch.  The proleptic Gregorian calendar is given by
  the number of days before a year and before a month, and a date by the
  400-, 100-, 4- and 1-year cycles of \<^verbatim>\<open>Time.Date\<close>.
\<close>

section \<open>Years and months\<close>

definition leap :: "int \<Rightarrow> bool" where
  "leap y \<longleftrightarrow> y mod 4 = 0 \<and> (y mod 100 \<noteq> 0 \<or> y mod 400 = 0)"

definition year_start :: "int \<Rightarrow> int" where
  "year_start y = 365 * (y - 1) + (y - 1) div 4 - (y - 1) div 100 + (y - 1) div 400 - 719162"

definition year_days :: "int \<Rightarrow> int" where
  "year_days y = (if leap y then 366 else 365)"

lemma div_step: "0 < (k :: int) \<Longrightarrow> y div k = (y - 1) div k + (if y mod k = 0 then 1 else 0)"
proof -
  assume k: "0 < k"
  have y: "y = k * (y div k) + y mod k" by simp
  show ?thesis
  proof (cases "y mod k = 0")
    case True
    have "y - 1 = k * (y div k - 1) + (k - 1)" using y True by (simp add: algebra_simps)
    hence "(y - 1) div k = y div k - 1" by (rule int_div_pos_eq) (use k in simp_all)
    thus ?thesis using True by simp
  next
    case False
    have "0 \<le> y mod k" "y mod k < k" using k by simp_all
    hence r: "0 \<le> y mod k - 1" "y mod k - 1 < k" using False by linarith+
    have "y - 1 = k * (y div k) + (y mod k - 1)" using y by linarith
    hence "(y - 1) div k = y div k" using r by (rule int_div_pos_eq)
    thus ?thesis using False by simp
  qed
qed

lemma year_start_step: "year_start (y + 1) = year_start y + year_days y"
proof -
  have "y mod 100 = 0 \<Longrightarrow> y mod 4 = 0" "y mod 400 = 0 \<Longrightarrow> y mod 100 = 0"
    using dvd_trans [of 4 100 y] dvd_trans [of 100 400 y] by (simp_all add: mod_eq_0_iff_dvd)
  hence "365 * y + q4 - q100 + q400 = 365 * (y - 1) + p4 - p100 + p400 + year_days y"
    if "q4 = p4 + (if y mod 4 = 0 then 1 else 0)" "q100 = p100 + (if y mod 100 = 0 then 1 else 0)"
      "q400 = p400 + (if y mod 400 = 0 then 1 else 0)" for q4 q100 q400 p4 p100 p400
    unfolding that year_days_def leap_def by (cases "y mod 4 = 0"; cases "y mod 100 = 0"; cases "y mod 400 = 0") simp_all
  note eq = this [OF div_step [of 4 y] div_step [of 100 y] div_step [of 400 y]]
  have shift: "x = z + w \<Longrightarrow> x - k = (z - k) + w" for x z w k :: int by simp
  have "y + 1 - 1 = y" by simp
  thus ?thesis unfolding year_start_def by (simp only: shift [OF eq])
qed

lemma year_start_mono: "y \<le> z \<Longrightarrow> year_start y \<le> year_start z"
proof (induction "nat (z - y)" arbitrary: z)
  case (Suc n)
  hence "year_start y \<le> year_start (z - 1)" by simp
  thus ?case using year_start_step [of "z - 1"] by (simp add: year_days_def split: if_splits)
qed simp

definition month_table :: "int list" where
  "month_table = [0, 31, 59, 90, 120, 151, 181, 212, 243, 273, 304, 334, 365]"

text \<open>Days of the year before the month \<open>m\<close>; the end of the year counts as
  month 13.\<close>

definition month_start :: "int \<Rightarrow> int \<Rightarrow> int" where
  "month_start y m = month_table ! nat (m - 1) + (if leap y \<and> 3 \<le> m then 1 else 0)"

definition civil_day :: "int \<Rightarrow> int \<Rightarrow> int \<Rightarrow> int" where
  "civil_day y m d =
     (let y' = y + (m - 1) div 12; m' = (m - 1) mod 12 + 1
      in year_start y' + month_start y' m' + (d - 1))"

section \<open>From days to dates\<close>

definition year_of :: "int \<Rightarrow> int" where
  "year_of n =
     (let d = n + 719162;
          n400 = d div 146097; d = d mod 146097;
          n100 = min (d div 36524) 3; d = d - 36524 * n100;
          n4 = d div 1461; d = d mod 1461;
          n1 = min (d div 365) 3
      in 400 * n400 + 100 * n100 + 4 * n4 + n1 + 1)"

text \<open>The cycles decompose the days since the first of January of year 1.\<close>

lemma year_start_cycles:
  assumes "0 \<le> b" "b \<le> 3" "0 \<le> c" "c \<le> 24" "0 \<le> e" "e \<le> 3"
  shows "year_start (400 * a + 100 * b + 4 * c + e + 1) = 146097 * a + 36524 * b + 1461 * c + 365 * e - 719162"
proof -
  let ?z = "400 * a + 100 * b + 4 * c + e"
  have "?z div 4 = 100 * a + 25 * b + c" by (rule int_div_pos_eq [of _ _ _ e]) (use assms in simp_all)
  moreover have "?z div 100 = 4 * a + b" by (rule int_div_pos_eq [of _ _ _ "4 * c + e"]) (use assms in simp_all)
  moreover have "?z div 400 = a" by (rule int_div_pos_eq [of _ _ _ "100 * b + 4 * c + e"]) (use assms in simp_all)
  ultimately show ?thesis by (simp add: year_start_def)
qed

lemma leap_cycles:
  assumes "0 \<le> b" "b \<le> 3" "0 \<le> c" "c \<le> 24"
  shows "leap (400 * a + 100 * b + 4 * c + 4) \<longleftrightarrow> c < 24 \<or> b = 3"
proof -
  let ?y = "400 * a + 100 * b + 4 * c + 4"
  have 4: "?y mod 4 = 0" by simp
  have 100: "?y mod 100 = (if c = 24 then 0 else 4 * c + 4)"
  proof (cases "c = 24")
    case True
    hence "?y = 100 * (4 * a + b + 1) + 0" by simp
    hence "?y mod 100 = 0" by (rule int_mod_pos_eq) simp_all
    thus ?thesis using True by simp
  next
    case False
    have "?y = 100 * (4 * a + b) + (4 * c + 4)" by simp
    hence "?y mod 100 = 4 * c + 4" by (rule int_mod_pos_eq) (use assms False in simp_all)
    thus ?thesis using False by simp
  qed
  have 400: "?y mod 400 = 0 \<longleftrightarrow> b = 3" if "c = 24"
  proof (cases "b = 3")
    case True
    hence "?y = 400 * (a + 1) + 0" using that by simp
    hence "?y mod 400 = 0" by (rule int_mod_pos_eq) simp_all
    thus ?thesis using True by simp
  next
    case False
    have "?y = 400 * a + (100 * b + 100)" using that by simp
    hence "?y mod 400 = 100 * b + 100" by (rule int_mod_pos_eq) (use assms False in simp_all)
    thus ?thesis using False assms by simp
  qed
  show ?thesis using 4 100 400 assms by (auto simp: leap_def)
qed

lemma div_mod_obtain:
  obtains q s where "x div numeral n = q" "x = numeral n * q + s" "0 \<le> s" "s < (numeral n :: int)"
  by (metis mult_div_mod_eq pos_mod_bound pos_mod_sign zero_less_numeral)

lemma year_of_bounds: "year_start (year_of n) \<le> n \<and> n < year_start (year_of n + 1)"
proof -
  define a where "a = (n + 719162) div 146097"
  define r where "r = (n + 719162) mod 146097"
  define b where "b = min (r div 36524) 3"
  define r1 where "r1 = r - 36524 * b"
  define c where "c = r1 div 1461"
  define r2 where "r2 = r1 mod 1461"
  define e where "e = min (r2 div 365) 3"
  have n: "n + 719162 = 146097 * a + r" "0 \<le> r" "r < 146097"
    unfolding a_def r_def by (simp_all only: mult_div_mod_eq pos_mod_bound pos_mod_sign zero_less_numeral)
  obtain q s where q: "r div 36524 = q" and r: "r = 36524 * q + s" "0 \<le> s" "s < 36524"
    by (rule div_mod_obtain)
  have q0: "0 \<le> q" using r n(2) by linarith
  have b: "0 \<le> b" "b \<le> 3" "0 \<le> r1" "b < 3 \<Longrightarrow> r1 < 36524" "r1 < 36525"
    unfolding b_def r1_def q min_def using n(2,3) r q0 by (auto split: if_splits)
  have r1: "r1 = 1461 * c + r2" "0 \<le> r2" "r2 < 1461"
    unfolding c_def r2_def by (simp_all only: mult_div_mod_eq pos_mod_bound pos_mod_sign zero_less_numeral)
  have c: "0 \<le> c" "c \<le> 24" using b(3,5) r1 by linarith+
  obtain p u where p: "r2 div 365 = p" and r2: "r2 = 365 * p + u" "0 \<le> u" "u < 365"
    by (rule div_mod_obtain)
  have p0: "0 \<le> p" using r2 r1(2) by linarith
  have e: "0 \<le> e" "e \<le> 3" "365 * e \<le> r2" "e < 3 \<Longrightarrow> r2 < 365 * e + 365" "r2 \<le> 365 * e + 365"
    unfolding e_def p min_def using r1(2,3) r2 p0 by (auto split: if_splits)
  have y: "year_of n = 400 * a + 100 * b + 4 * c + e + 1"
    by (simp only: year_of_def Let_def a_def r_def b_def r1_def c_def r2_def e_def)
  have start: "year_start (year_of n) = 146097 * a + 36524 * b + 1461 * c + 365 * e - 719162"
    unfolding y by (rule year_start_cycles) (use b c e in auto)
  have rest: "n - year_start (year_of n) = r2 - 365 * e" using n start r1 by (simp add: r1_def)
  have "r2 - 365 * e < year_days (year_of n)"
  proof (cases "r2 = 365 * e + 365")
    case True
    hence e3: "e = 3" using e(1,2,4) by linarith
    hence "c < 24 \<or> b = 3" using True r1 b(4) c b(2) by linarith
    moreover have "year_of n = 400 * a + 100 * b + 4 * c + 4" using y e3 by simp
    ultimately have "leap (year_of n)" using leap_cycles [of b c a] b c by metis
    thus ?thesis using True by (simp add: year_days_def)
  next
    case False
    thus ?thesis using e(5) by (simp add: year_days_def)
  qed
  thus ?thesis using rest e(3) by (simp add: year_start_step)
qed

lemma year_of_eqI:
  assumes "year_start y \<le> n" "n < year_start (y + 1)"
  shows "year_of n = y"
proof (rule antisym)
  show "year_of n \<le> y"
    using year_of_bounds [of n] assms year_start_mono [of "y + 1" "year_of n"] by linarith
  show "y \<le> year_of n"
    using year_of_bounds [of n] assms year_start_mono [of "year_of n + 1" y] by linarith
qed

definition yday_of :: "int \<Rightarrow> int" where
  "yday_of n = n - year_start (year_of n)"

definition month_of :: "int \<Rightarrow> int" where
  "month_of n = int (length (filter (\<lambda>m. month_start (year_of n) m \<le> yday_of n) [1..12]))"

definition day_of :: "int \<Rightarrow> int" where
  "day_of n = yday_of n - month_start (year_of n) (month_of n) + 1"

definition weekday_of :: "int \<Rightarrow> int" where
  "weekday_of n = (n + 4) mod 7"

section \<open>Months\<close>

lemma month_start_ends: "month_start y 1 = 0" "month_start y 13 = year_days y"
  by (simp_all add: month_start_def month_table_def year_days_def)

lemma month_start_step:
  assumes "1 \<le> m" "m \<le> 12"
  shows "month_start y m + 28 \<le> month_start y (m + 1)" "month_start y (m + 1) \<le> month_start y m + 31"
proof -
  have "m \<in> {1, 2, 3, 4, 5, 6, 7, 8, 9, 10, 11, 12}" using assms by (cases "m \<le> 6") auto
  thus "month_start y m + 28 \<le> month_start y (m + 1)" "month_start y (m + 1) \<le> month_start y m + 31"
    by (auto simp: month_start_def month_table_def)
qed

lemma month_start_mono: "1 \<le> m \<Longrightarrow> m \<le> k \<Longrightarrow> k \<le> 13 \<Longrightarrow> month_start y m \<le> month_start y k"
proof (induction "nat (k - m)" arbitrary: k)
  case (Suc n)
  have "month_start y m \<le> month_start y (k - 1)" by (rule Suc.hyps(1)) (use Suc in auto)
  moreover have "month_start y (k - 1) + 28 \<le> month_start y (k - 1 + 1)"
    by (rule month_start_step) (use Suc in auto)
  ultimately show ?case by simp
qed simp

lemma month_exists:
  assumes "0 \<le> d" "d < year_days y"
  obtains m where "1 \<le> m" "m \<le> 12" "month_start y m \<le> d" "d < month_start y (m + 1)"
proof -
  have "\<exists>m. 1 \<le> m \<and> m < k \<and> month_start y m \<le> d \<and> d < month_start y (m + 1)"
    if "d < month_start y k" "1 \<le> k" for k
    using that
  proof (induction "nat k" arbitrary: k)
    case (Suc n)
    show ?case
    proof (cases "d < month_start y (k - 1)")
      case True
      hence "k \<noteq> 1" using Suc.prems assms(1) by (auto simp: month_start_ends)
      hence "\<exists>m. 1 \<le> m \<and> m < k - 1 \<and> month_start y m \<le> d \<and> d < month_start y (m + 1)"
        using True Suc by (intro Suc.hyps(1)) auto
      thus ?thesis by (metis less_trans zless_add1_eq diff_add_cancel)
    next
      case False
      have "k \<noteq> 1" using Suc.prems assms(1) by (auto simp: month_start_ends)
      hence "1 \<le> k - 1" using Suc.prems by simp
      thus ?thesis using False Suc.prems by (intro exI [of _ "k - 1"]) simp
    qed
  qed simp
  from this [of 13] assms(2) that show ?thesis by (auto simp: month_start_ends)
qed

lemma month_of_eqI:
  assumes "1 \<le> m" "m \<le> 12" "month_start (year_of n) m \<le> yday_of n" "yday_of n < month_start (year_of n) (m + 1)"
  shows "month_of n = m"
proof -
  let ?P = "\<lambda>i. month_start (year_of n) i \<le> yday_of n"
  have split: "[1..12] = [1..m] @ [m + 1..12]" using assms(1,2) by (rule upto_split2)
  have "?P i" if "i \<in> set [1..m]" for i
    using that assms month_start_mono [of i m "year_of n"] by simp
  hence low: "filter ?P [1..m] = [1..m]" by (rule filter_True [rule_format])
  have "\<not> ?P i" if "i \<in> set [m + 1..12]" for i
    using that assms month_start_mono [of "m + 1" i "year_of n"] by simp
  hence high: "filter ?P [m + 1..12] = []" by (rule filter_False [rule_format])
  show ?thesis unfolding month_of_def split filter_append low high using assms(1) by simp
qed

lemma yday_bounds: "0 \<le> yday_of n" "yday_of n < year_days (year_of n)"
  using year_of_bounds [of n] by (simp_all add: yday_of_def year_start_step)

lemma month_of_bounds:
  "1 \<le> month_of n" "month_of n \<le> 12"
  "month_start (year_of n) (month_of n) \<le> yday_of n" "yday_of n < month_start (year_of n) (month_of n + 1)"
proof -
  obtain m where m: "1 \<le> m" "m \<le> 12" "month_start (year_of n) m \<le> yday_of n"
    "yday_of n < month_start (year_of n) (m + 1)"
    using month_exists yday_bounds by metis
  hence "month_of n = m" by (rule month_of_eqI)
  thus "1 \<le> month_of n" "month_of n \<le> 12"
    "month_start (year_of n) (month_of n) \<le> yday_of n" "yday_of n < month_start (year_of n) (month_of n + 1)"
    using m by simp_all
qed

lemma day_of_bounds: "1 \<le> day_of n" "day_of n \<le> 31"
  using month_of_bounds [of n] month_start_step(2) [of "month_of n" "year_of n"] by (simp_all add: day_of_def)

lemma weekday_bounds: "0 \<le> weekday_of n" "weekday_of n \<le> 6"
  by (simp_all add: weekday_of_def)

text \<open>The date of a day leads back to the day, also when the day of the month is
  counted on beyond the end of the month; the month after the last one is the
  first of the following year.\<close>

lemma civil_day_in_year: "1 \<le> m \<Longrightarrow> m \<le> 12 \<Longrightarrow> civil_day y m d = year_start y + month_start y m + (d - 1)"
  by (simp add: civil_day_def Let_def div_pos_pos_trivial mod_pos_pos_trivial)

lemma civil_day_of: "civil_day (year_of n) (month_of n) (day_of n + k) = n + k"
  using month_of_bounds [of n] by (simp add: civil_day_in_year day_of_def yday_of_def)

lemma civil_day_next_month:
  assumes "1 \<le> m" "m \<le> 12"
  shows "civil_day y (m + 1) 1 = year_start y + month_start y (m + 1)"
proof (cases "m = 12")
  case True
  thus ?thesis using year_start_step [of y] month_start_ends [of y] month_start_ends(1) [of "y + 1"]
    by (simp add: civil_day_def Let_def)
next
  case False
  thus ?thesis using assms by (simp add: civil_day_in_year)
qed

text \<open>All days up to the first of the next month are in the same month.\<close>

lemma same_month:
  assumes "n \<le> k" "k < civil_day (year_of n) (month_of n + 1) 1"
  shows "year_of k = year_of n" "month_of k = month_of n"
proof -
  let ?y = "year_of n" and ?m = "month_of n"
  note m = month_of_bounds [of n]
  have k: "k < year_start ?y + month_start ?y (?m + 1)" using assms(2) m by (simp add: civil_day_next_month)
  have "month_start ?y (?m + 1) \<le> month_start ?y 13" using m by (intro month_start_mono) auto
  hence "k < year_start (?y + 1)" using k by (simp add: year_start_step month_start_ends)
  moreover have "year_start ?y \<le> k" using year_of_bounds [of n] assms(1) by linarith
  ultimately show y: "year_of k = ?y" by (intro year_of_eqI)
  have "yday_of n \<le> yday_of k" "yday_of k < month_start ?y (?m + 1)"
    using assms(1) k y by (simp_all add: yday_of_def)
  thus "month_of k = ?m" using m y by (intro month_of_eqI) simp_all
qed

lemma next_month_later: "n < civil_day (year_of n) (month_of n + 1) 1"
  using month_of_bounds [of n] by (simp add: civil_day_next_month yday_of_def)

section \<open>Times\<close>

text \<open>The fields of a time in nanoseconds, and \<^verbatim>\<open>time.Date\<close>, which normalises
  months, days, hours and minutes beyond their range.\<close>

definition ns_second :: int where "ns_second = 1000000000"
definition ns_minute :: int where "ns_minute = 60 * ns_second"
definition ns_hour :: int where "ns_hour = 60 * ns_minute"
definition ns_day :: int where "ns_day = 24 * ns_hour"

definition Year :: "int \<Rightarrow> int" where "Year t = year_of (t div ns_day)"
definition Month :: "int \<Rightarrow> int" where "Month t = month_of (t div ns_day)"
definition Day :: "int \<Rightarrow> int" where "Day t = day_of (t div ns_day)"
definition Weekday :: "int \<Rightarrow> int" where "Weekday t = weekday_of (t div ns_day)"
definition Hour :: "int \<Rightarrow> int" where "Hour t = (t div ns_hour) mod 24"
definition Minute :: "int \<Rightarrow> int" where "Minute t = (t div ns_minute) mod 60"
definition Second :: "int \<Rightarrow> int" where "Second t = (t div ns_second) mod 60"

definition time_Date :: "int \<Rightarrow> int \<Rightarrow> int \<Rightarrow> int \<Rightarrow> int \<Rightarrow> int \<Rightarrow> int" where
  "time_Date y m d h mi s = civil_day y m d * ns_day + h * ns_hour + mi * ns_minute + s * ns_second"

definition Truncate :: "int \<Rightarrow> int \<Rightarrow> int" where
  "Truncate t unit = t div unit * unit"

lemmas ns_units = ns_day_def ns_hour_def ns_minute_def ns_second_def

lemma ns_pos [simp]: "0 < ns_second" "0 < ns_minute" "0 < ns_hour" "0 < ns_day"
  by (simp_all add: ns_units)

lemma block_next: "0 < (k :: int) \<Longrightarrow> t < (t div k + 1) * k"
proof -
  assume "0 < k"
  hence "t mod k < k" by (rule pos_mod_bound)
  thus ?thesis using div_mult_mod_eq [of t k] unfolding distrib_right mult_1 by linarith
qed

lemma block_below: "0 < (k :: int) \<Longrightarrow> t div k * k \<le> t"
  using div_mult_mod_eq [of t k] pos_mod_sign [of k t] by linarith

lemma block_same: "0 < (k :: int) \<Longrightarrow> t \<le> u \<Longrightarrow> u < (t div k + 1) * k \<Longrightarrow> u div k = t div k"
proof (rule antisym)
  assume k: "0 < k" "t \<le> u" "u < (t div k + 1) * k"
  show "t div k \<le> u div k" using k by (simp add: zdiv_mono1)
  have "u div k * k < (t div k + 1) * k" using k(3) block_below [OF k(1), of u] by linarith
  hence "u div k < t div k + 1" using k(1) by (metis mult_less_cancel_right_disj not_less_iff_gr_or_eq)
  thus "u div k \<le> t div k" by simp
qed

lemma div_units:
  "t div ns_minute = t div ns_second div 60" "t div ns_hour = t div ns_minute div 60" "t div ns_day = t div ns_hour div 24"
  unfolding ns_day_def ns_hour_def ns_minute_def by (simp_all add: zdiv_zmult2_eq mult.commute)

lemma hours_decompose: "t div ns_hour = 24 * (t div ns_day) + Hour t"
  and minutes_decompose: "t div ns_minute = 60 * (t div ns_hour) + Minute t"
  unfolding Hour_def Minute_def div_units(2,3) by (simp_all only: mult_div_mod_eq)

lemma time_Date_next_month:
  "time_Date (Year t) (Month t + 1) 1 0 0 0 = civil_day (year_of (t div ns_day)) (month_of (t div ns_day) + 1) 1 * ns_day"
  by (simp add: time_Date_def Year_def Month_def)

lemma time_Date_next_day: "time_Date (Year t) (Month t) (Day t + 1) 0 0 0 = (t div ns_day + 1) * ns_day"
  unfolding time_Date_def Year_def Month_def Day_def civil_day_of by simp

lemma civil_day_today: "civil_day (Year t) (Month t) (Day t) = t div ns_day"
  using civil_day_of [of "t div ns_day" 0] by (simp add: Year_def Month_def Day_def)

lemma time_Date_next_hour: "time_Date (Year t) (Month t) (Day t) (Hour t + 1) 0 0 = (t div ns_hour + 1) * ns_hour"
  unfolding time_Date_def civil_day_today hours_decompose by (simp add: ns_day_def algebra_simps)

lemma time_Date_next_minute:
  "time_Date (Year t) (Month t) (Day t) (Hour t) (Minute t + 1) 0 = (t div ns_minute + 1) * ns_minute"
  unfolding time_Date_def civil_day_today minutes_decompose hours_decompose by (simp add: ns_day_def ns_hour_def algebra_simps)

lemma next_month_after: "t < time_Date (Year t) (Month t + 1) 1 0 0 0"
proof -
  have "t div ns_day + 1 \<le> civil_day (year_of (t div ns_day)) (month_of (t div ns_day) + 1) 1"
    using next_month_later [of "t div ns_day"] by simp
  hence "(t div ns_day + 1) * ns_day \<le> time_Date (Year t) (Month t + 1) 1 0 0 0"
    unfolding time_Date_next_month by (intro mult_right_mono) (simp_all add: ns_units)
  thus ?thesis using block_next [of ns_day t] by simp
qed

lemma month_until_next_month:
  assumes "t \<le> u" "u < time_Date (Year t) (Month t + 1) 1 0 0 0"
  shows "Month u = Month t"
proof -
  have "u div ns_day * ns_day < civil_day (year_of (t div ns_day)) (month_of (t div ns_day) + 1) 1 * ns_day"
    using assms(2) block_below [of ns_day u] unfolding time_Date_next_month by (intro le_less_trans [OF block_below]) simp_all
  hence "u div ns_day < civil_day (year_of (t div ns_day)) (month_of (t div ns_day) + 1) 1"
    by (rule mult_right_less_imp_less) (simp add: ns_units)
  thus ?thesis unfolding Month_def using assms(1) by (intro same_month) (simp_all add: zdiv_mono1)
qed

lemma field_ranges:
  "1 \<le> Month t" "Month t \<le> 12" "1 \<le> Day t" "Day t \<le> 31" "0 \<le> Weekday t" "Weekday t \<le> 6"
  "0 \<le> Hour t" "Hour t \<le> 23" "0 \<le> Minute t" "Minute t \<le> 59" "0 \<le> Second t" "Second t \<le> 59"
  by (simp_all add: Month_def Day_def Weekday_def Hour_def Minute_def Second_def month_of_bounds day_of_bounds weekday_bounds)

end
