(* ===== verification/Cron_Schedule.thy ===== *)
theory Cron_Schedule
  imports Go_Strings Civil_Calendar
begin

text \<open>
  Cron expressions (\<^verbatim>\<open>core/pkg/serverless/triggers/cron_parser.go\<close>): the parser
  of a field into a bit mask, the parser of an expression, and the search for
  the next occurrence.

  A field is a 64-bit mask.  The counting loop of a field runs on 64-bit
  integers, whose sum with the step may wrap around; it is a partial function,
  and a loop that did not end would be the error \<open>LoopDiverges\<close>.  Error messages
  are represented by their constructor; times are UTC.
\<close>

section \<open>Fields\<close>

type_synonym fieldMatcher = "64 word"

datatype cron_error =
  EmptyExpression | WrongFieldCount nat | EmptyField | BadStep string | BadRange string | BadValue string
| OutOfRange int int | LoopDiverges | NoMatchWithin5Years

definition field_match :: "fieldMatcher \<Rightarrow> int \<Rightarrow> bool" where
  "field_match f v = (if v < 0 \<or> 64 \<le> v then False else bit f (nat v))"

text \<open>\<^verbatim>\<open>1 << uint(v)\<close>: the shift count of a negative \<open>v\<close> is at least \<open>2\<^sup>6\<^sup>3\<close>, and
  shifting by 64 or more gives zero.\<close>

definition shift_one :: "int \<Rightarrow> fieldMatcher" where
  "shift_one v = (if 0 \<le> v \<and> v < 64 then push_bit (nat v) 1 else 0)"

definition add64 :: "int \<Rightarrow> int \<Rightarrow> int" where
  "add64 a b = (a + b + 2 ^ 63) mod 2 ^ 64 - 2 ^ 63"

partial_function (option) mask_loop :: "int \<Rightarrow> int \<Rightarrow> int \<Rightarrow> fieldMatcher \<Rightarrow> fieldMatcher option" where
  "mask_loop v rangeHi step bits =
     (if v \<le> rangeHi
      then mask_loop (add64 v step) rangeHi step (if 64 \<le> v then bits else bits OR shift_one v)
      else Some bits)"

definition segment_step :: "string \<Rightarrow> (cron_error, int \<times> string) result" where
  "segment_step seg =
     (case cut_at (CHR ''/'') seg of
        None \<Rightarrow> Inr (1, seg)
      | Some (before, after) \<Rightarrow>
          (case Atoi after of
             Some n \<Rightarrow> if n \<le> 0 then Inl (BadStep seg) else Inr (n, before)
           | None \<Rightarrow> Inl (BadStep seg)))"

definition segment_range :: "string \<Rightarrow> int \<Rightarrow> int \<Rightarrow> (cron_error, int \<times> int) result" where
  "segment_range seg lo hi =
     (if seg = ''*'' then Inr (lo, hi)
      else case cut_at (CHR ''-'') seg of
        Some (a, b) \<Rightarrow>
          (case (Atoi a, Atoi b) of (Some m, Some n) \<Rightarrow> Inr (m, n) | _ \<Rightarrow> Inl (BadRange seg))
      | None \<Rightarrow> (case Atoi seg of Some n \<Rightarrow> Inr (n, n) | None \<Rightarrow> Inl (BadValue seg)))"

definition parse_segment :: "int \<Rightarrow> int \<Rightarrow> string \<Rightarrow> fieldMatcher \<Rightarrow> (cron_error, fieldMatcher) result" where
  "parse_segment lo hi segment bits =
     result_bind (segment_step (TrimSpace segment)) (\<lambda>(step, seg).
       result_bind (segment_range seg lo hi) (\<lambda>(rangeLo, rangeHi).
         if rangeLo < lo \<or> hi < rangeHi \<or> rangeHi < rangeLo then Inl (OutOfRange rangeLo rangeHi)
         else case mask_loop rangeLo rangeHi step bits of None \<Rightarrow> Inl LoopDiverges | Some bits' \<Rightarrow> Inr bits'))"

fun parse_segments :: "int \<Rightarrow> int \<Rightarrow> string list \<Rightarrow> fieldMatcher \<Rightarrow> (cron_error, fieldMatcher) result" where
  "parse_segments lo hi [] bits = Inr bits"
| "parse_segments lo hi (seg # segs) bits =
     result_bind (parse_segment lo hi seg bits) (parse_segments lo hi segs)"

definition parseField :: "string \<Rightarrow> int \<Rightarrow> int \<Rightarrow> (cron_error, fieldMatcher) result" where
  "parseField s lo hi = (if s = [] then Inl EmptyField else parse_segments lo hi (strings_Split s (CHR '','')) 0)"

section \<open>Expressions\<close>

record CronExpression =
  hasSeconds :: bool
  cron_seconds :: fieldMatcher
  cron_minutes :: fieldMatcher
  cron_hours :: fieldMatcher
  cron_dom :: fieldMatcher
  cron_month :: fieldMatcher
  cron_dow :: fieldMatcher
  cron_expr :: string

text \<open>Sunday is 0 or 7.\<close>

definition normalise_dow :: "fieldMatcher \<Rightarrow> fieldMatcher" where
  "normalise_dow dow = (if field_match dow 7 then dow OR 1 else dow) AND 0x7F"

definition ParseCron :: "string \<Rightarrow> (cron_error, CronExpression) result" where
  "ParseCron expr0 =
     (let expr = TrimSpace expr0; parts = Fields expr in
      if expr = [] then Inl EmptyExpression
      else if length parts \<noteq> 5 \<and> length parts \<noteq> 6 then Inl (WrongFieldCount (length parts))
      else let hasSecs = (length parts = 6); rest = (if hasSecs then tl parts else parts) in
        result_bind (if hasSecs then parseField (hd parts) 0 59 else Inr 0) (\<lambda>s.
        result_bind (parseField (rest ! 0) 0 59) (\<lambda>min.
        result_bind (parseField (rest ! 1) 0 23) (\<lambda>hr.
        result_bind (parseField (rest ! 2) 1 31) (\<lambda>dom.
        result_bind (parseField (rest ! 3) 1 12) (\<lambda>mo.
        result_bind (parseField (rest ! 4) 0 7) (\<lambda>dow.
          Inr \<lparr>hasSeconds = hasSecs, cron_seconds = s, cron_minutes = min, cron_hours = hr, cron_dom = dom,
               cron_month = mo, cron_dow = normalise_dow dow, cron_expr = expr\<rparr>)))))))"

section \<open>The next occurrence\<close>

definition search_horizon :: int where "search_horizon = 5 * 365 * 24 * ns_hour"

definition first_candidate :: "CronExpression \<Rightarrow> int \<Rightarrow> int" where
  "first_candidate c after = (if hasSeconds c then Truncate (after + ns_second) ns_second
     else Truncate (after + ns_minute) ns_minute)"

text \<open>One iteration of the search: the time to try next, or \<^term>\<open>None\<close> when the
  time matches.\<close>

definition next_step :: "CronExpression \<Rightarrow> int \<Rightarrow> int option" where
  "next_step c t =
     (if \<not> field_match (cron_month c) (Month t) then Some (time_Date (Year t) (Month t + 1) 1 0 0 0)
      else if \<not> field_match (cron_dom c) (Day t) \<or> \<not> field_match (cron_dow c) (Weekday t)
      then Some (time_Date (Year t) (Month t) (Day t + 1) 0 0 0)
      else if \<not> field_match (cron_hours c) (Hour t) then Some (time_Date (Year t) (Month t) (Day t) (Hour t + 1) 0 0)
      else if \<not> field_match (cron_minutes c) (Minute t)
      then Some (time_Date (Year t) (Month t) (Day t) (Hour t) (Minute t + 1) 0)
      else if hasSeconds c \<and> \<not> field_match (cron_seconds c) (Second t) then Some (t + ns_second)
      else None)"

lemma next_step_later: "next_step c t = Some u \<Longrightarrow> t < u"
  using next_month_after [of t] block_next [of ns_day t] block_next [of ns_hour t] block_next [of ns_minute t]
  by (auto simp: next_step_def time_Date_next_day time_Date_next_hour time_Date_next_minute split: if_splits)

function next_loop :: "CronExpression \<Rightarrow> int \<Rightarrow> int \<Rightarrow> (cron_error, int) result" where
  "next_loop c deadline t =
     (if t < deadline
      then (case next_step c t of Some u \<Rightarrow> next_loop c deadline u | None \<Rightarrow> Inr t)
      else Inl NoMatchWithin5Years)"
  by pat_completeness auto

termination
  by (relation "measure (\<lambda>(c, deadline, t). nat (deadline - t))") (auto dest: next_step_later)

declare next_loop.simps [simp del]

definition Next :: "CronExpression \<Rightarrow> int \<Rightarrow> (cron_error, int) result" where
  "Next c after = next_loop c (after + search_horizon) (first_candidate c after)"

section \<open>What an expression means\<close>

text \<open>The occurrences of an expression: whole seconds, or whole minutes if it has no
  field for seconds, at which every field matches.\<close>

definition cron_matches :: "CronExpression \<Rightarrow> int \<Rightarrow> bool" where
  "cron_matches c t \<longleftrightarrow>
     field_match (cron_month c) (Month t) \<and> field_match (cron_dom c) (Day t) \<and> field_match (cron_dow c) (Weekday t)
     \<and> field_match (cron_hours c) (Hour t) \<and> field_match (cron_minutes c) (Minute t)
     \<and> (if hasSeconds c then field_match (cron_seconds c) (Second t) else Second t = 0)
     \<and> t mod ns_second = 0"

definition cron_unit :: "CronExpression \<Rightarrow> int" where
  "cron_unit c = (if hasSeconds c then ns_second else ns_minute)"

lemma cron_unit_pos [simp]: "0 < cron_unit c"
  by (simp add: cron_unit_def)

lemma minute_aligned: "t mod ns_minute = 0 \<longleftrightarrow> Second t = 0 \<and> t mod ns_second = 0"
proof -
  have "t mod ns_minute = ns_second * (t div ns_second mod 60) + t mod ns_second"
    unfolding ns_minute_def mult.commute [of 60] by (rule zmod_zmult2_eq) simp
  moreover have "0 \<le> t mod ns_second" by simp
  moreover have "0 \<le> ns_second * (t div ns_second mod 60)" by (intro mult_nonneg_nonneg) (simp_all add: less_imp_le)
  ultimately show ?thesis unfolding Second_def by (auto simp: add_nonneg_eq_0_iff)
qed

lemma matches_aligned: "cron_matches c t \<Longrightarrow> t mod cron_unit c = 0"
  by (auto simp: cron_matches_def cron_unit_def minute_aligned split: if_splits)

text \<open>No occurrence is skipped by a step of the search.\<close>

lemma mult_aligned: "cron_unit c dvd k \<Longrightarrow> (q * k) mod cron_unit c = 0"
  by (simp add: mod_eq_0_iff_dvd)

lemma unit_dvd: "cron_unit c dvd ns_minute" "cron_unit c dvd ns_hour" "cron_unit c dvd ns_day"
  by (auto simp: cron_unit_def ns_day_def ns_hour_def ns_minute_def)

lemma next_step_skips:
  assumes "next_step c t = Some u" "t mod cron_unit c = 0"
  shows "u mod cron_unit c = 0" "t \<le> v \<Longrightarrow> v < u \<Longrightarrow> \<not> cron_matches c v"
proof -
  note dates = time_Date_next_month time_Date_next_day time_Date_next_hour time_Date_next_minute
  have secs: "hasSeconds c \<Longrightarrow> (t + ns_second) mod cron_unit c = 0"
    using assms(2) by (simp add: cron_unit_def mod_add_eq [symmetric])
  show "u mod cron_unit c = 0"
    using assms(1) secs by (auto simp: next_step_def dates mult_aligned unit_dvd split: if_splits)
  assume v: "t \<le> v" "v < u"
  have same: "v div ns_hour = t div ns_hour \<Longrightarrow> Hour v = Hour t" "v div ns_minute = t div ns_minute \<Longrightarrow> Minute v = Minute t"
    "v div ns_second = t div ns_second \<Longrightarrow> Second v = Second t"
    "v div ns_day = t div ns_day \<Longrightarrow> Day v = Day t \<and> Weekday v = Weekday t"
    by (simp_all add: Hour_def Minute_def Second_def Day_def Weekday_def)
  have sec: "v div ns_second = t div ns_second" if "u = t + ns_second" "hasSeconds c"
  proof (rule block_same [OF _ v(1)])
    have "t = t div ns_second * ns_second"
      using assms(2) that(2) div_mult_mod_eq [of t ns_second] by (simp add: cron_unit_def)
    thus "v < (t div ns_second + 1) * ns_second" using v(2) that(1) unfolding distrib_right mult_1 by linarith
  qed simp
  show "\<not> cron_matches c v"
    using assms(1) v same month_until_next_month [OF v(1)] sec
      block_same [OF ns_pos(4) v(1)] block_same [OF ns_pos(3) v(1)] block_same [OF ns_pos(2) v(1)]
    unfolding next_step_def cron_matches_def time_Date_next_day time_Date_next_hour time_Date_next_minute
    by (auto split: if_splits)
qed

lemma next_step_matches: "next_step c t = None \<Longrightarrow> t mod cron_unit c = 0 \<Longrightarrow> cron_matches c t"
  by (auto simp: next_step_def cron_matches_def cron_unit_def minute_aligned split: if_splits)

lemma next_loop_first:
  assumes "t mod cron_unit c = 0"
  shows "case next_loop c deadline t of
      Inr u \<Rightarrow> t \<le> u \<and> u < deadline \<and> cron_matches c u \<and> (\<forall>v. t \<le> v \<and> v < u \<longrightarrow> \<not> cron_matches c v)
    | Inl e \<Rightarrow> e = NoMatchWithin5Years \<and> (\<forall>v. t \<le> v \<and> v < deadline \<longrightarrow> \<not> cron_matches c v)"
  using assms
proof (induction c deadline t rule: next_loop.induct)
  case (1 c deadline t)
  show ?case
  proof (cases "t < deadline")
    case early: True
    show ?thesis
    proof (cases "next_step c t")
      case None
      thus ?thesis using early 1(2) next_step_matches [of c t] by (auto simp: next_loop.simps [of c deadline t])
    next
      case (Some u)
      note skip = next_step_skips [OF Some 1(2)]
      have "t < u" using Some by (rule next_step_later)
      moreover have "next_loop c deadline t = next_loop c deadline u"
        using early Some by (simp add: next_loop.simps [of c deadline t])
      ultimately show ?thesis
        using 1(1) [OF early Some skip(1)] skip(2) by (auto split: sum.splits) (meson not_le)+
    qed
  qed (auto simp: next_loop.simps [of c deadline t])
qed

lemma first_candidate_eq: "first_candidate c after = (after div cron_unit c + 1) * cron_unit c"
  using less_imp_neq [OF ns_pos(1)] less_imp_neq [OF ns_pos(2)]
  by (simp add: first_candidate_def Truncate_def cron_unit_def div_add_self2)

lemma before_first_candidate:
  assumes "after < v" "v < first_candidate c after"
  shows "\<not> cron_matches c v"
proof
  assume "cron_matches c v"
  hence "v = v div cron_unit c * cron_unit c"
    using matches_aligned div_mult_mod_eq [of v "cron_unit c"] by (metis add.right_neutral)
  moreover have "v div cron_unit c = after div cron_unit c"
    using assms by (intro block_same) (simp_all add: first_candidate_eq)
  ultimately have "v \<le> after" using block_below [of "cron_unit c" after] by simp
  thus False using assms(1) by simp
qed

section \<open>The counting loop of a field\<close>

lemma field_match_or_shift:
  "field_match (bits OR shift_one v) w \<longleftrightarrow> field_match bits w \<or> (w = v \<and> 0 \<le> v \<and> v < 64)"
  by (auto simp: field_match_def shift_one_def bit_or_iff push_bit_of_1 bit_exp_iff possible_bit_word)

lemma field_match_0 [simp]: "\<not> field_match 0 w"
  by (simp add: field_match_def)

lemma field_match_range: "field_match f w \<Longrightarrow> 0 \<le> w \<and> w < 64"
  by (auto simp: field_match_def split: if_splits)

lemma add64_small: "- (2 ^ 63) \<le> a + b \<Longrightarrow> a + b < 2 ^ 63 \<Longrightarrow> add64 a b = a + b"
  by (simp add: add64_def mod_pos_pos_trivial)

lemma add64_wrap: "2 ^ 63 \<le> a + b \<Longrightarrow> a + b < 2 ^ 64 + 2 ^ 63 \<Longrightarrow> add64 a b = a + b - 2 ^ 64"
proof -
  assume "2 ^ 63 \<le> a + b" "a + b < 2 ^ 64 + 2 ^ 63"
  hence "(a + b + 2 ^ 63) mod 2 ^ 64 = a + b - 2 ^ 63"
    by (intro int_mod_pos_eq [of _ _ 1]) simp_all
  thus ?thesis by (simp add: add64_def)
qed

text \<open>A step that cannot overflow visits every \<open>step\<close>-th value of the range.\<close>

lemma mask_loop_counts:
  assumes "0 \<le> v" "hi < 64" "0 < step" "step \<le> MaxInt64 - 63"
  shows "\<exists>m. mask_loop v hi step bits = Some m \<and>
    (\<forall>w. field_match m w \<longleftrightarrow> field_match bits w \<or> (v \<le> w \<and> w \<le> hi \<and> (w - v) mod step = 0))"
  using assms(1)
proof (induction "nat (hi + 1 - v)" arbitrary: v bits rule: less_induct)
  case less
  show ?case
  proof (cases "v \<le> hi")
    case False
    thus ?thesis by (auto simp: mask_loop.simps [of v])
  next
    case True
    have a: "add64 v step = v + step"
      using True assms less.prems by (intro add64_small) (auto simp: MaxInt64_def)
    obtain m where m: "mask_loop (v + step) hi step (bits OR shift_one v) = Some m"
      "\<And>w. field_match m w \<longleftrightarrow> field_match (bits OR shift_one v) w
         \<or> (v + step \<le> w \<and> w \<le> hi \<and> (w - (v + step)) mod step = 0)"
      using less.hyps [of "v + step" "bits OR shift_one v"] True assms less.prems by fastforce
    have "mask_loop v hi step bits = Some m"
      using True a m(1) assms(2) by (simp add: mask_loop.simps [of v])
    moreover have "(w = v \<and> v < 64) \<or> (v + step \<le> w \<and> w \<le> hi \<and> (w - (v + step)) mod step = 0)
        \<longleftrightarrow> v \<le> w \<and> w \<le> hi \<and> (w - v) mod step = 0" for w
    proof -
      have "(w - (v + step)) mod step = (w - v) mod step"
        by (metis add_diff_cancel_right' diff_diff_eq minus_mod_self2)
      moreover have "v + step \<le> w \<or> w = v" if "v \<le> w" "(w - v) mod step = 0"
        using that assms(3) zdvd_imp_le [of step "w - v"] by (auto simp: mod_eq_0_iff_dvd)
      ultimately show ?thesis using True assms(2,3) by auto
    qed
    ultimately show ?thesis using m(2) less.prems by (auto simp: field_match_or_shift)
  qed
qed

text \<open>A step within 63 of the largest integer wraps around: the loop visits every
  other multiple downwards, and still ends.\<close>

lemma mask_loop_wraps:
  assumes "- 64 \<le> v" "v < 64" "hi < 64" "MaxInt64 - 63 < step" "step \<le> MaxInt64"
  shows "\<exists>m. mask_loop v hi step bits = Some m \<and> (\<forall>w. field_match m w \<longrightarrow> field_match bits w \<or> w \<le> hi)"
  using assms(1,2)
proof (induction "nat (v + 64)" arbitrary: v bits rule: less_induct)
  case less
  define k where "k = 2 ^ 63 - step"
  have k: "1 \<le> k" "k \<le> 63" "step = 2 ^ 63 - k" using assms(4,5) by (simp_all add: k_def MaxInt64_def)
  let ?b = "bits OR shift_one v"
  show ?case
  proof (cases "v \<le> hi")
    case False
    thus ?thesis by (auto simp: mask_loop.simps [of v])
  next
    case True
    have unfold1: "mask_loop v hi step bits = mask_loop (add64 v step) hi step ?b"
      using True less.prems by (simp add: mask_loop.simps [of v])
    have bits: "field_match ?b w \<Longrightarrow> field_match bits w \<or> w \<le> hi" for w
      using True by (auto simp: field_match_or_shift)
    show ?thesis
    proof (cases "v < k")
      case True
      have "add64 v step = v + step" using True k less.prems by (intro add64_small) auto
      moreover have "hi < v + step" using less.prems k assms(3) by simp
      ultimately show ?thesis using unfold1 bits by (simp add: mask_loop.simps [of "v + step"])
    next
      case False
      have w1: "add64 v step = v - 2 ^ 63 - k"
        using False k less.prems add64_wrap [of v step] by simp
      have w2: "add64 (v - 2 ^ 63 - k) step = v - 2 * k"
        using False k less.prems add64_small [of "v - 2 ^ 63 - k" step] by simp
      have "v - 2 ^ 63 - k \<le> hi" using True k less.prems by simp
      moreover have "?b OR shift_one (v - 2 ^ 63 - k) = ?b"
        using k less.prems by (simp add: shift_one_def)
      ultimately have "mask_loop (v - 2 ^ 63 - k) hi step ?b = mask_loop (v - 2 * k) hi step ?b"
        using w2 less.prems k(1,2) by (subst mask_loop.simps) simp
      moreover obtain m where "mask_loop (v - 2 * k) hi step ?b = Some m"
        "\<forall>w. field_match m w \<longrightarrow> field_match ?b w \<or> w \<le> hi"
        using less.hyps [of "v - 2 * k" ?b] False k less.prems by fastforce
      ultimately show ?thesis using unfold1 w1 bits by auto
    qed
  qed
qed

text \<open>The values such a loop marks: with the step \<open>2\<^sup>6\<^sup>3 - k\<close> two additions wrap to
  a net decrease of \<open>2 k\<close>, so it marks the start and every \<open>2 k\<close>-th value below it.\<close>

lemma mask_loop_counts_down:
  assumes "0 < k" "k \<le> 63" "hi < 64" "v \<le> hi" "- 126 \<le> v"
  shows "\<exists>m. mask_loop v hi (2 ^ 63 - k) bits = Some m \<and>
    (\<forall>w. field_match m w \<longleftrightarrow> field_match bits w \<or> (0 \<le> w \<and> w \<le> v \<and> (v - w) mod (2 * k) = 0))"
  using assms(4,5)
proof (induction "nat (v + 126)" arbitrary: v bits rule: less_induct)
  case less
  let ?step = "2 ^ 63 - k" and ?b = "bits OR shift_one v"
  have first: "mask_loop v hi ?step bits = mask_loop (add64 v ?step) hi ?step ?b"
    using less.prems assms(3) by (simp add: mask_loop.simps [of v])
  have below: "w \<le> v - 2 * k" if "w \<le> v" "(v - w) mod (2 * k) = 0" "w \<noteq> v" for w
    using that zdvd_imp_le [of "2 * k" "v - w"] by (simp add: mod_eq_0_iff_dvd)
  show ?case
  proof (cases "v < k")
    case True
    have "add64 v ?step = v + ?step" using True assms less.prems by (intro add64_small) simp_all
    moreover have "mask_loop (v + ?step) hi ?step ?b = Some ?b"
      using assms less.prems by (subst mask_loop.simps) simp
    moreover have "(w = v \<and> 0 \<le> v \<and> v < 64) \<longleftrightarrow> 0 \<le> w \<and> w \<le> v \<and> (v - w) mod (2 * k) = 0" for w
      using below [of w] True assms(1,3) less.prems by (cases "w = v") auto
    ultimately show ?thesis using first by (intro exI [of _ ?b]) (simp add: field_match_or_shift)
  next
    case False
    have w1: "add64 v ?step = v - 2 ^ 63 - k" using False assms less.prems add64_wrap [of v ?step] by simp
    have w2: "add64 (v - 2 ^ 63 - k) ?step = v - 2 * k"
      using False assms less.prems add64_small [of "v - 2 ^ 63 - k" ?step] by simp
    have "?b OR shift_one (v - 2 ^ 63 - k) = ?b" using assms less.prems by (simp add: shift_one_def)
    hence second: "mask_loop (v - 2 ^ 63 - k) hi ?step ?b = mask_loop (v - 2 * k) hi ?step ?b"
      using w2 assms less.prems by (subst mask_loop.simps) simp
    obtain m where m: "mask_loop (v - 2 * k) hi ?step ?b = Some m"
      "\<And>w. field_match m w \<longleftrightarrow> field_match ?b w \<or> (0 \<le> w \<and> w \<le> v - 2 * k \<and> (v - 2 * k - w) mod (2 * k) = 0)"
      using less.hyps [of "v - 2 * k" ?b] False assms less.prems by fastforce
    have shift: "(v - 2 * k - w) mod (2 * k) = (v - w) mod (2 * k)" for w
      using minus_mod_self2 [of "v - w" "2 * k"] by (simp add: algebra_simps)
    have all: "(w = v \<and> 0 \<le> v \<and> v < 64) \<or> (0 \<le> w \<and> w \<le> v - 2 * k \<and> (v - w) mod (2 * k) = 0)
        \<longleftrightarrow> 0 \<le> w \<and> w \<le> v \<and> (v - w) mod (2 * k) = 0" for w
      using below [of w] False assms(1,3) less.prems by (cases "w = v") auto
    have "field_match m w \<longleftrightarrow> field_match bits w \<or> (0 \<le> w \<and> w \<le> v \<and> (v - w) mod (2 * k) = 0)" for w
      unfolding m(2) field_match_or_shift shift disj_assoc all ..
    moreover have "mask_loop v hi ?step bits = Some m" unfolding first w1 second by (rule m(1))
    ultimately show ?thesis by blast
  qed
qed

section \<open>Written schedules\<close>

text \<open>The documented syntax of a field as data: items that are a star, a number or a
  range, each with an optional step, and what they denote.\<close>

datatype cron_range = Every | Single nat | Span nat nat

type_synonym cron_item = "cron_range \<times> nat option"

fun range_bounds :: "int \<Rightarrow> int \<Rightarrow> cron_range \<Rightarrow> int \<times> int" where
  "range_bounds lo hi Every = (lo, hi)"
| "range_bounds lo hi (Single n) = (int n, int n)"
| "range_bounds lo hi (Span a b) = (int a, int b)"

definition item_step :: "cron_item \<Rightarrow> int" where
  "item_step it = (case snd it of None \<Rightarrow> 1 | Some s \<Rightarrow> int s)"

definition item_denotes :: "int \<Rightarrow> int \<Rightarrow> cron_item \<Rightarrow> int \<Rightarrow> bool" where
  "item_denotes lo hi it w \<longleftrightarrow> (case range_bounds lo hi (fst it) of (a, b) \<Rightarrow>
     a \<le> w \<and> w \<le> b \<and> (w - a) mod item_step it = 0)"

definition item_wf :: "int \<Rightarrow> int \<Rightarrow> cron_item \<Rightarrow> bool" where
  "item_wf lo hi it \<longleftrightarrow> (case range_bounds lo hi (fst it) of (a, b) \<Rightarrow> lo \<le> a \<and> a \<le> b \<and> b \<le> hi)
     \<and> 0 < item_step it \<and> item_step it \<le> MaxInt64 - 63"

fun show_range :: "cron_range \<Rightarrow> string" where
  "show_range Every = ''*''"
| "show_range (Single n) = decimal n"
| "show_range (Span a b) = decimal a @ CHR ''-'' # decimal b"

definition show_item :: "cron_item \<Rightarrow> string" where
  "show_item it = show_range (fst it) @ (case snd it of None \<Rightarrow> [] | Some s \<Rightarrow> CHR ''/'' # decimal s)"

definition show_field :: "cron_item list \<Rightarrow> string" where
  "show_field its = strings_Join (map show_item its) (CHR '','')"

definition item_char :: "char \<Rightarrow> bool" where
  "item_char c \<longleftrightarrow> is_digit c \<or> c \<in> {CHR ''*'', CHR ''-'', CHR ''/''}"

lemma item_char_not: "item_char c \<Longrightarrow> \<not> is_space c \<and> c \<noteq> CHR '',''"
  by (auto simp: item_char_def, auto simp: is_space_def)

lemma show_range_chars: "c \<in> set (show_range r) \<Longrightarrow> item_char c \<and> c \<noteq> CHR ''/''"
  by (cases r) (auto simp: item_char_def not_in_decimal dest: decimal_digits)

lemma show_item_chars: "c \<in> set (show_item it) \<Longrightarrow> item_char c"
  by (auto simp: show_item_def item_char_def dest!: show_range_chars decimal_digits split: option.splits)

lemma show_item_nonempty [simp]: "show_item it \<noteq> []"
  by (cases "fst it") (simp_all add: show_item_def)

lemma no_slash: "CHR ''/'' \<notin> set (show_range r)"
  using show_range_chars [of "CHR ''/''" r] by blast

lemma segment_step_show:
  assumes "0 < item_step it" "item_step it \<le> MaxInt64"
  shows "segment_step (show_item it) = Inr (item_step it, show_range (fst it))"
proof (cases "snd it")
  case None
  have "cut_at (CHR ''/'') (show_range (fst it)) = None" by (simp add: cut_at_None no_slash)
  thus ?thesis using None by (simp add: segment_step_def show_item_def item_step_def)
next
  case (Some s)
  have "cut_at (CHR ''/'') (show_range (fst it) @ CHR ''/'' # decimal s) = Some (show_range (fst it), decimal s)"
    by (simp add: cut_at_Some no_slash)
  moreover have "Atoi (decimal s) = Some (int s)" using assms Some by (intro Atoi_decimal) (simp add: item_step_def)
  ultimately show ?thesis using Some assms by (simp add: segment_step_def show_item_def item_step_def)
qed

lemma decimal_not_star: "decimal n \<noteq> ''*''" "decimal a @ CHR ''-'' # s \<noteq> ''*''"
  using not_in_decimal [of "CHR ''*''" n] by (auto simp: append_eq_Cons_conv)

lemma decimal_no_dash: "CHR ''-'' \<notin> set (decimal n)"
  by (simp add: not_in_decimal)

lemma segment_range_show:
  assumes "case range_bounds lo hi r of (a, b) \<Rightarrow> a \<le> b \<and> b \<le> MaxInt64"
  shows "segment_range (show_range r) lo hi = Inr (range_bounds lo hi r)"
proof (cases r)
  case (Single n)
  moreover have "cut_at (CHR ''-'') (decimal n) = None" by (simp add: cut_at_None decimal_no_dash)
  ultimately show ?thesis using assms by (simp add: segment_range_def decimal_not_star Atoi_decimal)
next
  case (Span a b)
  have "cut_at (CHR ''-'') (decimal a @ CHR ''-'' # decimal b) = Some (decimal a, decimal b)"
    by (simp add: cut_at_Some decimal_no_dash)
  thus ?thesis using assms Span by (simp add: segment_range_def decimal_not_star Atoi_decimal)
qed (simp add: segment_range_def)

lemma parse_segment_show:
  assumes "item_wf lo hi it" "0 \<le> lo" "hi < 64"
  shows "\<exists>m. parse_segment lo hi (show_item it) bits = Inr m \<and>
    (\<forall>w. field_match m w \<longleftrightarrow> field_match bits w \<or> item_denotes lo hi it w)"
proof -
  obtain a b where ab: "range_bounds lo hi (fst it) = (a, b)" by fastforce
  have wf: "lo \<le> a" "a \<le> b" "b \<le> hi" "0 < item_step it" "item_step it \<le> MaxInt64 - 63"
    using assms(1) ab by (simp_all add: item_wf_def)
  have "TrimSpace (show_item it) = show_item it"
    by (rule TrimSpace_id) (use show_item_chars item_char_not in blast)
  moreover have "segment_step (show_item it) = Inr (item_step it, show_range (fst it))"
    using wf by (intro segment_step_show) simp_all
  moreover have "segment_range (show_range (fst it)) lo hi = Inr (a, b)"
    using wf assms(3) ab segment_range_show [of lo hi "fst it"] by (simp add: MaxInt64_def)
  moreover obtain m where "mask_loop a b (item_step it) bits = Some m"
    "\<And>w. field_match m w \<longleftrightarrow> field_match bits w \<or> (a \<le> w \<and> w \<le> b \<and> (w - a) mod item_step it = 0)"
    using mask_loop_counts [of a b "item_step it" bits] wf assms(2,3) by auto
  ultimately show ?thesis using wf ab by (auto simp: parse_segment_def item_denotes_def)
qed

lemma parse_segments_show:
  assumes "\<And>it. it \<in> set its \<Longrightarrow> item_wf lo hi it" "0 \<le> lo" "hi < 64"
  shows "\<exists>m. parse_segments lo hi (map show_item its) bits = Inr m \<and>
    (\<forall>w. field_match m w \<longleftrightarrow> field_match bits w \<or> (\<exists>it \<in> set its. item_denotes lo hi it w))"
  using assms(1)
proof (induction its arbitrary: bits)
  case (Cons it its)
  obtain m where m: "parse_segment lo hi (show_item it) bits = Inr m"
    "\<And>w. field_match m w \<longleftrightarrow> field_match bits w \<or> item_denotes lo hi it w"
    using parse_segment_show [OF Cons.prems [of it] assms(2,3)] by auto
  show ?case using Cons.IH [of m] Cons.prems m by auto
qed simp

lemma show_field_nonempty: "its \<noteq> [] \<Longrightarrow> show_field its \<noteq> []"
proof -
  have "[] \<notin> set (map show_item its)" by (metis ex_map_conv show_item_nonempty)
  thus "its \<noteq> [] \<Longrightarrow> show_field its \<noteq> []" by (simp add: show_field_def Join_Nil_iff)
qed

lemma parseField_show:
  assumes "its \<noteq> []" "\<And>it. it \<in> set its \<Longrightarrow> item_wf lo hi it" "0 \<le> lo" "hi < 64"
  shows "\<exists>m. parseField (show_field its) lo hi = Inr m \<and>
    (\<forall>w. field_match m w \<longleftrightarrow> (\<exists>it \<in> set its. item_denotes lo hi it w))"
proof -
  have "strings_Split (show_field its) (CHR '','') = map show_item its"
    unfolding show_field_def using assms(1) show_item_chars item_char_not by (intro Split_Join) auto
  moreover have "show_field its \<noteq> []" using assms(1) by (rule show_field_nonempty)
  ultimately show ?thesis
    using parse_segments_show [OF assms(2-4), of its 0] by (simp add: parseField_def)
qed

record schedule =
  sc_seconds :: "cron_item list option"
  sc_minutes :: "cron_item list"
  sc_hours :: "cron_item list"
  sc_dom :: "cron_item list"
  sc_month :: "cron_item list"
  sc_dow :: "cron_item list"

definition field_wf :: "int \<Rightarrow> int \<Rightarrow> cron_item list \<Rightarrow> bool" where
  "field_wf lo hi its \<longleftrightarrow> its \<noteq> [] \<and> (\<forall>it \<in> set its. item_wf lo hi it)"

definition field_denotes :: "int \<Rightarrow> int \<Rightarrow> cron_item list \<Rightarrow> int \<Rightarrow> bool" where
  "field_denotes lo hi its w \<longleftrightarrow> (\<exists>it \<in> set its. item_denotes lo hi it w)"

definition schedule_wf :: "schedule \<Rightarrow> bool" where
  "schedule_wf S \<longleftrightarrow> (case sc_seconds S of None \<Rightarrow> True | Some its \<Rightarrow> field_wf 0 59 its)
     \<and> field_wf 0 59 (sc_minutes S) \<and> field_wf 0 23 (sc_hours S) \<and> field_wf 1 31 (sc_dom S)
     \<and> field_wf 1 12 (sc_month S) \<and> field_wf 0 7 (sc_dow S)"

definition schedule_fields :: "schedule \<Rightarrow> cron_item list list" where
  "schedule_fields S = (case sc_seconds S of None \<Rightarrow> [] | Some its \<Rightarrow> [its])
     @ [sc_minutes S, sc_hours S, sc_dom S, sc_month S, sc_dow S]"

definition show_schedule :: "schedule \<Rightarrow> string" where
  "show_schedule S = strings_Join (map show_field (schedule_fields S)) (CHR '' '')"

definition occurs :: "schedule \<Rightarrow> int \<Rightarrow> bool" where
  "occurs S t \<longleftrightarrow>
     field_denotes 1 12 (sc_month S) (Month t) \<and> field_denotes 1 31 (sc_dom S) (Day t)
     \<and> (field_denotes 0 7 (sc_dow S) (Weekday t) \<or> Weekday t = 0 \<and> field_denotes 0 7 (sc_dow S) 7)
     \<and> field_denotes 0 23 (sc_hours S) (Hour t) \<and> field_denotes 0 59 (sc_minutes S) (Minute t)
     \<and> (case sc_seconds S of None \<Rightarrow> Second t = 0 | Some its \<Rightarrow> field_denotes 0 59 its (Second t))
     \<and> t mod ns_second = 0"

lemma parseField_wf:
  assumes "field_wf lo hi its" "0 \<le> lo" "hi < 64"
  shows "\<exists>m. parseField (show_field its) lo hi = Inr m \<and> field_match m = field_denotes lo hi its"
proof -
  have its: "its \<noteq> []" "\<And>it. it \<in> set its \<Longrightarrow> item_wf lo hi it" using assms(1) by (simp_all add: field_wf_def)
  show ?thesis using parseField_show [OF its assms(2,3)] by (simp add: fun_eq_iff field_denotes_def)
qed

lemma show_field_chars: "c \<in> set (show_field its) \<Longrightarrow> \<not> is_space c"
proof -
  assume "c \<in> set (show_field its)"
  hence "c = CHR '','' \<or> (\<exists>it. c \<in> set (show_item it))"
    using set_Join [of "map show_item its" "CHR '',''"] by (auto simp: show_field_def)
  thus ?thesis using show_item_chars item_char_not by (auto simp: is_space_def [of "CHR '',''"])
qed

lemma Fields_show_schedule:
  assumes "schedule_wf S"
  shows "Fields (show_schedule S) = map show_field (schedule_fields S)" "TrimSpace (show_schedule S) = show_schedule S"
    "show_schedule S \<noteq> []"
proof -
  let ?ws = "map show_field (schedule_fields S)"
  have its: "its \<noteq> []" if "its \<in> set (schedule_fields S)" for its
    using that assms by (cases "sc_seconds S") (auto simp: schedule_fields_def schedule_wf_def field_wf_def)
  have nonempty: "w \<noteq> []" if w: "w \<in> set ?ws" for w
  proof -
    obtain x where x: "w = show_field x" "x \<in> set (schedule_fields S)" using w by auto
    show ?thesis unfolding x(1) by (rule show_field_nonempty [OF its [OF x(2)]])
  qed
  have ne: "[] \<notin> set ?ws" by (rule notI) (drule nonempty, simp)
  have nospace: "\<not> is_space c" if "w \<in> set ?ws" "c \<in> set w" for w c using that show_field_chars by auto
  have ws: "?ws \<noteq> []" by (simp add: schedule_fields_def)
  have space: "is_space (CHR '' '')" by (simp add: is_space_def)
  show "Fields (show_schedule S) = ?ws"
    unfolding Fields_def show_schedule_def using ws space nospace ne by (rule FieldsFunc_Join)
  show s: "show_schedule S \<noteq> []" unfolding show_schedule_def using ws ne by (simp only: Join_Nil_iff not_False_eq_True)
  show "TrimSpace (show_schedule S) = show_schedule S"
  proof (rule TrimSpace_ends [OF s])
    note first = hd_in_set [OF ws] and final = last_in_set [OF ws]
    show "\<not> is_space (hd (show_schedule S))"
      unfolding show_schedule_def hd_Join [OF ws nonempty [OF first]]
      by (rule nospace [OF first hd_in_set [OF nonempty [OF first]]])
    show "\<not> is_space (last (show_schedule S))"
      unfolding show_schedule_def last_Join [OF ws ne]
      by (rule nospace [OF final last_in_set [OF nonempty [OF final]]])
  qed
qed

lemma field_match_normalise_dow:
  "field_match (normalise_dow f) w \<longleftrightarrow> w \<le> 6 \<and> (field_match f w \<or> w = 0 \<and> field_match f 7)"
proof -
  have mask7: "bit (0x7F :: int) n \<longleftrightarrow> n < 7" for n
  proof -
    have "(0x7F :: int) = mask 7" by (simp add: mask_eq_exp_minus_1)
    thus ?thesis using bit_mask_iff [of 7 n, where 'a = int] by simp
  qed
  have one: "bit (1 :: 64 word) n \<longleftrightarrow> n = 0" for n by (simp add: bit_1_iff)
  have "0 \<le> w \<Longrightarrow> nat w < 7 \<longleftrightarrow> w \<le> 6" "0 \<le> w \<Longrightarrow> nat w = 0 \<longleftrightarrow> w = 0" by auto
  thus ?thesis
    by (auto simp: normalise_dow_def field_match_def bit_and_iff bit_or_iff mask7 one)
qed

lemma ParseCron_show:
  assumes "schedule_wf S"
  shows "\<exists>c. ParseCron (show_schedule S) = Inr c \<and> cron_matches c = occurs S"
proof -
  note wf = assms [unfolded schedule_wf_def]
  obtain mi where mi: "parseField (show_field (sc_minutes S)) 0 59 = Inr mi" "field_match mi = field_denotes 0 59 (sc_minutes S)"
    using parseField_wf [of 0 59 "sc_minutes S"] wf by auto
  obtain hr where hr: "parseField (show_field (sc_hours S)) 0 23 = Inr hr" "field_match hr = field_denotes 0 23 (sc_hours S)"
    using parseField_wf [of 0 23 "sc_hours S"] wf by auto
  obtain dm where dm: "parseField (show_field (sc_dom S)) 1 31 = Inr dm" "field_match dm = field_denotes 1 31 (sc_dom S)"
    using parseField_wf [of 1 31 "sc_dom S"] wf by auto
  obtain mo where mo: "parseField (show_field (sc_month S)) 1 12 = Inr mo" "field_match mo = field_denotes 1 12 (sc_month S)"
    using parseField_wf [of 1 12 "sc_month S"] wf by auto
  obtain dw where dw: "parseField (show_field (sc_dow S)) 0 7 = Inr dw" "field_match dw = field_denotes 0 7 (sc_dow S)"
    using parseField_wf [of 0 7 "sc_dow S"] wf by auto
  note parts = Fields_show_schedule [OF assms] and dow = field_match_normalise_dow field_ranges(6)
  show ?thesis
  proof (cases "sc_seconds S")
    case None
    hence "Fields (show_schedule S) = map show_field [sc_minutes S, sc_hours S, sc_dom S, sc_month S, sc_dow S]"
      using parts(1) by (simp add: schedule_fields_def)
    hence "ParseCron (show_schedule S) = Inr \<lparr>hasSeconds = False, cron_seconds = 0, cron_minutes = mi, cron_hours = hr,
        cron_dom = dm, cron_month = mo, cron_dow = normalise_dow dw, cron_expr = show_schedule S\<rparr>"
      using parts(2,3) mi(1) hr(1) dm(1) mo(1) dw(1) by (simp add: ParseCron_def Let_def numeral_2_eq_2 numeral_3_eq_3 nth_Cons')
    thus ?thesis using None mi(2) hr(2) dm(2) mo(2) dw(2)
      by (auto simp: fun_eq_iff cron_matches_def occurs_def dow)
  next
    case (Some its)
    then obtain sc where sc: "parseField (show_field its) 0 59 = Inr sc" "field_match sc = field_denotes 0 59 its"
      using parseField_wf [of 0 59 its] wf by auto
    have "Fields (show_schedule S) = map show_field [its, sc_minutes S, sc_hours S, sc_dom S, sc_month S, sc_dow S]"
      using parts(1) Some by (simp add: schedule_fields_def)
    hence "ParseCron (show_schedule S) = Inr \<lparr>hasSeconds = True, cron_seconds = sc, cron_minutes = mi, cron_hours = hr,
        cron_dom = dm, cron_month = mo, cron_dow = normalise_dow dw, cron_expr = show_schedule S\<rparr>"
      using parts(2,3) sc(1) mi(1) hr(1) dm(1) mo(1) dw(1)
      by (simp add: ParseCron_def Let_def numeral_2_eq_2 numeral_3_eq_3 nth_Cons')
    thus ?thesis using Some sc(2) mi(2) hr(2) dm(2) mo(2) dw(2)
      by (auto simp: fun_eq_iff cron_matches_def occurs_def dow)
  qed
qed

section \<open>Every input is parsed to an end\<close>

lemma parse_segment_ends:
  assumes "0 \<le> lo" "hi < 64"
  shows "parse_segment lo hi seg bits \<noteq> Inl LoopDiverges"
    "parse_segment lo hi seg bits = Inr m \<Longrightarrow> field_match m w \<Longrightarrow> field_match bits w \<or> w \<le> hi"
proof -
  have loop: "\<exists>m. mask_loop a b step bits = Some m \<and> (\<forall>w. field_match m w \<longrightarrow> field_match bits w \<or> w \<le> hi)"
    if "lo \<le> a" "a \<le> b" "b \<le> hi" "0 < step" "step \<le> MaxInt64" for a b step
  proof (cases "step \<le> MaxInt64 - 63")
    case True
    thus ?thesis using mask_loop_counts [of a b step bits] that assms by fastforce
  next
    case False
    thus ?thesis using mask_loop_wraps [of a b step bits] that assms by fastforce
  qed
  have step: "0 < n \<and> n \<le> MaxInt64" if "segment_step s = Inr (n, r)" for s n r
    using that Atoi_range by (auto simp: segment_step_def MaxInt64_def split: option.splits if_splits)
  have diverge: "segment_step s \<noteq> Inl LoopDiverges" "segment_range s lo hi \<noteq> Inl LoopDiverges" for s
    by (auto simp: segment_step_def segment_range_def split: option.splits if_splits)
  obtain r where r: "r = parse_segment lo hi seg bits" by simp
  have "r \<noteq> Inl LoopDiverges \<and> (\<forall>m w. r = Inr m \<longrightarrow> field_match m w \<longrightarrow> field_match bits w \<or> w \<le> hi)"
  proof (cases "segment_step (TrimSpace seg)")
    case (Inl e)
    thus ?thesis using r diverge(1) [of "TrimSpace seg"] by (simp add: parse_segment_def)
  next
    case (Inr p)
    obtain n s where p: "p = (n, s)" by fastforce
    note n = step [OF Inr [unfolded p]]
    show ?thesis
    proof (cases "segment_range s lo hi")
      case (Inl e)
      thus ?thesis using r Inr p diverge(2) [of s] by (simp add: parse_segment_def)
    next
      case range: (Inr q)
      obtain a b where q: "q = (a, b)" by fastforce
      show ?thesis
      proof (cases "a < lo \<or> hi < b \<or> b < a")
        case False
        then obtain m where "mask_loop a b n bits = Some m" "\<forall>w. field_match m w \<longrightarrow> field_match bits w \<or> w \<le> hi"
          using loop [of a b n] n by auto
        thus ?thesis using r Inr p range q False by (simp add: parse_segment_def)
      qed (use r Inr p range q in \<open>auto simp: parse_segment_def\<close>)
    qed
  qed
  thus "parse_segment lo hi seg bits \<noteq> Inl LoopDiverges"
    "parse_segment lo hi seg bits = Inr m \<Longrightarrow> field_match m w \<Longrightarrow> field_match bits w \<or> w \<le> hi" by (auto simp: r)
qed

lemma parse_segments_end:
  assumes "0 \<le> lo" "hi < 64"
  shows "parse_segments lo hi segs bits \<noteq> Inl LoopDiverges \<and>
    (\<forall>m w. parse_segments lo hi segs bits = Inr m \<longrightarrow> field_match m w \<longrightarrow> field_match bits w \<or> w \<le> hi)"
proof (induction segs arbitrary: bits)
  case (Cons seg segs)
  note one = parse_segment_ends [OF assms, of seg bits]
  show ?case using Cons one by (cases "parse_segment lo hi seg bits") fastforce+
qed simp

lemma parseField_ends:
  assumes "0 \<le> lo" "hi < 64"
  shows "parseField s lo hi \<noteq> Inl LoopDiverges" "parseField s lo hi = Inr m \<Longrightarrow> field_match m w \<Longrightarrow> 0 \<le> w \<and> w \<le> hi"
  using parse_segments_end [OF assms, of _ 0] field_match_range [of m w]
  by (auto simp: parseField_def split: if_splits)

section \<open>Properties\<close>

text \<open>C8: A schedule written in the documented syntax, with steps at least 63 below
  the largest 64-bit integer, means what it says.  Its text parses, and \<^verbatim>\<open>Next\<close> returns the first time strictly after the given one at
  which every field of the schedule holds, or an error exactly when there is no
  such time within five years.\<close>

theorem cron_next_is_first_occurrence:
  assumes "schedule_wf S"
  shows "\<exists>c. ParseCron (show_schedule S) = Inr c \<and>
    (case Next c after of
       Inr t \<Rightarrow> after < t \<and> t < after + search_horizon \<and> occurs S t \<and> (\<forall>u. after < u \<and> u < t \<longrightarrow> \<not> occurs S u)
     | Inl e \<Rightarrow> e = NoMatchWithin5Years \<and> (\<forall>u. after < u \<and> u < after + search_horizon \<longrightarrow> \<not> occurs S u))"
proof -
  obtain c where c: "ParseCron (show_schedule S) = Inr c" "cron_matches c = occurs S"
    using ParseCron_show [OF assms] by blast
  have "first_candidate c after mod cron_unit c = 0" by (simp add: first_candidate_eq)
  note first = next_loop_first [OF this, of "after + search_horizon"]
  have after: "after < first_candidate c after" by (simp add: first_candidate_eq block_next)
  note gap = before_first_candidate [of after _ c]
  show ?thesis
  proof (intro exI conjI)
    show "case Next c after of
       Inr t \<Rightarrow> after < t \<and> t < after + search_horizon \<and> occurs S t \<and> (\<forall>u. after < u \<and> u < t \<longrightarrow> \<not> occurs S u)
     | Inl e \<Rightarrow> e = NoMatchWithin5Years \<and> (\<forall>u. after < u \<and> u < after + search_horizon \<longrightarrow> \<not> occurs S u)"
      using first gap after unfolding Next_def c(2) [symmetric] by (auto split: sum.splits) (meson not_le)+
  qed (rule c(1))
qed

text \<open>C27: Parsing always ends: the counting loop of a field ends even when the step
  makes the 64-bit counter wrap around, so no text makes \<^verbatim>\<open>ParseCron\<close> hang; and
  the masks of a parsed expression have no bit above the upper bound of their
  field.  The lower bound is not promised: a step that wraps around can set bit 0
  of the masks for days and months, which start at 1; the next property says
  which bits such a step sets.\<close>

theorem ParseCron_ends:
  "case ParseCron s of
     Inl e \<Rightarrow> e \<noteq> LoopDiverges
   | Inr c \<Rightarrow> {w. field_match (cron_seconds c) w} \<subseteq> {0..59} \<and> {w. field_match (cron_minutes c) w} \<subseteq> {0..59}
      \<and> {w. field_match (cron_hours c) w} \<subseteq> {0..23} \<and> {w. field_match (cron_dom c) w} \<subseteq> {0..31}
      \<and> {w. field_match (cron_month c) w} \<subseteq> {0..12} \<and> {w. field_match (cron_dow c) w} \<subseteq> {0..6}"
proof -
  note minute = parseField_ends [of 0 59] and hour = parseField_ends [of 0 23] and dom = parseField_ends [of 1 31]
    and month = parseField_ends [of 1 12] and dow = parseField_ends [of 0 7]
  have d: "field_match (normalise_dow f) w \<Longrightarrow> 0 \<le> w \<and> w \<le> 6" for f w
    using field_match_range [of f w] by (auto simp: field_match_normalise_dow)
  show ?thesis
  proof (cases "ParseCron s")
    case (Inl e)
    thus ?thesis using minute(1) hour(1) dom(1) month(1) dow(1)
      by (auto simp: ParseCron_def Let_def result_bind_Inl_iff split: if_splits)
  next
    case (Inr c)
    thus ?thesis using minute(2) hour(2) dom(2) month(2) d
      by (auto simp: ParseCron_def Let_def result_bind_Inr_iff split: if_splits)
  qed
qed

lemmas schedule_eval = schedule_wf_def field_wf_def item_wf_def item_step_def MaxInt64_def show_schedule_def
  schedule_fields_def show_field_def show_item_def decimal.simps char_of_def bit_0

text \<open>C40: A step within 63 of the largest 64-bit integer makes the counting loop of
  a field wrap around and count downwards.  The field \<open>a-b/s\<close> with the step
  \<open>s = 2\<^sup>6\<^sup>3 - k\<close> is accepted; it matches \<open>a\<close> and, below the requested range and
  possibly below the range of the field, every value \<open>a - 2 k j\<close> that is not
  negative.\<close>

theorem huge_step_counts_down:
  assumes "0 \<le> lo" "lo \<le> int a" "a \<le> b" "int b \<le> hi" "hi < 64" "0 < k" "k \<le> 63"
  shows "\<exists>m. parseField (show_field [(Span a b, Some (2 ^ 63 - k))]) lo hi = Inr m
    \<and> {w. field_match m w} = {w. 0 \<le> w \<and> w \<le> int a \<and> (int a - w) mod (2 * int k) = 0}"
proof -
  define it :: cron_item where "it = (Span a b, Some (2 ^ 63 - k))"
  have step: "item_step it = 2 ^ 63 - int k" using assms(7) by (simp add: it_def item_step_def of_nat_diff)
  have split: "strings_Split (show_field [it]) (CHR '','') = [show_item it]"
    using Split_Join [of "[show_item it]" "CHR '',''"] show_item_chars [of _ it] item_char_not by (auto simp: show_field_def)
  have trim: "TrimSpace (show_item it) = show_item it"
    by (rule TrimSpace_id) (use show_item_chars item_char_not in blast)
  have seg: "segment_step (show_item it) = Inr (2 ^ 63 - int k, show_range (Span a b))"
    using segment_step_show [of it] assms(6,7) unfolding step by (simp add: MaxInt64_def it_def)
  have range: "segment_range (show_range (Span a b)) lo hi = Inr (int a, int b)"
    using segment_range_show [of lo hi "Span a b"] assms by (simp add: MaxInt64_def)
  obtain m where m: "mask_loop (int a) (int b) (2 ^ 63 - int k) 0 = Some m"
    "\<And>w. field_match m w \<longleftrightarrow> 0 \<le> w \<and> w \<le> int a \<and> (int a - w) mod (2 * int k) = 0"
    using mask_loop_counts_down [of "int k" "int b" "int a" 0] assms by auto
  have "parseField (show_field [it]) lo hi = Inr m"
    using show_field_nonempty [of "[it]"] assms(2-4) m(1)
    by (simp add: parseField_def split parse_segment_def trim seg range del: show_range.simps)
  moreover have "{w. field_match m w} = {w. 0 \<le> w \<and> w \<le> int a \<and> (int a - w) mod (2 * int k) = 0}"
    unfolding m(2) ..
  ultimately show ?thesis unfolding it_def by (intro exI conjI)
qed

theorem huge_step_counts_down_witness:
  "\<exists>m. parseField ''10-59/9223372036854775807'' 0 59 = Inr m \<and> {w. field_match m w} = {0, 2, 4, 6, 8, 10}"
proof -
  have t: "show_field [(Span 10 59, Some (2 ^ 63 - 1))] = ''10-59/9223372036854775807''"
    by (simp add: schedule_eval)
  have "w = 0 \<or> w = 2 \<or> w = 4 \<or> w = 6 \<or> w = 8 \<or> w = 10 \<longleftrightarrow> 0 \<le> w \<and> w \<le> 10 \<and> (10 - w) mod 2 = 0" for w :: int
    by presburger
  hence set: "{w :: int. 0 \<le> w \<and> w \<le> int 10 \<and> (int 10 - w) mod (2 * int 1) = 0} = {0, 2, 4, 6, 8, 10}"
    unfolding set_eq_iff by simp
  have "\<exists>m. parseField (show_field [(Span 10 59, Some (2 ^ 63 - 1))]) 0 59 = Inr m
      \<and> {w. field_match m w} = {w. 0 \<le> w \<and> w \<le> int 10 \<and> (int 10 - w) mod (2 * int 1) = 0}"
    by (rule huge_step_counts_down) simp_all
  thus ?thesis unfolding t set .
qed

definition daily_at_half_past_three :: schedule where
  "daily_at_half_past_three = \<lparr>sc_seconds = None, sc_minutes = [(Single 30, None)], sc_hours = [(Single 3, None)],
     sc_dom = [(Every, None)], sc_month = [(Every, None)], sc_dow = [(Every, None)]\<rparr>"

definition leap_day_on_monday :: schedule where
  "leap_day_on_monday = \<lparr>sc_seconds = None, sc_minutes = [(Single 0, None)], sc_hours = [(Single 0, None)],
     sc_dom = [(Single 29, None)], sc_month = [(Single 2, None)], sc_dow = [(Single 1, None)]\<rparr>"

lemmas schedule_examples = daily_at_half_past_three_def leap_day_on_monday_def


theorem cron_next_is_first_occurrence_witness:
  "show_schedule daily_at_half_past_three = ''30 3 * * *'' \<and>
   (\<exists>c. ParseCron (show_schedule daily_at_half_past_three) = Inr c \<and>
    (case Next c 0 of
       Inr t \<Rightarrow> 0 < t \<and> t < 0 + search_horizon \<and> occurs daily_at_half_past_three t
         \<and> (\<forall>u. 0 < u \<and> u < t \<longrightarrow> \<not> occurs daily_at_half_past_three u)
     | Inl e \<Rightarrow> e = NoMatchWithin5Years \<and> (\<forall>u. 0 < u \<and> u < 0 + search_horizon \<longrightarrow> \<not> occurs daily_at_half_past_three u)))"
proof
  show "show_schedule daily_at_half_past_three = ''30 3 * * *''"
    by (simp add: schedule_examples schedule_eval)
qed (rule cron_next_is_first_occurrence, simp add: schedule_examples schedule_eval)

text \<open>The horizon of five years is not enough for every schedule that has
  occurrences: midnight on a 29 February that is a Monday occurs in 2044, but
  at the beginning of 2026 \<^verbatim>\<open>Next\<close> reports that there is no match.\<close>

lemma rare_schedule_rejected:
  "\<exists>c. ParseCron ''0 0 29 2 1'' = Inr c
     \<and> Next c (time_Date 2026 1 1 0 0 0) = Inl NoMatchWithin5Years
     \<and> cron_matches c (time_Date 2044 2 29 0 0 0)"
proof -
  let ?S = leap_day_on_monday and ?from = "time_Date 2026 1 1 0 0 0"
  have shown: "show_schedule ?S = ''0 0 29 2 1''" and wf: "schedule_wf ?S"
    by (simp_all add: schedule_examples schedule_eval)
  obtain c where c: "ParseCron (show_schedule ?S) = Inr c" "cron_matches c = occurs ?S"
    using ParseCron_show [OF wf] by blast
  have none: "\<not> occurs ?S u" if u: "?from < u" "u < ?from + search_horizon" for u
  proof
    assume occ: "occurs ?S u"
    let ?n = "u div ns_day" and ?y = "year_of (u div ns_day)"
    have md: "month_of ?n = 2" "day_of ?n = 29" "weekday_of ?n = 1"
      using occ by (simp_all add: occurs_def schedule_examples field_denotes_def item_denotes_def Month_def Day_def Weekday_def)
    hence yd: "yday_of ?n = 59" and leap: "leap ?y"
      using month_of_bounds(4) [of ?n] by (auto simp: day_of_def month_start_def month_table_def split: if_splits)
    have "20454 \<le> ?n" "?n < 22280"
      using u unfolding time_Date_def search_horizon_def civil_day_def year_start_def month_start_def month_table_def leap_def ns_units
      by simp_all
    moreover have "year_start 2026 = 20454" "year_start 2032 = 22645" by (simp_all add: year_start_def)
    ultimately have "\<not> ?y + 1 \<le> 2026" "\<not> 2032 \<le> ?y"
      using year_of_bounds [of ?n] year_start_mono [of "?y + 1" 2026] year_start_mono [of 2032 ?y] by linarith+
    hence "?y \<in> {2026, 2027, 2028, 2029, 2030, 2031}" by auto
    hence "?y = 2028" using leap by (auto simp: leap_def)
    hence "?n = 21243" using yd by (simp add: yday_of_def year_start_def)
    thus False using md(3) by (simp add: weekday_of_def)
  qed
  have "Next c ?from = Inl NoMatchWithin5Years"
  proof -
    have "first_candidate c ?from mod cron_unit c = 0" "?from < first_candidate c ?from"
      by (simp_all add: first_candidate_eq block_next)
    thus ?thesis using next_loop_first [of "first_candidate c ?from" c "?from + search_horizon"] none
      unfolding Next_def c(2) by (fastforce split: sum.splits)
  qed
  moreover have "occurs ?S (time_Date 2044 2 29 0 0 0)"
  proof -
    have t: "time_Date 2044 2 29 0 0 0 = 27087 * ns_day"
      by (simp add: time_Date_def civil_day_def year_start_def month_start_def month_table_def)
    have "year_start 2044 = 27028" "year_start (2044 + 1) = 27394" by (simp_all add: year_start_def)
    moreover from this have "year_of 27087 = 2044" by (intro year_of_eqI) simp_all
    ultimately have y: "year_of 27087 = 2044" "yday_of 27087 = 59" by (simp_all add: yday_of_def)
    have m: "month_of 27087 = 2" by (rule month_of_eqI) (simp_all add: y month_start_def month_table_def leap_def)
    hence "day_of 27087 = 29" "weekday_of 27087 = 1"
      by (simp_all add: day_of_def y month_start_def month_table_def weekday_of_def)
    moreover have "(27087 * ns_day) div ns_day = 27087" by (simp add: ns_units)
    moreover have "Hour (27087 * ns_day) = 0" "Minute (27087 * ns_day) = 0" "Second (27087 * ns_day) = 0" "(27087 * ns_day) mod ns_second = 0"
      by (simp_all add: Hour_def Minute_def Second_def ns_units)
    ultimately show ?thesis using m
      by (simp add: t occurs_def schedule_examples field_denotes_def item_denotes_def item_step_def Month_def Day_def Weekday_def)
  qed
  ultimately show ?thesis using c shown by auto
qed

end
