(* ===== verification/Cron_Dispatch.thy ===== *)
theory Cron_Dispatch
  imports Cron_Schedule
begin

text \<open>
  Cron triggers: the store (\<^verbatim>\<open>core/pkg/serverless/triggers/cron_store.go\<close>) and the
  scheduler that every gateway runs (\<^verbatim>\<open>cron_scheduler.go\<close>).

  The table is a list of rows; the trigger id and the clock are arguments.  A
  statement may be executed, fail, or be executed although the caller sees an
  error (\<open>exec_outcome\<close>).  The dispatch of a due row is split at its effects into
  claiming the run and recording its result, so that the gateways of a cluster
  can be interleaved.
\<close>

section \<open>The store\<close>

record cron_row =
  ct_id :: string
  ct_function :: string
  ct_expr :: string
  ct_next :: "int option"
  ct_lastRun :: "int option"
  ct_lastStatus :: "string option"
  ct_lastError :: "string option"
  ct_enabled :: bool

record function_row =
  fn_id :: string
  fn_name :: string
  fn_namespace :: string
  fn_status :: string

record CronDueRow =
  due_TriggerID :: string
  due_FunctionID :: string
  due_FunctionName :: string
  due_Namespace :: string
  due_CronExpression :: string
  due_NextRunAt :: int

datatype exec_outcome = Executed | ExecFailed | ExecutedUnreported

datatype store_error =
  FunctionIDRequired | TriggerIDRequired | BadExpression cron_error | StoreFailed | TriggerNotFound string | ErrAlreadyRan

text \<open>A statement on the table, with the number of rows it affected.\<close>

definition exec :: "exec_outcome \<Rightarrow> ('r \<Rightarrow> nat \<times> 'r) \<Rightarrow> 'r \<Rightarrow> (store_error, nat) result \<times> 'r" where
  "exec outcome stmt rows =
     (case outcome of
        Executed \<Rightarrow> (Inr (fst (stmt rows)), snd (stmt rows))
      | ExecFailed \<Rightarrow> (Inl StoreFailed, rows)
      | ExecutedUnreported \<Rightarrow> (Inl StoreFailed, snd (stmt rows)))"

definition delete_where :: "('r \<Rightarrow> bool) \<Rightarrow> 'r list \<Rightarrow> nat \<times> 'r list" where
  "delete_where P rows = (length (filter P rows), filter (\<lambda>r. \<not> P r) rows)"

definition update_where :: "('r \<Rightarrow> bool) \<Rightarrow> ('r \<Rightarrow> 'r) \<Rightarrow> 'r list \<Rightarrow> nat \<times> 'r list" where
  "update_where P f rows = (length (filter P rows), map (\<lambda>r. if P r then f r else r) rows)"

definition CronStore_Add :: "exec_outcome \<Rightarrow> string \<Rightarrow> int \<Rightarrow> string \<Rightarrow> string \<Rightarrow> cron_row list
    \<Rightarrow> (store_error, string) result \<times> cron_row list" where
  "CronStore_Add outcome newID now functionID expr rows =
     (if functionID = [] then (Inl FunctionIDRequired, rows)
      else case ParseCron expr of Inl e \<Rightarrow> (Inl (BadExpression e), rows) | Inr parsed \<Rightarrow>
      (case Next parsed now of Inl e \<Rightarrow> (Inl (BadExpression e), rows) | Inr next \<Rightarrow>
       (let row = \<lparr>ct_id = newID, ct_function = functionID, ct_expr = expr, ct_next = Some next, ct_lastRun = None,
                    ct_lastStatus = None, ct_lastError = None, ct_enabled = True\<rparr>;
            (r, rows') = exec outcome (\<lambda>rows. (1, rows @ [row])) rows
        in (result_bind r (\<lambda>_. Inr newID), rows'))))"

definition CronStore_Remove :: "exec_outcome \<Rightarrow> string \<Rightarrow> cron_row list \<Rightarrow> (store_error, unit) result \<times> cron_row list" where
  "CronStore_Remove outcome triggerID rows =
     (if triggerID = [] then (Inl TriggerIDRequired, rows)
      else let (r, rows') = exec outcome (delete_where (\<lambda>t. ct_id t = triggerID)) rows
           in (result_bind r (\<lambda>affected. if affected = 0 then Inl (TriggerNotFound triggerID) else Inr ()), rows'))"

definition CronStore_RemoveByFunction :: "exec_outcome \<Rightarrow> string \<Rightarrow> cron_row list
    \<Rightarrow> (store_error, unit) result \<times> cron_row list" where
  "CronStore_RemoveByFunction outcome functionID rows =
     (if functionID = [] then (Inl FunctionIDRequired, rows)
      else let (r, rows') = exec outcome (delete_where (\<lambda>t. ct_function t = functionID)) rows
           in (result_bind r (\<lambda>_. Inr ()), rows'))"

definition CronStore_ListByFunction :: "bool \<Rightarrow> string \<Rightarrow> cron_row list \<Rightarrow> (store_error, cron_row list) result" where
  "CronStore_ListByFunction answers functionID rows =
     (if functionID = [] then Inl FunctionIDRequired
      else if \<not> answers then Inl StoreFailed
      else Inr (filter (\<lambda>t. ct_function t = functionID) rows))"

text \<open>The join of a trigger with its function, restricted to what is due.\<close>

definition due_of :: "function_row list \<Rightarrow> int \<Rightarrow> cron_row \<Rightarrow> CronDueRow list" where
  "due_of fns now t =
     map (\<lambda>f. \<lparr>due_TriggerID = ct_id t, due_FunctionID = ct_function t, due_FunctionName = fn_name f,
       due_Namespace = fn_namespace f, due_CronExpression = ct_expr t, due_NextRunAt = the (ct_next t)\<rparr>)
       (filter (\<lambda>f. ct_function t = fn_id f \<and> ct_enabled t \<and> fn_status f = ''active'' \<and> ct_next t \<noteq> None
          \<and> the (ct_next t) \<le> now) fns)"

definition due_rows :: "function_row list \<Rightarrow> int \<Rightarrow> cron_row list \<Rightarrow> CronDueRow list" where
  "due_rows fns now rows = concat (map (due_of fns now) rows)"

definition ListDue :: "bool \<Rightarrow> function_row list \<Rightarrow> int \<Rightarrow> int \<Rightarrow> cron_row list \<Rightarrow> (store_error, CronDueRow list) result" where
  "ListDue answers functions now limit rows =
     (if \<not> answers then Inl StoreFailed
      else Inr (take (nat (if limit \<le> 0 then 100 else limit)) (sort_key due_NextRunAt (due_rows functions now rows))))"

definition MarkRun :: "exec_outcome \<Rightarrow> string \<Rightarrow> int \<Rightarrow> int \<Rightarrow> int \<Rightarrow> string \<Rightarrow> string \<Rightarrow> cron_row list
    \<Rightarrow> (store_error, unit) result \<times> cron_row list" where
  "MarkRun outcome triggerID expectedNextRunAt ranAt nextRunAt status errMsg rows =
     (let (r, rows') = exec outcome (update_where (\<lambda>t. ct_id t = triggerID \<and> ct_next t = Some expectedNextRunAt)
            (\<lambda>t. t\<lparr>ct_lastRun := Some ranAt, ct_next := Some nextRunAt, ct_lastStatus := Some status,
                    ct_lastError := Some errMsg\<rparr>)) rows
      in (result_bind r (\<lambda>affected. if affected = 0 then Inl ErrAlreadyRan else Inr ()), rows'))"

section \<open>The scheduler\<close>

definition batchLimit :: int where "batchLimit = 100"

definition one_year :: int where "one_year = 365 * 24 * ns_hour"

text \<open>The outcome of claiming a run: the next run time if this gateway is to invoke
  the function.  Messages of errors are arguments where the source formats them.\<close>

definition dispatch_claim :: "exec_outcome \<Rightarrow> (cron_error \<Rightarrow> string) \<Rightarrow> CronDueRow \<Rightarrow> int \<Rightarrow> cron_row list
    \<Rightarrow> int option \<times> cron_row list" where
  "dispatch_claim outcome msg row now rows =
     (case ParseCron (due_CronExpression row) of
        Inl e \<Rightarrow> (None, snd (MarkRun outcome (due_TriggerID row) (due_NextRunAt row) now (now + one_year) ''error''
                          (''bad cron expression: '' @ msg e) rows))
      | Inr parsed \<Rightarrow>
          (case Next parsed now of
             Inl e \<Rightarrow> (None, snd (MarkRun outcome (due_TriggerID row) (due_NextRunAt row) now (now + one_year) ''error''
                               (''no next match: '' @ msg e) rows))
           | Inr next \<Rightarrow>
               (case MarkRun outcome (due_TriggerID row) (due_NextRunAt row) now next ''running'' [] rows of
                  (Inr _, rows') \<Rightarrow> (Some next, rows')
                | (Inl _, rows') \<Rightarrow> (None, rows'))))"

datatype invoke_outcome = InvokeFailed string | InvokeReturned bool string

definition run_status :: "invoke_outcome \<Rightarrow> string \<times> string" where
  "run_status res = (case res of InvokeFailed err \<Rightarrow> (''error'', err)
     | InvokeReturned success err \<Rightarrow> if success then (''ok'', []) else (''error'', err))"

definition dispatch_finish :: "exec_outcome \<Rightarrow> invoke_outcome \<Rightarrow> CronDueRow \<Rightarrow> int \<Rightarrow> int \<Rightarrow> cron_row list \<Rightarrow> cron_row list" where
  "dispatch_finish outcome res row now next rows =
     snd (MarkRun outcome (due_TriggerID row) next now next (fst (run_status res)) (snd (run_status res)) rows)"

text \<open>An invocation is recorded by the due row that caused it.\<close>

definition dispatch :: "(nat \<Rightarrow> exec_outcome) \<Rightarrow> (cron_error \<Rightarrow> string) \<Rightarrow> (CronDueRow \<Rightarrow> invoke_outcome) \<Rightarrow> CronDueRow \<Rightarrow> int
    \<Rightarrow> cron_row list \<Rightarrow> CronDueRow list \<times> cron_row list" where
  "dispatch outcome msg invoke row now rows =
     (case dispatch_claim (outcome 0) msg row now rows of
        (None, rows') \<Rightarrow> ([], rows')
      | (Some next, rows') \<Rightarrow> ([row], dispatch_finish (outcome 1) (invoke row) row now next rows'))"

text \<open>The rows of a tick, in order, until the scheduler is stopped.\<close>

fun dispatch_all :: "(string \<Rightarrow> bool) \<Rightarrow> (string \<Rightarrow> nat \<Rightarrow> exec_outcome) \<Rightarrow> (cron_error \<Rightarrow> string) \<Rightarrow> (CronDueRow \<Rightarrow> invoke_outcome) \<Rightarrow> int
    \<Rightarrow> CronDueRow list \<Rightarrow> cron_row list \<Rightarrow> CronDueRow list \<times> cron_row list" where
  "dispatch_all stopped outcome msg invoke now [] rows = ([], rows)"
| "dispatch_all stopped outcome msg invoke now (row # due) rows =
     (if stopped (due_TriggerID row) then ([], rows)
      else let (inv, rows1) = dispatch (outcome (due_TriggerID row)) msg invoke row now rows;
               (invs, rows2) = dispatch_all stopped outcome msg invoke now due rows1
           in (inv @ invs, rows2))"

definition tick :: "bool \<Rightarrow> (string \<Rightarrow> bool) \<Rightarrow> (string \<Rightarrow> nat \<Rightarrow> exec_outcome) \<Rightarrow> (cron_error \<Rightarrow> string) \<Rightarrow> (CronDueRow \<Rightarrow> invoke_outcome)
    \<Rightarrow> function_row list \<Rightarrow> int \<Rightarrow> cron_row list \<Rightarrow> CronDueRow list \<times> cron_row list" where
  "tick answers stopped outcome msg invoke functions now rows =
     (case ListDue answers functions now batchLimit rows of
        Inl e \<Rightarrow> ([], rows)
      | Inr due \<Rightarrow> dispatch_all stopped outcome msg invoke now due rows)"

section \<open>The lease on a run\<close>

text \<open>What the scheduler relies on: a table of next run times with a
  compare-and-swap.  A run time that was claimed is below the next run time ever
  after, so it is claimed once.\<close>

locale lease_table =
  fixes wf :: "'s \<Rightarrow> bool"
    and next_of :: "'s \<Rightarrow> 'k \<Rightarrow> 't::linorder option"
    and swap :: "'k \<Rightarrow> 't \<Rightarrow> 't \<Rightarrow> 's \<Rightarrow> bool \<times> 's"
  assumes swap_wf: "wf s \<Longrightarrow> swap k old new s = (won, s') \<Longrightarrow> wf s'"
    and swap_won: "wf s \<Longrightarrow> swap k old new s = (True, s') \<Longrightarrow> next_of s k = Some old \<and> next_of s' k = Some new"
    and swap_frame: "wf s \<Longrightarrow> swap k old new s = (won, s') \<Longrightarrow>
      next_of s' j = next_of s j \<or> j = k \<and> next_of s k = Some old \<and> next_of s' j = Some new"
begin

definition claimed_before :: "('k \<times> 't) list \<Rightarrow> 's \<Rightarrow> bool" where
  "claimed_before log s \<longleftrightarrow> distinct log \<and> (\<forall>(k, old) \<in> set log. \<forall>x. next_of s k = Some x \<longrightarrow> old < x)"

lemma claim_once:
  assumes "wf s" "claimed_before log s" "swap k old new s = (True, s')" "old < new"
  shows "claimed_before ((k, old) # log) s'"
proof -
  note won = swap_won [OF assms(1,3)]
  have "(k, old) \<notin> set log" using assms(2) won by (auto simp: claimed_before_def)
  moreover have "e < x" if "(j, e) \<in> set log" "next_of s' j = Some x" for j e x
    using that assms(2,4) won swap_frame [OF assms(1,3), of j] by (fastforce simp: claimed_before_def)
  ultimately show ?thesis using assms(2,4) won by (auto simp: claimed_before_def)
qed

lemma swap_keeps:
  assumes "wf s" "claimed_before log s" "swap k old new s = (won, s')" "old \<le> new"
  shows "claimed_before log s'"
proof -
  have "e < x" if "(j, e) \<in> set log" "next_of s' j = Some x" for j e x
    using that assms(2,4) swap_frame [OF assms(1,3), of j] by (fastforce simp: claimed_before_def)
  thus ?thesis using assms(2) by (auto simp: claimed_before_def)
qed

end

text \<open>The table of cron triggers, in which ids are unique.\<close>

definition rows_wf :: "cron_row list \<Rightarrow> bool" where
  "rows_wf rows \<longleftrightarrow> distinct (map ct_id rows)"

definition next_run :: "cron_row list \<Rightarrow> string \<Rightarrow> int option" where
  "next_run rows i = (case find (\<lambda>t. ct_id t = i) rows of None \<Rightarrow> None | Some t \<Rightarrow> ct_next t)"

definition mark_swap :: "exec_outcome \<Rightarrow> int \<Rightarrow> string \<Rightarrow> string \<Rightarrow> string \<Rightarrow> int \<Rightarrow> int \<Rightarrow> cron_row list \<Rightarrow> bool \<times> cron_row list" where
  "mark_swap outcome ranAt status errMsg i old new rows =
     (case MarkRun outcome i old ranAt new status errMsg rows of (r, rows') \<Rightarrow> (r = Inr (), rows'))"

lemma MarkRun_rows:
  "snd (MarkRun outcome i old ranAt new status errMsg rows) =
     (if outcome = ExecFailed then rows
      else map (\<lambda>t. if ct_id t = i \<and> ct_next t = Some old
                      then t\<lparr>ct_lastRun := Some ranAt, ct_next := Some new, ct_lastStatus := Some status, ct_lastError := Some errMsg\<rparr>
                      else t) rows)"
  by (cases outcome) (simp_all add: MarkRun_def exec_def update_where_def Let_def)

lemma MarkRun_ids: "map ct_id (snd (MarkRun outcome i old ranAt new status errMsg rows)) = map ct_id rows"
  by (auto simp: MarkRun_rows)

lemma MarkRun_won:
  "fst (MarkRun outcome i old ranAt new status errMsg rows) = Inr () \<Longrightarrow>
     outcome = Executed \<and> (\<exists>t \<in> set rows. ct_id t = i \<and> ct_next t = Some old)"
  by (cases outcome) (auto simp: MarkRun_def exec_def update_where_def Let_def filter_empty_conv split: if_splits)

lemma find_map_update:
  "(\<And>t. ct_id (f t) = ct_id t) \<Longrightarrow> find (\<lambda>t. ct_id t = i) (map f rows) = map_option f (find (\<lambda>t. ct_id t = i) rows)"
  by (induction rows) auto

lemma find_id: "find (\<lambda>t. ct_id t = i) rows = Some t \<Longrightarrow> t \<in> set rows \<and> ct_id t = i"
  by (auto simp: find_Some_iff)

lemma next_run_unique: "rows_wf rows \<Longrightarrow> t \<in> set rows \<Longrightarrow> next_run rows (ct_id t) = ct_next t"
  by (induction rows) (auto simp: rows_wf_def next_run_def split: option.splits)

lemma mark_swap_next:
  assumes "mark_swap outcome ranAt status errMsg k old new rows = (won, rows')"
  shows "next_run rows' j = (if outcome \<noteq> ExecFailed \<and> j = k \<and> next_run rows k = Some old then Some new else next_run rows j)"
proof -
  have rows': "rows' = snd (MarkRun outcome k old ranAt new status errMsg rows)"
    using assms by (simp add: mark_swap_def split: prod.splits)
  show ?thesis
  proof (cases "outcome = ExecFailed")
    case False
    let ?f = "\<lambda>t. if ct_id t = k \<and> ct_next t = Some old then t\<lparr>ct_lastRun := Some ranAt, ct_next := Some new,
        ct_lastStatus := Some status, ct_lastError := Some errMsg\<rparr> else t"
    have found: "find (\<lambda>t. ct_id t = j) rows' = map_option ?f (find (\<lambda>t. ct_id t = j) rows)"
      using False unfolding rows' MarkRun_rows by (simp add: find_map_update)
    show ?thesis
    proof (cases "find (\<lambda>t. ct_id t = j) rows")
      case None
      thus ?thesis using found by (auto simp: next_run_def)
    next
      case (Some t)
      hence "ct_id t = j" using find_id by blast
      thus ?thesis using found Some False by (cases "j = k") (simp_all add: next_run_def)
    qed
  qed (simp add: rows' MarkRun_rows)
qed

lemma mark_swap_wf: "rows_wf rows \<Longrightarrow> mark_swap outcome ranAt status errMsg k old new rows = (won, rows') \<Longrightarrow> rows_wf rows'"
  unfolding rows_wf_def mark_swap_def by (metis MarkRun_ids case_prod_beta snd_conv)

lemma mark_swap_won:
  assumes "rows_wf rows" "mark_swap outcome ranAt status errMsg k old new rows = (True, rows')"
  shows "next_run rows k = Some old \<and> next_run rows' k = Some new"
proof -
  have "fst (MarkRun outcome k old ranAt new status errMsg rows) = Inr ()"
    using assms(2) by (simp add: mark_swap_def split: prod.splits)
  then obtain t where "outcome = Executed" "t \<in> set rows" "ct_id t = k" "ct_next t = Some old"
    using MarkRun_won by blast
  thus ?thesis using next_run_unique [OF assms(1), of t] mark_swap_next [OF assms(2), of k] by simp
qed

interpretation cron_lease: lease_table rows_wf next_run "mark_swap outcome ranAt status errMsg"
  for outcome ranAt status errMsg
proof
  show "rows_wf rows'" if "rows_wf rows" "mark_swap outcome ranAt status errMsg k old new rows = (won, rows')" for rows k old new won rows'
    using that by (rule mark_swap_wf)
  show "next_run rows k = Some old \<and> next_run rows' k = Some new"
    if "rows_wf rows" "mark_swap outcome ranAt status errMsg k old new rows = (True, rows')" for rows k old new rows'
    using that by (rule mark_swap_won)
  show "next_run rows' j = next_run rows j \<or> j = k \<and> next_run rows k = Some old \<and> next_run rows' j = Some new"
    if "mark_swap outcome ranAt status errMsg k old new rows = (won, rows')" for rows k old new won rows' j
    using mark_swap_next [OF that, of j] by (simp split: if_splits)
qed

section \<open>Interleaved gateways\<close>

text \<open>The gateways of a cluster, each with its own clock: one lists a due row,
  claims it, invokes the function (the log records the trigger and the run time
  it was due for) and records the result.  Triggers come and go; the id of a new
  trigger was not used before.\<close>

type_synonym cron_state =
  "cron_row list \<times> (CronDueRow \<times> int) set \<times> (CronDueRow \<times> int \<times> int) set \<times> (string \<times> int) list \<times> string set"

inductive cron_step :: "cron_state \<Rightarrow> cron_state \<Rightarrow> bool" where
  lists: "ListDue answers functions now limit rows = Inr due \<Longrightarrow> row \<in> set due \<Longrightarrow>
    cron_step (rows, listed, running, log, used) (rows, insert (row, now) listed, running, log, used)"
| claims: "(row, now) \<in> listed \<Longrightarrow> dispatch_claim outcome msg row now rows = (Some next, rows') \<Longrightarrow>
    cron_step (rows, listed, running, log, used)
      (rows', listed - {(row, now)}, insert (row, now, next) running, (due_TriggerID row, due_NextRunAt row) # log, used)"
| skips: "(row, now) \<in> listed \<Longrightarrow> dispatch_claim outcome msg row now rows = (None, rows') \<Longrightarrow>
    cron_step (rows, listed, running, log, used) (rows', listed - {(row, now)}, running, log, used)"
| finishes: "(row, now, next) \<in> running \<Longrightarrow>
    cron_step (rows, listed, running, log, used)
      (dispatch_finish outcome res row now next rows, listed, running - {(row, now, next)}, log, used)"
| adds: "newID \<notin> used \<Longrightarrow> CronStore_Add outcome newID now functionID expr rows = (r, rows') \<Longrightarrow>
    cron_step (rows, listed, running, log, used) (rows', listed, running, log, insert newID used)"
| removes: "CronStore_Remove outcome triggerID rows = (r', rows') \<Longrightarrow>
    cron_step (rows, listed, running, log, used) (rows', listed, running, log, used)"
| removes_function: "CronStore_RemoveByFunction outcome functionID rows = (r', rows') \<Longrightarrow>
    cron_step (rows, listed, running, log, used) (rows', listed, running, log, used)"

definition cron_inv :: "cron_state \<Rightarrow> bool" where
  "cron_inv s \<longleftrightarrow> (case s of (rows, listed, running, log, used) \<Rightarrow>
     rows_wf rows \<and> cron_lease.claimed_before log rows \<and> (\<forall>(row, now) \<in> listed. due_NextRunAt row \<le> now)
     \<and> ct_id ` set rows \<subseteq> used \<and> fst ` set log \<subseteq> used)"

lemma Next_later: "Next c after = Inr t \<Longrightarrow> after < t"
proof -
  assume "Next c after = Inr t"
  moreover have "first_candidate c after mod cron_unit c = 0" "after < first_candidate c after"
    by (simp_all add: first_candidate_eq block_next)
  ultimately show ?thesis
    using next_loop_first [of "first_candidate c after" c "after + search_horizon"] by (simp add: Next_def)
qed

lemma ListDue_due: "ListDue answers functions now limit rows = Inr due \<Longrightarrow> row \<in> set due \<Longrightarrow> due_NextRunAt row \<le> now"
  by (auto simp: ListDue_def due_rows_def due_of_def split: if_splits dest!: in_set_takeD)

text \<open>Every update of a dispatch is a swap to a later time.\<close>

lemma dispatch_claim_swap:
  assumes "dispatch_claim outcome msg row now rows = (r, rows')" "due_NextRunAt row \<le> now"
  shows "\<exists>status err new won. mark_swap outcome now status err (due_TriggerID row) (due_NextRunAt row) new rows = (won, rows')
    \<and> due_NextRunAt row < new \<and> (r \<noteq> None \<longrightarrow> won)"
proof -
  have swap: "\<exists>status err new won. mark_swap outcome now status err (due_TriggerID row) (due_NextRunAt row) new rows = (won, rows')
      \<and> due_NextRunAt row < new \<and> (r \<noteq> None \<longrightarrow> won)"
    if "MarkRun outcome (due_TriggerID row) (due_NextRunAt row) now new status err rows = (res, rows')" "now < new"
      "r \<noteq> None \<longrightarrow> res = Inr ()" for new status err res
    using that assms(2) by (intro exI [of _ status] exI [of _ err] exI [of _ new] exI [of _ "res = Inr ()"])
      (simp add: mark_swap_def)
  have year: "now < now + one_year" by (simp add: one_year_def ns_units)
  show ?thesis
  proof (cases "ParseCron (due_CronExpression row)")
    case (Inl e)
    let ?m = "MarkRun outcome (due_TriggerID row) (due_NextRunAt row) now (now + one_year) ''error'' (''bad cron expression: '' @ msg e) rows"
    have "r = None" "?m = (fst ?m, rows')" using assms(1) Inl by (auto simp: dispatch_claim_def)
    thus ?thesis using swap [OF _ year] by blast
  next
    case parsed: (Inr parsed)
    show ?thesis
    proof (cases "Next parsed now")
      case (Inl e)
      let ?m = "MarkRun outcome (due_TriggerID row) (due_NextRunAt row) now (now + one_year) ''error'' (''no next match: '' @ msg e) rows"
      have "r = None" "?m = (fst ?m, rows')" using assms(1) Inl parsed by (auto simp: dispatch_claim_def)
      thus ?thesis using swap [OF _ year] by blast
    next
      case (Inr new)
      have "now < new" using Inr by (rule Next_later)
      moreover obtain res where "MarkRun outcome (due_TriggerID row) (due_NextRunAt row) now new ''running'' [] rows = (res, rows')"
        "r \<noteq> None \<longrightarrow> res = Inr ()"
        using assms(1) Inr parsed by (auto simp: dispatch_claim_def split: prod.splits sum.splits)
      ultimately show ?thesis using swap by blast
    qed
  qed
qed

lemma claimed_before_subset:
  assumes "cron_lease.claimed_before log rows" "\<And>i. next_run rows' i = next_run rows i \<or> next_run rows' i = None"
  shows "cron_lease.claimed_before log rows'"
proof -
  have "e < x" if "(i, e) \<in> set log" "next_run rows' i = Some x" for i e x
    using that assms(1) assms(2) [of i] by (auto simp: cron_lease.claimed_before_def)
  thus ?thesis using assms(1) by (auto simp: cron_lease.claimed_before_def)
qed

lemma next_run_filter:
  "rows_wf rows \<Longrightarrow> next_run (filter P rows) i = next_run rows i \<or> next_run (filter P rows) i = None"
proof (cases "find (\<lambda>t. ct_id t = i) (filter P rows)")
  case (Some t)
  assume wf: "rows_wf rows"
  have "t \<in> set rows" "ct_id t = i" using find_id [OF Some] by auto
  hence "next_run rows i = ct_next t" using next_run_unique [OF wf] by auto
  thus ?thesis using Some by (simp add: next_run_def)
qed (simp add: next_run_def)

lemma rows_wf_filter: "rows_wf rows \<Longrightarrow> rows_wf (filter P rows)"
  by (simp add: rows_wf_def distinct_map_filter)

lemma cron_inv_filter:
  assumes "cron_inv (rows, listed, running, log, used)"
  shows "cron_inv (filter P rows, listed, running, log, used)"
  using assms claimed_before_subset [of log rows "filter P rows"] next_run_filter [of rows P] rows_wf_filter [of rows P]
  unfolding cron_inv_def by auto

lemma remove_rows:
  "snd (CronStore_Remove outcome i rows) = rows \<or> (\<exists>P. snd (CronStore_Remove outcome i rows) = filter P rows)"
  "snd (CronStore_RemoveByFunction outcome i rows) = rows \<or> (\<exists>P. snd (CronStore_RemoveByFunction outcome i rows) = filter P rows)"
  by (cases outcome; auto simp: CronStore_Remove_def CronStore_RemoveByFunction_def exec_def delete_where_def)+

lemma cron_inv_swap:
  assumes "cron_inv (rows, listed, running, log, used)"
    "mark_swap outcome ranAt status err i old new rows = (won, rows')" "old \<le> new"
  shows "cron_inv (rows', listed, running, log, used)"
proof -
  have wf: "rows_wf rows" "cron_lease.claimed_before log rows" using assms(1) by (simp_all add: cron_inv_def)
  have "rows' = snd (MarkRun outcome i old ranAt new status err rows)"
    using assms(2) by (simp add: mark_swap_def split: prod.splits)
  hence "map ct_id rows' = map ct_id rows" by (simp only: MarkRun_ids)
  hence "ct_id ` set rows' = ct_id ` set rows" by (metis set_map)
  thus ?thesis
    using assms(1) cron_lease.swap_wf [OF wf(1) assms(2)] cron_lease.swap_keeps [OF wf assms(2,3)] by (simp add: cron_inv_def)
qed

lemma next_run_in: "next_run rows i \<noteq> None \<Longrightarrow> i \<in> ct_id ` set rows"
proof -
  assume "next_run rows i \<noteq> None"
  then obtain t where "find (\<lambda>t. ct_id t = i) rows = Some t" by (auto simp: next_run_def split: option.splits)
  thus ?thesis using find_id by (metis imageI)
qed

lemma Add_rows:
  "snd (CronStore_Add outcome newID now functionID expr rows) = rows
   \<or> (\<exists>row. ct_id row = newID \<and> snd (CronStore_Add outcome newID now functionID expr rows) = rows @ [row])"
  by (cases outcome; auto simp: CronStore_Add_def exec_def Let_def split: sum.splits)

lemma next_run_append: "ct_id row \<notin> ct_id ` set rows \<Longrightarrow> i \<noteq> ct_id row \<Longrightarrow> next_run (rows @ [row]) i = next_run rows i"
  by (induction rows) (auto simp: next_run_def)

lemma cron_inv_add:
  assumes "cron_inv (rows, listed, running, log, used)" "newID \<notin> used" "ct_id row = newID"
  shows "cron_inv (rows @ [row], listed, running, log, insert newID used)"
proof -
  have fresh: "ct_id row \<notin> ct_id ` set rows" "newID \<notin> fst ` set log" using assms by (auto simp: cron_inv_def)
  have "cron_lease.claimed_before log (rows @ [row])"
    unfolding cron_lease.claimed_before_def
  proof (intro conjI ballI)
    show "distinct log" using assms(1) by (simp add: cron_inv_def cron_lease.claimed_before_def)
    fix p assume p: "p \<in> set log"
    hence "fst p \<in> fst ` set log" by (rule imageI)
    hence "fst p \<noteq> ct_id row" using fresh(2) assms(3) by metis
    hence "next_run (rows @ [row]) (fst p) = next_run rows (fst p)" by (rule next_run_append [OF fresh(1)])
    thus "case p of (k, old) \<Rightarrow> \<forall>x. next_run (rows @ [row]) k = Some x \<longrightarrow> old < x"
      using assms(1) p by (auto simp: cron_inv_def cron_lease.claimed_before_def)
  qed
  thus ?thesis using assms fresh(1) by (auto simp: cron_inv_def rows_wf_def)
qed

lemma cron_inv_step [inv_intros]: "cron_step s s' \<Longrightarrow> cron_inv s \<Longrightarrow> cron_inv s'"
proof (induction rule: cron_step.induct)
  case (lists answers fns now limit rows due row listed running log used)
  thus ?case using ListDue_due [OF lists(1,2)] by (auto simp: cron_inv_def)
next
  case (claims row now listed outcome msg rows nxt rows' running log used)
  have due: "due_NextRunAt row \<le> now" using claims(1,3) by (auto simp: cron_inv_def)
  obtain status err new won where
    sw: "mark_swap outcome now status err (due_TriggerID row) (due_NextRunAt row) new rows = (won, rows')" "due_NextRunAt row < new" "won"
    using dispatch_claim_swap [OF claims(2) due] by blast
  have swT: "mark_swap outcome now status err (due_TriggerID row) (due_NextRunAt row) new rows = (True, rows')" using sw(1,3) by simp
  have wf: "rows_wf rows" "cron_lease.claimed_before log rows" using claims(3) by (simp_all add: cron_inv_def)
  have "cron_inv (rows', listed, running, log, used)"
    using cron_inv_swap [OF claims(3) sw(1)] sw(2) by simp
  moreover have "cron_lease.claimed_before ((due_TriggerID row, due_NextRunAt row) # log) rows'"
    by (rule cron_lease.claim_once [OF wf swT sw(2)])
  moreover have "next_run rows (due_TriggerID row) \<noteq> None" using mark_swap_won [OF wf(1) swT] by simp
  hence "due_TriggerID row \<in> ct_id ` set rows" by (rule next_run_in)
  hence "due_TriggerID row \<in> used" using claims(3) by (auto simp: cron_inv_def)
  ultimately show ?case by (auto simp: cron_inv_def)
next
  case (skips row now listed outcome msg rows rows' running log used)
  have due: "due_NextRunAt row \<le> now" using skips(1,3) by (auto simp: cron_inv_def)
  obtain status err new won where
    "mark_swap outcome now status err (due_TriggerID row) (due_NextRunAt row) new rows = (won, rows')" "due_NextRunAt row < new"
    using dispatch_claim_swap [OF skips(2) due] by blast
  hence "cron_inv (rows', listed, running, log, used)" using cron_inv_swap [OF skips(3)] by fastforce
  thus ?case by (auto simp: cron_inv_def)
next
  case (finishes row now nxt running rows listed log used outcome res)
  have "mark_swap outcome now (fst (run_status res)) (snd (run_status res)) (due_TriggerID row) nxt nxt rows
      = (fst (MarkRun outcome (due_TriggerID row) nxt now nxt (fst (run_status res)) (snd (run_status res)) rows) = Inr (),
         dispatch_finish outcome res row now nxt rows)"
    by (simp add: mark_swap_def dispatch_finish_def case_prod_beta)
  from cron_inv_swap [OF finishes(2) this] show ?case by (simp add: cron_inv_def)
next
  case (adds newID used outcome now functionID expr rows r rows' listed running log)
  have "rows' = rows \<or> (\<exists>row. ct_id row = newID \<and> rows' = rows @ [row])"
    using Add_rows [of outcome newID now functionID expr rows] adds(2) by simp
  thus ?case
  proof
    assume "rows' = rows"
    thus ?thesis using adds(3) by (simp add: cron_inv_def) blast
  next
    assume "\<exists>row. ct_id row = newID \<and> rows' = rows @ [row]"
    thus ?thesis using cron_inv_add [OF adds(3,1)] by blast
  qed
next
  case (removes outcome triggerID rows r' rows' listed running log used)
  thus ?case using remove_rows(1) [of outcome triggerID rows] cron_inv_filter [OF removes(2)] by auto
next
  case (removes_function outcome functionID rows r' rows' listed running log used)
  thus ?case using remove_rows(2) [of outcome functionID rows] cron_inv_filter [OF removes_function(2)] by auto
qed

lemma cron_inv_reachable: "cron_step\<^sup>*\<^sup>* ([], {}, {}, [], {}) s \<Longrightarrow> cron_inv s"
  by (induction rule: rtranclp_induct)
    (simp_all add: cron_inv_step, simp add: cron_inv_def rows_wf_def cron_lease.claimed_before_def)

section \<open>Properties\<close>

text \<open>C9: No run is executed twice.  However many gateways list, claim, invoke and
  record runs in whatever interleaving and with whatever clocks, and however the
  database fails, for every trigger and every run time the function is invoked
  at most once, and the next run time of a trigger is after all runs that were
  executed.  Each statement of the store is one step: the database runs the
  conditional UPDATE of \<^verbatim>\<open>MarkRun\<close> atomically.  Nothing else is assumed, so the
  claim is a proper lease on the run; the comment on \<^verbatim>\<open>CronScheduler\<close>, which still
  expects duplicate invocations in a tight race window and an explicit lease
  table to exclude them, is more cautious than the code.\<close>

theorem each_run_invoked_once:
  assumes "cron_step\<^sup>*\<^sup>* ([], {}, {}, [], {}) (rows, listed, running, log, used)"
  shows "distinct log \<and> (\<forall>t \<in> set rows. \<forall>e x. (ct_id t, e) \<in> set log \<and> ct_next t = Some x \<longrightarrow> e < x)"
proof -
  have inv: "cron_inv (rows, listed, running, log, used)" by (rule cron_inv_reachable [OF assms])
  hence "next_run rows (ct_id t) = ct_next t" if "t \<in> set rows" for t
    using that next_run_unique [of rows t] by (simp add: cron_inv_def)
  thus ?thesis using inv by (fastforce simp: cron_inv_def cron_lease.claimed_before_def)
qed

definition every_minute :: schedule where
  "every_minute = \<lparr>sc_seconds = None, sc_minutes = [(Every, None)], sc_hours = [(Every, None)],
     sc_dom = [(Every, None)], sc_month = [(Every, None)], sc_dow = [(Every, None)]\<rparr>"

lemma every_minute_next:
  "\<exists>c. ParseCron ''* * * * *'' = Inr c \<and> (\<forall>now. \<exists>t. Next c now = Inr t)"
proof -
  have shown: "show_schedule every_minute = ''* * * * *''" and wf: "schedule_wf every_minute"
    by (simp_all add: every_minute_def schedule_eval)
  obtain c where c: "ParseCron (show_schedule every_minute) = Inr c" "cron_matches c = occurs every_minute"
    using ParseCron_show [OF wf] by blast
  have occ: "occurs every_minute t" if "t mod ns_minute = 0" for t
    using that field_ranges [of t]
    by (simp add: occurs_def every_minute_def field_denotes_def item_denotes_def item_step_def minute_aligned)
  have "\<exists>t. Next c now = Inr t" for now
  proof (cases "Next c now")
    case (Inl e)
    let ?t = "first_candidate c now"
    have "ns_minute dvd (now div ns_minute + 2) * ns_minute" by simp
    define u where "u = (now div ns_minute + 2) * ns_minute"
    have "u mod ns_minute = 0" by (simp add: u_def)
    moreover have "?t mod cron_unit c = 0" by (simp add: first_candidate_eq)
    moreover have "?t \<le> u" "u < now + search_horizon"
      using block_below [of ns_minute now] block_below [of ns_second now]
      by (auto simp: u_def first_candidate_eq cron_unit_def search_horizon_def distrib_right, simp_all add: ns_units)
    ultimately have False using Inl occ [of u] next_loop_first [of ?t c "now + search_horizon"] by (simp add: Next_def c(2))
    thus ?thesis ..
  qed blast
  thus ?thesis using c(1) unfolding shown by blast
qed

theorem each_run_invoked_once_witness:
  "\<exists>rows listed running log used. cron_step\<^sup>*\<^sup>* ([], {}, {}, [], {}) (rows, listed, running, log, used) \<and> log \<noteq> [] \<and> distinct log"
proof -
  obtain c where c: "ParseCron ''* * * * *'' = Inr c" "\<And>now. \<exists>t. Next c now = Inr t" using every_minute_next by blast
  obtain t where t: "Next c 0 = Inr t" using c(2) by blast
  obtain u where u: "Next c t = Inr u" using c(2) by blast
  let ?row = "\<lparr>ct_id = ''t1'', ct_function = ''f1'', ct_expr = ''* * * * *'', ct_next = Some t, ct_lastRun = None,
       ct_lastStatus = None, ct_lastError = None, ct_enabled = True\<rparr>"
  let ?fn = "\<lparr>fn_id = ''f1'', fn_name = ''prune'', fn_namespace = ''ns'', fn_status = ''active''\<rparr>"
  let ?due = "\<lparr>due_TriggerID = ''t1'', due_FunctionID = ''f1'', due_FunctionName = ''prune'', due_Namespace = ''ns'',
      due_CronExpression = ''* * * * *'', due_NextRunAt = t\<rparr>"
  have "CronStore_Add Executed ''t1'' 0 ''f1'' ''* * * * *'' [] = (Inr ''t1'', [?row])"
    using c(1) t by (simp add: CronStore_Add_def exec_def)
  hence s1: "cron_step ([], {}, {}, [], {}) ([?row], {}, {}, [], {''t1''})" by (intro adds) auto
  have "ListDue True [?fn] t 0 [?row] = Inr [?due]" by (simp add: ListDue_def due_rows_def due_of_def)
  hence s2: "cron_step ([?row], {}, {}, [], {''t1''}) ([?row], {(?due, t)}, {}, [], {''t1''})" by (intro lists) auto
  obtain rows' where "dispatch_claim Executed (\<lambda>_. []) ?due t [?row] = (Some u, rows')"
    using c(1) u by (simp add: dispatch_claim_def MarkRun_def exec_def update_where_def)
  hence s3: "cron_step ([?row], {(?due, t)}, {}, [], {''t1''})
      (rows', {(?due, t)} - {(?due, t)}, {(?due, t, u)}, [(''t1'', t)], {''t1''})"
    using claims [of ?due t "{(?due, t)}" Executed "\<lambda>_. []" "[?row]" u rows' "{}" "[]" "{''t1''}"] by simp
  have "cron_step\<^sup>*\<^sup>* ([], {}, {}, [], {}) (rows', {(?due, t)} - {(?due, t)}, {(?due, t, u)}, [(''t1'', t)], {''t1''})"
    using converse_rtranclp_into_rtranclp [of cron_step, OF s1 converse_rtranclp_into_rtranclp [of cron_step, OF s2 r_into_rtranclp [of cron_step, OF s3]]] .
  moreover from this have "distinct [(''t1'', t)]" using each_run_invoked_once by blast
  ultimately show ?thesis by blast
qed

section \<open>An undisturbed tick\<close>

lemma filter_unique_key:
  assumes "distinct (map key xs)" "\<And>x. P x \<Longrightarrow> key x = k"
  shows "length (filter P xs) \<le> 1"
  using assms
proof (induction xs)
  case (Cons x xs)
  show ?case
  proof (cases "P x")
    case True

    have "\<not> P y" if y: "y \<in> set xs" for y
    proof
      assume "P y"
      hence "key y = key x" using Cons.prems(2) True by metis
      moreover have "key x \<notin> key ` set xs" using Cons.prems(1) by simp
      ultimately show False using y by (metis imageI)
    qed
    hence "filter P xs = []" by (simp add: filter_empty_conv)
    thus ?thesis by simp
  qed (use Cons in simp)
qed simp

lemma due_of_ids:
  assumes "distinct (map fn_id fns)"
  shows "distinct (map due_TriggerID (due_of fns now t))" "set (map due_TriggerID (due_of fns now t)) \<subseteq> {ct_id t}"
proof -
  have "length (due_of fns now t) \<le> 1"
    unfolding due_of_def length_map by (rule filter_unique_key [OF assms, of _ "ct_function t"]) simp
  thus "distinct (map due_TriggerID (due_of fns now t))" by (cases "due_of fns now t") auto
  show "set (map due_TriggerID (due_of fns now t)) \<subseteq> {ct_id t}" by (auto simp: due_of_def)
qed

lemma due_rows_distinct:
  assumes "distinct (map fn_id fns)" "rows_wf rows"
  shows "distinct (map due_TriggerID (due_rows fns now rows))"
proof -
  have ids: "set (map due_TriggerID (due_rows fns now rows)) \<subseteq> ct_id ` set rows" for rows
    by (auto simp: due_rows_def due_of_def)
  show ?thesis using assms(2)
  proof (induction rows)
    case (Cons t rows)
    have "set (map due_TriggerID (due_of fns now t)) \<inter> set (map due_TriggerID (due_rows fns now rows)) = {}"
    proof -
      have "ct_id t \<notin> ct_id ` set rows" using Cons.prems by (simp add: rows_wf_def)
      hence "{ct_id t} \<inter> ct_id ` set rows = {}" by simp
      with Int_mono [OF due_of_ids(2) [OF assms(1), of now t] ids [of rows]] show ?thesis by (simp only: subset_empty)
    qed
    moreover have "due_rows fns now (t # rows) = due_of fns now t @ due_rows fns now rows" by (simp add: due_rows_def)
    moreover have "distinct (map due_TriggerID (due_rows fns now rows))" using Cons by (simp add: rows_wf_def)
    ultimately show ?case using due_of_ids(1) [OF assms(1), of now t] by (simp only: map_append distinct_append)
  qed (simp add: due_rows_def)
qed

lemma due_rows_next:
  assumes "rows_wf rows" "row \<in> set (due_rows fns now rows)"
  shows "next_run rows (due_TriggerID row) = Some (due_NextRunAt row)"
proof -
  obtain t where t: "t \<in> set rows" "due_TriggerID row = ct_id t" "due_NextRunAt row = the (ct_next t)" "ct_next t \<noteq> None"
    using assms(2) by (auto simp: due_rows_def due_of_def)
  thus ?thesis using next_run_unique [OF assms(1) t(1)] by simp
qed

lemma ListDue_listed:
  assumes "ListDue True fns now limit rows = Inr due" "distinct (map fn_id fns)" "rows_wf rows"
  shows "distinct (map due_TriggerID due)" "row \<in> set due \<Longrightarrow> next_run rows (due_TriggerID row) = Some (due_NextRunAt row)"
proof -
  let ?all = "due_rows fns now rows"
  have due: "due = take (nat (if limit \<le> 0 then 100 else limit)) (sort_key due_NextRunAt ?all)"
    using assms(1) by (simp add: ListDue_def)
  have "distinct (map due_TriggerID (sort_key due_NextRunAt ?all))"
    using due_rows_distinct [OF assms(2,3), of now] by (simp add: distinct_map)
  thus "distinct (map due_TriggerID due)" unfolding due by (simp add: take_map [symmetric])
  show "row \<in> set due \<Longrightarrow> next_run rows (due_TriggerID row) = Some (due_NextRunAt row)"
    using due_rows_next [OF assms(3)] unfolding due by (auto dest: in_set_takeD)
qed

lemma MarkRun_executed:
  assumes "next_run rows i = Some old"
  shows "fst (MarkRun Executed i old ranAt new status err rows) = Inr ()"
proof -
  obtain t where "find (\<lambda>t. ct_id t = i) rows = Some t" "ct_next t = Some old"
    using assms by (auto simp: next_run_def split: option.splits)
  hence "\<exists>t \<in> set rows. ct_id t = i \<and> ct_next t = Some old" using find_id by metis
  hence "filter (\<lambda>t. ct_id t = i \<and> ct_next t = Some old) rows \<noteq> []" by (auto simp: filter_empty_conv)
  thus ?thesis by (simp add: MarkRun_def exec_def update_where_def)
qed

lemma MarkRun_swap: "mark_swap outcome ranAt status err i old new rows
  = (fst (MarkRun outcome i old ranAt new status err rows) = Inr (), snd (MarkRun outcome i old ranAt new status err rows))"
  by (simp add: mark_swap_def case_prod_beta)

text \<open>The next run of a due trigger, if its expression parses and has one.\<close>

definition upcoming :: "int \<Rightarrow> CronDueRow \<Rightarrow> int option" where
  "upcoming now row = (case ParseCron (due_CronExpression row) of Inl e \<Rightarrow> None
     | Inr c \<Rightarrow> (case Next c now of Inl e \<Rightarrow> None | Inr t \<Rightarrow> Some t))"

definition moved_to :: "int \<Rightarrow> CronDueRow \<Rightarrow> int" where
  "moved_to now row = (case upcoming now row of None \<Rightarrow> now + one_year | Some t \<Rightarrow> t)"

lemma moved_to_later: "now < moved_to now row"
  by (auto simp: moved_to_def upcoming_def one_year_def ns_hour_def ns_minute_def ns_second_def dest: Next_later split: sum.splits)

text \<open>A dispatch that meets no failure: the function is invoked if there is a next
  run, and the trigger is moved.\<close>

lemma dispatch_executed:
  assumes "rows_wf rows" "next_run rows (due_TriggerID row) = Some (due_NextRunAt row)"
  shows "\<exists>rows'. dispatch (\<lambda>_. Executed) msg invoke row now rows = ((if upcoming now row = None then [] else [row]), rows')
    \<and> rows_wf rows' \<and> (\<forall>j. next_run rows' j = (if j = due_TriggerID row then Some (moved_to now row) else next_run rows j))"
proof -
  let ?i = "due_TriggerID row" and ?st = "run_status (invoke row)" and ?new = "moved_to now row"
  have swap: "\<exists>rows1. MarkRun Executed ?i (due_NextRunAt row) now ?new st err rows = (Inr (), rows1) \<and> rows_wf rows1
      \<and> (\<forall>j. next_run rows1 j = (if j = ?i then Some ?new else next_run rows j))" for st err
  proof -
    obtain rows1 where m1: "MarkRun Executed ?i (due_NextRunAt row) now ?new st err rows = (Inr (), rows1)"
      using MarkRun_executed [OF assms(2)] by (metis prod.collapse)
    hence s1: "mark_swap Executed now st err ?i (due_NextRunAt row) ?new rows = (True, rows1)" by (simp add: MarkRun_swap)
    show ?thesis using m1 mark_swap_wf [OF assms(1) s1] mark_swap_next [OF s1] mark_swap_won [OF assms(1) s1] assms(2) by auto
  qed
  show ?thesis
  proof (cases "upcoming now row")
    case None
    hence "\<exists>st err. dispatch (\<lambda>_. Executed) msg invoke row now rows
        = ([], snd (MarkRun Executed ?i (due_NextRunAt row) now ?new st err rows))"
      unfolding dispatch_def dispatch_claim_def moved_to_def upcoming_def by (auto split: sum.splits)
    then obtain st err where d: "dispatch (\<lambda>_. Executed) msg invoke row now rows
        = ([], snd (MarkRun Executed ?i (due_NextRunAt row) now ?new st err rows))" by blast
    show ?thesis using swap [of st err] d None by auto
  next
    case (Some t)
    hence new: "?new = t" by (simp add: moved_to_def)
    obtain c where c: "ParseCron (due_CronExpression row) = Inr c" "Next c now = Inr t"
      using Some by (auto simp: upcoming_def split: sum.splits)
    obtain rows1 where r1: "MarkRun Executed ?i (due_NextRunAt row) now t ''running'' [] rows = (Inr (), rows1)" "rows_wf rows1"
      "\<And>j. next_run rows1 j = (if j = ?i then Some t else next_run rows j)" using swap [of "''running''" "[]"] new by auto
    define rows2 where "rows2 = snd (MarkRun Executed ?i t now t (fst ?st) (snd ?st) rows1)"
    have s2: "mark_swap Executed now (fst ?st) (snd ?st) ?i t t rows1
        = (fst (MarkRun Executed ?i t now t (fst ?st) (snd ?st) rows1) = Inr (), rows2)"
      by (simp add: MarkRun_swap rows2_def)
    have "dispatch (\<lambda>_. Executed) msg invoke row now rows = ([row], rows2)"
      using c r1(1) by (simp add: dispatch_def dispatch_claim_def dispatch_finish_def rows2_def)
    moreover have "rows_wf rows2" by (rule mark_swap_wf [OF r1(2) s2])
    moreover have "next_run rows2 j = (if j = ?i then Some t else next_run rows j)" for j
      using mark_swap_next [OF s2, of j] r1(3) [of j] by auto
    ultimately show ?thesis using Some new by auto
  qed
qed

lemma dispatch_all_executed:
  assumes "rows_wf rows" "distinct (map due_TriggerID due)"
    "\<And>row. row \<in> set due \<Longrightarrow> next_run rows (due_TriggerID row) = Some (due_NextRunAt row)"
  shows "\<exists>rows'. dispatch_all (\<lambda>_. False) (\<lambda>_ _. Executed) msg invoke now due rows
      = (filter (\<lambda>row. upcoming now row \<noteq> None) due, rows') \<and> rows_wf rows'
    \<and> (\<forall>row \<in> set due. next_run rows' (due_TriggerID row) = Some (moved_to now row))
    \<and> (\<forall>j. j \<notin> due_TriggerID ` set due \<longrightarrow> next_run rows' j = next_run rows j)"
  using assms
proof (induction due arbitrary: rows)
  case (Cons row due)
  have due: "next_run rows (due_TriggerID row) = Some (due_NextRunAt row)" using Cons.prems(3) [of row] by simp
  obtain rows1 where r1: "dispatch (\<lambda>_. Executed) msg invoke row now rows = ((if upcoming now row = None then [] else [row]), rows1)"
    "rows_wf rows1" "\<And>j. next_run rows1 j = (if j = due_TriggerID row then Some (moved_to now row) else next_run rows j)"
    using dispatch_executed [OF Cons.prems(1) due] by blast
  have new: "due_TriggerID row \<notin> due_TriggerID ` set due" and dist: "distinct (map due_TriggerID due)" using Cons.prems(2) by simp_all
  have later: "next_run rows1 (due_TriggerID x) = Some (due_NextRunAt x)" if x: "x \<in> set due" for x
  proof -
    have "due_TriggerID x \<noteq> due_TriggerID row" using new x by (metis imageI)
    thus ?thesis using r1(3) Cons.prems(3) [of x] x by simp
  qed
  obtain rows2 where r2: "dispatch_all (\<lambda>_. False) (\<lambda>_ _. Executed) msg invoke now due rows1
      = (filter (\<lambda>row. upcoming now row \<noteq> None) due, rows2)" "rows_wf rows2"
    "\<forall>x \<in> set due. next_run rows2 (due_TriggerID x) = Some (moved_to now x)"
    "\<And>j. j \<notin> due_TriggerID ` set due \<Longrightarrow> next_run rows2 j = next_run rows1 j"
    using Cons.IH [OF r1(2) dist later] by blast
  have "dispatch_all (\<lambda>_. False) (\<lambda>_ _. Executed) msg invoke now (row # due) rows
      = (filter (\<lambda>row. upcoming now row \<noteq> None) (row # due), rows2)"
    using r1(1) r2(1) by simp
  moreover have "next_run rows2 (due_TriggerID row) = Some (moved_to now row)" using r2(4) [OF new] r1(3) by simp
  moreover have "next_run rows2 j = next_run rows j" if "j \<notin> due_TriggerID ` set (row # due)" for j
    using that r2(4) [of j] r1(3) [of j] by simp
  ultimately show ?case using r2(2,3) by auto
qed simp

text \<open>C28: A tick that meets no failure does its work on the first hundred due
  triggers in the order of their run times, which are all of them when there are
  at most a hundred.  It invokes exactly those whose expression parses and has a
  next run, once each, and moves each of these to that next run; a trigger whose
  expression does not parse or has no next run is moved a year ahead without an
  invocation; every new time is later than now, and no other trigger is touched.\<close>

theorem undisturbed_tick_fires_due:
  assumes "rows_wf rows" "distinct (map fn_id fns)"
  shows "case tick True (\<lambda>_. False) (\<lambda>_ _. Executed) msg invoke fns now rows of (invoked, rows') \<Rightarrow>
    (let due = take 100 (sort_key due_NextRunAt (due_rows fns now rows))
     in invoked = filter (\<lambda>row. upcoming now row \<noteq> None) due
        \<and> distinct (map due_TriggerID invoked)
        \<and> (\<forall>row \<in> set due. next_run rows' (due_TriggerID row) = Some (moved_to now row) \<and> now < moved_to now row)
        \<and> (\<forall>j. j \<notin> due_TriggerID ` set due \<longrightarrow> next_run rows' j = next_run rows j)
        \<and> (length (due_rows fns now rows) \<le> 100 \<longrightarrow> set due = set (due_rows fns now rows)))"
proof -
  let ?due = "take 100 (sort_key due_NextRunAt (due_rows fns now rows))"
  have listed: "ListDue True fns now batchLimit rows = Inr ?due" by (simp add: ListDue_def batchLimit_def)
  note due = ListDue_listed [OF listed assms(2,1)]
  obtain rows' where r: "dispatch_all (\<lambda>_. False) (\<lambda>_ _. Executed) msg invoke now ?due rows
      = (filter (\<lambda>row. upcoming now row \<noteq> None) ?due, rows')"
    "\<forall>row \<in> set ?due. next_run rows' (due_TriggerID row) = Some (moved_to now row)"
    "\<forall>j. j \<notin> due_TriggerID ` set ?due \<longrightarrow> next_run rows' j = next_run rows j"
    using dispatch_all_executed [OF assms(1) due] by blast
  have t: "tick True (\<lambda>_. False) (\<lambda>_ _. Executed) msg invoke fns now rows = (filter (\<lambda>row. upcoming now row \<noteq> None) ?due, rows')"
    using listed r(1) by (simp add: tick_def)
  have "distinct (map due_TriggerID (filter (\<lambda>row. upcoming now row \<noteq> None) ?due))" using due(1) by (rule distinct_map_filter)
  moreover have "length (due_rows fns now rows) \<le> 100 \<Longrightarrow> set ?due = set (due_rows fns now rows)" by simp
  ultimately show ?thesis unfolding t Let_def prod.case using r(2,3) moved_to_later by blast
qed

theorem undisturbed_tick_fires_due_witness:
  "let row = \<lparr>ct_id = ''t1'', ct_function = ''f1'', ct_expr = ''* * * * *'', ct_next = Some 7, ct_lastRun = None,
         ct_lastStatus = None, ct_lastError = None, ct_enabled = True\<rparr>;
       bad = row\<lparr>ct_id := ''t2'', ct_expr := ''never'', ct_next := Some 5\<rparr>;
       fn = \<lparr>fn_id = ''f1'', fn_name = ''prune'', fn_namespace = ''ns'', fn_status = ''active''\<rparr>
   in case tick True (\<lambda>_. False) (\<lambda>_ _. Executed) (\<lambda>_. []) (\<lambda>_. InvokeReturned True []) [fn] 60 [row, bad] of (invoked, rows') \<Rightarrow>
        map due_TriggerID invoked = [''t1''] \<and> (\<exists>x. next_run rows' ''t1'' = Some x \<and> 60 < x)
        \<and> next_run rows' ''t2'' = Some (60 + one_year)"
proof -
  let ?row = "\<lparr>ct_id = ''t1'', ct_function = ''f1'', ct_expr = ''* * * * *'', ct_next = Some 7, ct_lastRun = None,
         ct_lastStatus = None, ct_lastError = None, ct_enabled = True\<rparr>"
    and ?fn = "\<lparr>fn_id = ''f1'', fn_name = ''prune'', fn_namespace = ''ns'', fn_status = ''active''\<rparr>"
  let ?rows = "[?row, ?row\<lparr>ct_id := ''t2'', ct_expr := ''never'', ct_next := Some 5\<rparr>]"
  let ?due = "\<lparr>due_TriggerID = ''t1'', due_FunctionID = ''f1'', due_FunctionName = ''prune'', due_Namespace = ''ns'',
      due_CronExpression = ''* * * * *'', due_NextRunAt = 7\<rparr>"
    and ?bad = "\<lparr>due_TriggerID = ''t2'', due_FunctionID = ''f1'', due_FunctionName = ''prune'', due_Namespace = ''ns'',
      due_CronExpression = ''never'', due_NextRunAt = 5\<rparr>"
  have due: "take 100 (sort_key due_NextRunAt (due_rows [?fn] 60 ?rows)) = [?bad, ?due]" by (simp add: due_rows_def due_of_def)
  have bad: "upcoming 60 ?bad = None"
    by (simp add: upcoming_def ParseCron_def TrimSpace_def Fields_def FieldsFunc_def is_space_def)
  obtain c t where "ParseCron ''* * * * *'' = Inr c" "Next c 60 = Inr t" using every_minute_next by blast
  hence good: "upcoming 60 ?due = Some t" and t: "60 < t" using Next_later by (auto simp: upcoming_def)
  have wf: "rows_wf ?rows" "distinct (map fn_id [?fn])" by (simp_all add: rows_wf_def)
  show ?thesis
    using undisturbed_tick_fires_due [OF wf, of 60 "\<lambda>_. []" "\<lambda>_. InvokeReturned True []"]
    unfolding Let_def due by (auto simp: moved_to_def bad good t split: prod.splits)
qed

end
