(* ===== verification/Ephemeral_Store.thy ===== *)
theory Ephemeral_Store
  imports Token_Bucket "HOL-Library.Char_ord" "HOL-Library.List_Lexorder" "HOL-Library.Product_Lexorder"
begin

text \<open>
  The store of short-lived state owned by WebSocket clients
  (\<^verbatim>\<open>core/pkg/serverless/ephemeral_state.go\<close>).

  The two Go maps are HOL maps.  The order in which Go ranges over a map is
  unspecified: it is an argument \<open>iter\<close> that lists the keys of a set.  The
  publisher is an argument too; an operation returns the events that were
  published, in order.  A time to live is computed on 64-bit words, as the
  multiplication of the caller's milliseconds may overflow.
\<close>

section \<open>State\<close>

record stateKey =
  sk_namespace :: string
  sk_topic :: string
  sk_key :: string

record ephemeralEntry =
  ee_namespace :: string
  ee_topic :: string
  ee_key :: string
  ee_clientID :: string
  ee_payload :: "byte list"
  ee_expiresAt :: time_ns

datatype clear_reason = NoReason | Explicit | Disconnect | Expired

datatype event_type = EventSet | EventClear

record EphemeralEvent =
  ev_Type :: event_type
  ev_Topic :: string
  ev_Key :: string
  ev_ClientID :: string
  ev_Payload :: "byte list"
  ev_Reason :: clear_reason

record EphemeralStore =
  es_values :: "stateKey \<Rightarrow> ephemeralEntry option"
  es_owned :: "string \<Rightarrow> stateKey set option"

type_synonym publisher = "string \<Rightarrow> string \<Rightarrow> EphemeralEvent \<Rightarrow> bool"
type_synonym published = "(string \<times> string \<times> EphemeralEvent) list"

datatype ephemeral_error = NoWSClient | TopicKeyRequired | PayloadTooLarge | TooManyKeys | PublishFailed

definition ephemeralMaxKeysPerClient :: nat where "ephemeralMaxKeysPerClient = 256"
definition ephemeralMaxPayloadBytes :: nat where "ephemeralMaxPayloadBytes = 16 * 2 ^ 10"
definition ephemeralMaxTTL :: int where "ephemeralMaxTTL = 30 * 60 * 1000000000"
definition ephemeralDefaultTTL :: int where "ephemeralDefaultTTL = 60 * 1000000000"

definition NewEphemeralStore :: EphemeralStore where
  "NewEphemeralStore = \<lparr>es_values = Map.empty, es_owned = Map.empty\<rparr>"

section \<open>Operations\<close>

definition publishEvent :: "publisher option \<Rightarrow> string \<Rightarrow> string \<Rightarrow> EphemeralEvent \<Rightarrow> (ephemeral_error, unit) result \<times> published" where
  "publishEvent pub namespace topic evt =
     (case pub of
        None \<Rightarrow> (Inr (), [])
      | Some p \<Rightarrow> if p namespace topic evt then (Inr (), [(namespace, topic, evt)]) else (Inl PublishFailed, []))"

definition owned_set :: "EphemeralStore \<Rightarrow> string \<Rightarrow> stateKey set" where
  "owned_set s c = (case es_owned s c of None \<Rightarrow> {} | Some S \<Rightarrow> S)"

definition disown :: "string \<Rightarrow> stateKey \<Rightarrow> (string \<Rightarrow> stateKey set option) \<Rightarrow> (string \<Rightarrow> stateKey set option)" where
  "disown c sk owned =
     (case owned c of
        None \<Rightarrow> owned
      | Some S \<Rightarrow> (let S' = S - {sk} in if S' = {} then owned(c := None) else owned(c \<mapsto> S')))"

definition removeLocked :: "stateKey \<Rightarrow> ephemeralEntry \<Rightarrow> EphemeralStore \<Rightarrow> EphemeralStore" where
  "removeLocked sk entry s =
     \<lparr>es_values = (es_values s)(sk := None), es_owned = disown (ee_clientID entry) sk (es_owned s)\<rparr>"

definition effective_ttl :: "64 word \<Rightarrow> int" where
  "effective_ttl ttlMs =
     (let ttl = sint (ttlMs * 1000000);
          ttl = (if ttl \<le> 0 then ephemeralDefaultTTL else ttl)
      in if ttl > ephemeralMaxTTL then ephemeralMaxTTL else ttl)"

definition owns :: "EphemeralStore \<Rightarrow> string \<Rightarrow> stateKey \<Rightarrow> bool" where
  "owns s c sk = (case es_values s sk of None \<Rightarrow> False | Some e \<Rightarrow> ee_clientID e = c)"

definition Set_locked :: "time_ns \<Rightarrow> string \<Rightarrow> string \<Rightarrow> string \<Rightarrow> string \<Rightarrow> byte list \<Rightarrow> 64 word
    \<Rightarrow> EphemeralStore \<Rightarrow> (ephemeral_error, EphemeralStore) result" where
  "Set_locked now namespace clientID topic key payload ttlMs s =
     (let sk = \<lparr>sk_namespace = namespace, sk_topic = topic, sk_key = key\<rparr>;
          ownedSet = owned_set s clientID
      in if \<not> owns s clientID sk \<and> ephemeralMaxKeysPerClient \<le> card ownedSet then Inl TooManyKeys
         else let owned = (case es_values s sk of
                             None \<Rightarrow> es_owned s
                           | Some prev \<Rightarrow> if ee_clientID prev \<noteq> clientID then disown (ee_clientID prev) sk (es_owned s)
                                            else es_owned s)
              in Inr \<lparr>es_values = (es_values s)(sk \<mapsto>
                        \<lparr>ee_namespace = namespace, ee_topic = topic, ee_key = key, ee_clientID = clientID,
                         ee_payload = payload, ee_expiresAt = now + effective_ttl ttlMs\<rparr>),
                      es_owned = owned(clientID \<mapsto> insert sk ownedSet)\<rparr>)"

definition Set :: "publisher option \<Rightarrow> time_ns \<Rightarrow> string \<Rightarrow> string \<Rightarrow> string \<Rightarrow> string \<Rightarrow> byte list \<Rightarrow> 64 word
    \<Rightarrow> EphemeralStore \<Rightarrow> (ephemeral_error, unit) result \<times> EphemeralStore \<times> published" where
  "Set pub now namespace clientID topic key payload ttlMs s =
     (if clientID = '''' then (Inl NoWSClient, s, [])
      else if topic = '''' \<or> key = '''' then (Inl TopicKeyRequired, s, [])
      else if length payload > ephemeralMaxPayloadBytes then (Inl PayloadTooLarge, s, [])
      else case Set_locked now namespace clientID topic key payload ttlMs s of
             Inl e \<Rightarrow> (Inl e, s, [])
           | Inr s' \<Rightarrow>
               (let (r, evs) = publishEvent pub namespace topic
                      \<lparr>ev_Type = EventSet, ev_Topic = topic, ev_Key = key, ev_ClientID = clientID,
                       ev_Payload = payload, ev_Reason = NoReason\<rparr>
                in (r, s', evs)))"

definition clear_event :: "ephemeralEntry \<Rightarrow> string \<Rightarrow> clear_reason \<Rightarrow> EphemeralEvent" where
  "clear_event entry clientID reason =
     \<lparr>ev_Type = EventClear, ev_Topic = ee_topic entry, ev_Key = ee_key entry, ev_ClientID = clientID,
      ev_Payload = [], ev_Reason = reason\<rparr>"

definition Clear :: "publisher option \<Rightarrow> string \<Rightarrow> string \<Rightarrow> string \<Rightarrow> string \<Rightarrow> EphemeralStore
    \<Rightarrow> (ephemeral_error, unit) result \<times> EphemeralStore \<times> published" where
  "Clear pub namespace clientID topic key s =
     (if clientID = '''' then (Inl NoWSClient, s, [])
      else if topic = '''' \<or> key = '''' then (Inl TopicKeyRequired, s, [])
      else let sk = \<lparr>sk_namespace = namespace, sk_topic = topic, sk_key = key\<rparr>
           in case es_values s sk of
                None \<Rightarrow> (Inr (), s, [])
              | Some entry \<Rightarrow>
                  if ee_clientID entry \<noteq> clientID then (Inr (), s, [])
                  else let (r, evs) = publishEvent pub namespace topic
                             \<lparr>ev_Type = EventClear, ev_Topic = topic, ev_Key = key, ev_ClientID = clientID,
                              ev_Payload = [], ev_Reason = Explicit\<rparr>
                       in (r, removeLocked sk entry s, evs))"

record EphemeralListEntry =
  le_Key :: string
  le_ClientID :: string
  le_Payload :: "byte list"
  le_ExpiresInMs :: int

definition list_entry :: "time_ns \<Rightarrow> ephemeralEntry \<Rightarrow> EphemeralListEntry" where
  "list_entry now entry = \<lparr>le_Key = ee_key entry, le_ClientID = ee_clientID entry, le_Payload = ee_payload entry,
     le_ExpiresInMs = (ee_expiresAt entry - now) div 1000000\<rparr>"

definition List_entries :: "(stateKey set \<Rightarrow> stateKey list) \<Rightarrow> time_ns \<Rightarrow> string \<Rightarrow> string \<Rightarrow> EphemeralStore \<Rightarrow> EphemeralListEntry list" where
  "List_entries iter now namespace topic s =
     sort_key le_Key
       (List.map_filter
          (\<lambda>sk. case es_values s sk of
                  None \<Rightarrow> None
                | Some entry \<Rightarrow> if sk_namespace sk \<noteq> namespace \<or> sk_topic sk \<noteq> topic then None
                                 else if \<not> now < ee_expiresAt entry then None else Some (list_entry now entry))
          (iter (dom (es_values s))))"

definition publish_clears :: "publisher option \<Rightarrow> clear_reason \<Rightarrow> ephemeralEntry list \<Rightarrow> published" where
  "publish_clears pub reason entries =
     concat (map (\<lambda>e. snd (publishEvent pub (ee_namespace e) (ee_topic e) (clear_event e (ee_clientID e) reason))) entries)"

fun take_entries :: "stateKey list \<Rightarrow> (stateKey \<Rightarrow> ephemeralEntry option) \<Rightarrow> ephemeralEntry list
    \<Rightarrow> ephemeralEntry list \<times> (stateKey \<Rightarrow> ephemeralEntry option)" where
  "take_entries [] vals acc = (acc, vals)"
| "take_entries (sk # sks) vals acc =
     (case vals sk of
        None \<Rightarrow> take_entries sks vals acc
      | Some entry \<Rightarrow> take_entries sks (vals(sk := None)) (acc @ [entry]))"

definition clearClient_locked :: "(stateKey set \<Rightarrow> stateKey list) \<Rightarrow> string \<Rightarrow> EphemeralStore
    \<Rightarrow> ephemeralEntry list \<times> EphemeralStore" where
  "clearClient_locked iter clientID s =
     (let ownedSet = owned_set s clientID
      in if card ownedSet = 0 then ([], s\<lparr>es_owned := (es_owned s)(clientID := None)\<rparr>)
         else let (toClear, vals) = take_entries (iter ownedSet) (es_values s) []
              in (toClear, \<lparr>es_values = vals, es_owned = (es_owned s)(clientID := None)\<rparr>))"

definition ClearClient :: "publisher option \<Rightarrow> (stateKey set \<Rightarrow> stateKey list) \<Rightarrow> string \<Rightarrow> EphemeralStore \<Rightarrow> EphemeralStore \<times> published" where
  "ClearClient pub iter clientID s =
     (let (toClear, s') = clearClient_locked iter clientID s
      in (s', concat (map (\<lambda>e. snd (publishEvent pub (ee_namespace e) (ee_topic e) (clear_event e clientID Disconnect))) toClear)))"

fun sweep_loop :: "time_ns \<Rightarrow> stateKey list \<Rightarrow> EphemeralStore \<Rightarrow> ephemeralEntry list \<Rightarrow> ephemeralEntry list \<times> EphemeralStore" where
  "sweep_loop now [] s expired = (expired, s)"
| "sweep_loop now (sk # sks) s expired =
     (case es_values s sk of
        None \<Rightarrow> sweep_loop now sks s expired
      | Some entry \<Rightarrow>
          if ee_expiresAt entry < now then sweep_loop now sks (removeLocked sk entry s) (expired @ [entry])
          else sweep_loop now sks s expired)"

definition sweepExpired :: "publisher option \<Rightarrow> (stateKey set \<Rightarrow> stateKey list) \<Rightarrow> time_ns \<Rightarrow> EphemeralStore \<Rightarrow> EphemeralStore \<times> published" where
  "sweepExpired pub iter now s =
     (let (expired, s') = sweep_loop now (iter (dom (es_values s))) s []
      in (s', publish_clears pub Expired expired))"

section \<open>The ownership index\<close>

text \<open>The map of owned keys is an index of the values: it is determined by them.\<close>

definition keys_of :: "(stateKey \<Rightarrow> ephemeralEntry option) \<Rightarrow> string \<Rightarrow> stateKey set" where
  "keys_of vals c = {sk. \<exists>e. vals sk = Some e \<and> ee_clientID e = c}"

definition index :: "(stateKey \<Rightarrow> ephemeralEntry option) \<Rightarrow> string \<Rightarrow> stateKey set option" where
  "index vals c = (if keys_of vals c = {} then None else Some (keys_of vals c))"

definition entry_ok :: "stateKey \<Rightarrow> ephemeralEntry \<Rightarrow> bool" where
  "entry_ok sk e \<longleftrightarrow> ee_namespace e = sk_namespace sk \<and> ee_topic e = sk_topic sk \<and> ee_key e = sk_key sk
     \<and> ee_clientID e \<noteq> '''' \<and> ee_topic e \<noteq> '''' \<and> ee_key e \<noteq> '''' \<and> length (ee_payload e) \<le> ephemeralMaxPayloadBytes"

definition store_inv :: "EphemeralStore \<Rightarrow> bool" where
  "store_inv s \<longleftrightarrow> finite (dom (es_values s)) \<and> es_owned s = index (es_values s)
     \<and> (\<forall>c. card (keys_of (es_values s) c) \<le> ephemeralMaxKeysPerClient)
     \<and> (\<forall>sk e. es_values s sk = Some e \<longrightarrow> entry_ok sk e)"

definition iteration :: "(stateKey set \<Rightarrow> stateKey list) \<Rightarrow> bool" where
  "iteration iter \<longleftrightarrow> (\<forall>S. finite S \<longrightarrow> distinct (iter S) \<and> set (iter S) = S)"

lemma finite_keys_of: "finite (dom vals) \<Longrightarrow> finite (keys_of vals c)"
  by (rule finite_subset [of _ "dom vals"]) (auto simp: keys_of_def)

lemma owned_set_index: "es_owned s = index (es_values s) \<Longrightarrow> owned_set s c = keys_of (es_values s) c"
  by (simp add: owned_set_def index_def)

lemma owns_keys_of: "owns s c sk \<longleftrightarrow> sk \<in> keys_of (es_values s) c"
  by (simp add: owns_def keys_of_def split: option.splits)

lemma keys_of_update:
  "keys_of (vals(sk \<mapsto> e)) c = (if ee_clientID e = c then insert sk (keys_of vals c) else keys_of vals c - {sk})"
  by (auto simp: keys_of_def)

lemma keys_of_delete: "keys_of (vals(sk := None)) c = keys_of vals c - {sk}"
  by (auto simp: keys_of_def)

lemma keys_of_disjoint: "sk \<in> keys_of vals c \<Longrightarrow> c' \<noteq> c \<Longrightarrow> sk \<notin> keys_of vals c'"
  by (auto simp: keys_of_def)

lemma disown_index:
  assumes "vals sk = Some e"
  shows "disown (ee_clientID e) sk (index vals) = index (vals(sk := None))"
proof
  fix c
  have mem: "sk \<in> keys_of vals (ee_clientID e)" using assms by (simp add: keys_of_def)
  show "disown (ee_clientID e) sk (index vals) c = index (vals(sk := None)) c"
  proof (cases "c = ee_clientID e")
    case True
    thus ?thesis using mem by (auto simp: disown_def index_def keys_of_delete Let_def)
  next
    case False
    hence "keys_of vals c - {sk} = keys_of vals c" using keys_of_disjoint [OF mem] by simp
    thus ?thesis using False mem by (auto simp: disown_def index_def keys_of_delete Let_def)
  qed
qed

lemma index_update:
  assumes "\<And>e'. vals sk = Some e' \<Longrightarrow> ee_clientID e' = ee_clientID e"
  shows "(index vals)(ee_clientID e \<mapsto> insert sk (keys_of vals (ee_clientID e))) = index (vals(sk \<mapsto> e))"
proof
  fix c
  have "sk \<notin> keys_of vals c" if "c \<noteq> ee_clientID e" using assms that by (auto simp: keys_of_def)
  thus "((index vals)(ee_clientID e \<mapsto> insert sk (keys_of vals (ee_clientID e)))) c = index (vals(sk \<mapsto> e)) c"
    by (auto simp: index_def keys_of_update)
qed

lemma removeLocked_inv:
  assumes "store_inv s" "es_values s sk = Some e"
  shows "store_inv (removeLocked sk e s)"
proof -
  have "card (keys_of (es_values s) c - {sk}) \<le> ephemeralMaxKeysPerClient" for c
    using assms(1) card_Diff1_le [of "keys_of (es_values s) c" sk] by (auto simp: store_inv_def intro: le_trans)
  thus ?thesis using assms disown_index [of "es_values s" sk e]
    by (auto simp: store_inv_def removeLocked_def keys_of_delete)
qed

lemma Set_locked_inv:
  assumes "store_inv s" "Set_locked now ns c topic key payload ttl s = Inr s'"
    and "c \<noteq> ''''" "topic \<noteq> ''''" "key \<noteq> ''''" "length payload \<le> ephemeralMaxPayloadBytes"
  shows "store_inv s'"
proof -
  define sk where "sk = \<lparr>sk_namespace = ns, sk_topic = topic, sk_key = key\<rparr>"
  define e where "e = \<lparr>ee_namespace = ns, ee_topic = topic, ee_key = key, ee_clientID = c, ee_payload = payload,
    ee_expiresAt = now + effective_ttl ttl\<rparr>"
  let ?vals = "es_values s"
  have idx: "es_owned s = index ?vals" and fin: "finite (dom ?vals)" using assms(1) by (auto simp: store_inv_def)
  have ce: "ee_clientID e = c" by (simp add: e_def)
  have guard: "owns s c sk \<or> card (keys_of ?vals c) < ephemeralMaxKeysPerClient"
    using assms(2) by (auto simp: Set_locked_def Let_def sk_def owned_set_index [OF idx] split: if_splits)
  have s': "s' = \<lparr>es_values = ?vals(sk \<mapsto> e),
      es_owned = (case ?vals sk of None \<Rightarrow> index ?vals
        | Some prev \<Rightarrow> if ee_clientID prev \<noteq> c then disown (ee_clientID prev) sk (index ?vals) else index ?vals)
        (c \<mapsto> insert sk (keys_of ?vals c))\<rparr>"
    using assms(2) unfolding Set_locked_def Let_def sk_def [symmetric] e_def [symmetric] owned_set_index [OF idx] idx
    by (simp split: if_splits)
  have "(case ?vals sk of None \<Rightarrow> index ?vals
        | Some prev \<Rightarrow> if ee_clientID prev \<noteq> c then disown (ee_clientID prev) sk (index ?vals) else index ?vals)
        (c \<mapsto> insert sk (keys_of ?vals c)) = index (?vals(sk \<mapsto> e))"
  proof (cases "\<exists>prev. ?vals sk = Some prev \<and> ee_clientID prev \<noteq> c")
    case True
    then obtain prev where prev: "?vals sk = Some prev" "ee_clientID prev \<noteq> c" by blast
    have "keys_of (?vals(sk := None)) c = keys_of ?vals c" using prev by (auto simp: keys_of_def)
    thus ?thesis using index_update [of "?vals(sk := None)" sk e] disown_index [of ?vals sk prev] prev by (simp add: ce)
  next
    case False
    thus ?thesis using index_update [of ?vals sk e] by (auto simp: ce split: option.splits)
  qed
  moreover have "card (keys_of (?vals(sk \<mapsto> e)) c') \<le> ephemeralMaxKeysPerClient" for c'
  proof (cases "c' = c")
    case True
    thus ?thesis using guard finite_keys_of [OF fin, of c] assms(1)
      by (auto simp: keys_of_update ce owns_keys_of store_inv_def insert_absorb card_insert_if)
  next
    case False
    thus ?thesis using assms(1) card_Diff1_le [of "keys_of ?vals c'" sk]
      by (auto simp: keys_of_update ce store_inv_def intro: le_trans)
  qed
  moreover have "entry_ok sk e" using assms(3-6) by (simp add: entry_ok_def sk_def e_def)
  ultimately show ?thesis using assms(1) fin by (auto simp: s' store_inv_def)
qed

lemma take_entries_result:
  "distinct sks \<Longrightarrow> take_entries sks vals acc =
     (acc @ map (\<lambda>sk. the (vals sk)) (filter (\<lambda>sk. sk \<in> dom vals) sks), vals |` (- set sks))"
proof (induction sks arbitrary: vals acc)
  case (Cons sk sks)
  have r: "(vals(sk := None)) |` (- set sks) = vals |` (- set (sk # sks))"
    by (auto simp: restrict_map_def)
  have f: "map (\<lambda>sk'. the ((vals(sk := None)) sk')) (filter (\<lambda>sk'. sk' \<in> dom (vals(sk := None))) sks)
      = map (\<lambda>sk'. the (vals sk')) (filter (\<lambda>sk'. sk' \<in> dom vals) sks)"
    using Cons.prems by (intro map_cong filter_cong) auto
  show ?case
  proof (cases "vals sk")
    case None
    hence "vals |` (- set sks) = vals |` (- set (sk # sks))" by (auto simp: restrict_map_def)
    thus ?thesis using None Cons by (simp add: domIff)
  next
    case (Some e)
    have "take_entries (sk # sks) vals acc = take_entries sks (vals(sk := None)) (acc @ [e])" using Some by simp
    also have "\<dots> = ((acc @ [e]) @ map (\<lambda>sk. the (vals sk)) (filter (\<lambda>sk. sk \<in> dom vals) sks), vals |` (- set (sk # sks)))"
      using Cons.prems by (subst Cons.IH) (simp_all only: f r distinct.simps)
    finally show ?thesis using Some by (simp add: domI)
  qed
qed (simp add: restrict_map_def)

text \<open>What a disconnect does to the store.\<close>

lemma clearClient_locked_result:
  assumes "store_inv s" "iteration iter"
  shows "clearClient_locked iter c s =
    (map (\<lambda>sk. the (es_values s sk)) (iter (keys_of (es_values s) c)),
     \<lparr>es_values = es_values s |` (- keys_of (es_values s) c), es_owned = index (es_values s |` (- keys_of (es_values s) c))\<rparr>)"
proof -
  let ?K = "keys_of (es_values s) c"
  have idx: "es_owned s = index (es_values s)" and fin: "finite ?K"
    using assms(1) finite_keys_of by (auto simp: store_inv_def)
  have it: "distinct (iter ?K)" "set (iter ?K) = ?K" using assms(2) fin by (auto simp: iteration_def)
  have k: "keys_of (es_values s |` (- ?K)) c' = (if c' = c then {} else keys_of (es_values s) c')" for c'
    by (auto simp: keys_of_def restrict_map_def split: if_splits)
  have own: "(index (es_values s))(c := None) = index (es_values s |` (- ?K))"
    by (rule ext) (auto simp: index_def k)
  have all: "filter (\<lambda>sk. sk \<in> dom (es_values s)) (iter ?K) = iter ?K"
    using it(2) by (intro filter_True) (auto simp: keys_of_def)
  show ?thesis
  proof (cases "?K = {}")
    case True
    hence "iter {} = []" "es_values s |` (- ?K) = es_values s" using it(2) by (auto simp: restrict_map_def)
    moreover have "s\<lparr>es_owned := x\<rparr> = \<lparr>es_values = es_values s, es_owned = x\<rparr>" for x by (cases s) simp
    ultimately show ?thesis using own by (simp add: clearClient_locked_def owned_set_index [OF idx] True idx)
  next
    case False
    thus ?thesis using own fin it
      by (simp add: clearClient_locked_def owned_set_index [OF idx] idx take_entries_result all Let_def)
  qed
qed

lemma keys_of_restrict: "keys_of (vals |` (- K)) c = keys_of vals c - K"
  by (auto simp: keys_of_def restrict_map_def split: if_splits)

lemma restrict_inv:
  assumes "store_inv s"
  shows "store_inv \<lparr>es_values = es_values s |` (- K), es_owned = index (es_values s |` (- K))\<rparr>"
proof -
  have fin: "finite (dom (es_values s))" using assms by (simp add: store_inv_def)
  have "card (keys_of (es_values s) c - K) \<le> ephemeralMaxKeysPerClient" for c
    using assms card_mono [OF finite_keys_of [OF fin, of c], of "keys_of (es_values s) c - K"]
    by (auto simp: store_inv_def intro: le_trans)
  moreover have "finite (dom (es_values s |` (- K)))" using fin by simp
  moreover have "es_values s sk = Some e" if "(es_values s |` (- K)) sk = Some e" for sk e
    using that by (auto simp: restrict_map_def split: if_splits)
  ultimately show ?thesis using assms by (auto simp: store_inv_def keys_of_restrict)
qed

text \<open>What a sweep does to the store.\<close>

definition expired_keys :: "time_ns \<Rightarrow> (stateKey \<Rightarrow> ephemeralEntry option) \<Rightarrow> stateKey set" where
  "expired_keys now vals = {sk. \<exists>e. vals sk = Some e \<and> ee_expiresAt e < now}"

lemma sweep_loop_result:
  assumes "store_inv s" "distinct sks"
  shows "sweep_loop now sks s acc =
    (acc @ map (\<lambda>sk. the (es_values s sk)) (filter (\<lambda>sk. sk \<in> expired_keys now (es_values s)) sks),
     \<lparr>es_values = es_values s |` (- (set sks \<inter> expired_keys now (es_values s))),
      es_owned = index (es_values s |` (- (set sks \<inter> expired_keys now (es_values s))))\<rparr>)"
  using assms
proof (induction sks arbitrary: s acc)
  case Nil
  thus ?case by (simp add: store_inv_def)
next
  case (Cons sk sks)
  let ?E = "\<lambda>v. expired_keys now v" and ?vals = "es_values s"
  show ?case
  proof (cases "sk \<in> ?E ?vals")
    case False
    hence "set (sk # sks) \<inter> ?E ?vals = set sks \<inter> ?E ?vals" by auto
    moreover have "sweep_loop now (sk # sks) s acc = sweep_loop now sks s acc"
      using False by (auto simp: expired_keys_def split: option.splits)
    ultimately show ?thesis using Cons False by simp
  next
    case True
    then obtain e where e: "?vals sk = Some e" "ee_expiresAt e < now" by (auto simp: expired_keys_def)
    let ?s = "removeLocked sk e s"
    have v: "es_values ?s = ?vals(sk := None)" by (simp add: removeLocked_def)
    have r: "(?vals(sk := None)) |` (- (set sks \<inter> ?E (?vals(sk := None)))) = ?vals |` (- (set (sk # sks) \<inter> ?E ?vals))"
      using True Cons.prems(2) by (intro ext) (auto simp: restrict_map_def expired_keys_def)
    have f: "map (\<lambda>sk'. the ((?vals(sk := None)) sk')) (filter (\<lambda>sk'. sk' \<in> ?E (?vals(sk := None))) sks)
        = map (\<lambda>sk'. the (?vals sk')) (filter (\<lambda>sk'. sk' \<in> ?E ?vals) sks)"
      using Cons.prems(2) by (intro map_cong filter_cong) (auto simp: expired_keys_def)
    have "sweep_loop now (sk # sks) s acc = sweep_loop now sks ?s (acc @ [e])" using e by simp
    also have "\<dots> = ((acc @ [e]) @ map (\<lambda>sk'. the (?vals sk')) (filter (\<lambda>sk'. sk' \<in> ?E ?vals) sks),
        \<lparr>es_values = ?vals |` (- (set (sk # sks) \<inter> ?E ?vals)), es_owned = index (?vals |` (- (set (sk # sks) \<inter> ?E ?vals)))\<rparr>)"
      using Cons.prems(2) removeLocked_inv [OF Cons.prems(1) e(1)] by (subst Cons.IH) (simp_all only: v r f distinct.simps)
    finally show ?thesis using True e(1) by simp
  qed
qed


section \<open>Runs and subscribers\<close>

datatype eph_op =
    OpSet time_ns string string string string "byte list" "64 word"
  | OpClear string string string string
  | OpDisconnect string
  | OpSweep time_ns

fun exec_op :: "publisher option \<Rightarrow> (stateKey set \<Rightarrow> stateKey list) \<Rightarrow> eph_op \<Rightarrow> EphemeralStore \<Rightarrow> EphemeralStore \<times> published" where
  "exec_op pub iter (OpSet now ns c topic key payload ttl) s = snd (Set pub now ns c topic key payload ttl s)"
| "exec_op pub iter (OpClear ns c topic key) s = snd (Clear pub ns c topic key s)"
| "exec_op pub iter (OpDisconnect c) s = ClearClient pub iter c s"
| "exec_op pub iter (OpSweep now) s = sweepExpired pub iter now s"

fun run_ops :: "publisher option \<Rightarrow> (stateKey set \<Rightarrow> stateKey list) \<Rightarrow> eph_op list \<Rightarrow> EphemeralStore \<Rightarrow> EphemeralStore \<times> published" where
  "run_ops pub iter [] s = (s, [])"
| "run_ops pub iter (op # ops) s =
     (let (s1, evs1) = exec_op pub iter op s; (s2, evs2) = run_ops pub iter ops s1 in (s2, evs1 @ evs2))"

text \<open>A subscriber's local view: the owner and payload of each key, updated by
  the events as the event contract prescribes.\<close>

type_synonym view = "stateKey \<Rightarrow> (string \<times> byte list) option"

definition apply_event :: "view \<Rightarrow> string \<times> string \<times> EphemeralEvent \<Rightarrow> view" where
  "apply_event v p = (case p of (ns, topic, ev) \<Rightarrow>
     (let sk = \<lparr>sk_namespace = ns, sk_topic = topic, sk_key = ev_Key ev\<rparr>
      in case ev_Type ev of EventSet \<Rightarrow> v(sk \<mapsto> (ev_ClientID ev, ev_Payload ev)) | EventClear \<Rightarrow> v(sk := None)))"

definition view_of :: "EphemeralStore \<Rightarrow> view" where
  "view_of s = (\<lambda>sk. map_option (\<lambda>e. (ee_clientID e, ee_payload e)) (es_values s sk))"

abbreviation always_publishes :: "publisher option" where
  "always_publishes \<equiv> Some (\<lambda>ns topic ev. True)"

lemma store_inv_New [simp]: "store_inv NewEphemeralStore"
  by (auto simp: store_inv_def NewEphemeralStore_def keys_of_def index_def ephemeralMaxKeysPerClient_def)

lemma Clear_store:
  "fst (snd (Clear pub ns c topic key s)) =
     (let sk = \<lparr>sk_namespace = ns, sk_topic = topic, sk_key = key\<rparr>
      in case es_values s sk of
           Some e \<Rightarrow> if ee_clientID e = c \<and> c \<noteq> '''' \<and> topic \<noteq> '''' \<and> key \<noteq> '''' then removeLocked sk e s else s
         | None \<Rightarrow> s)"
  by (auto simp: Clear_def Let_def split: option.splits prod.splits)

lemma ClearClient_store:
  assumes "store_inv s" "iteration iter"
  shows "fst (ClearClient pub iter c s) = \<lparr>es_values = es_values s |` (- keys_of (es_values s) c),
    es_owned = index (es_values s |` (- keys_of (es_values s) c))\<rparr>"
  by (simp add: ClearClient_def clearClient_locked_result [OF assms])

lemma sweepExpired_result:
  assumes "store_inv s" "iteration iter"
  shows "sweepExpired pub iter now s =
    (\<lparr>es_values = es_values s |` (- expired_keys now (es_values s)), es_owned = index (es_values s |` (- expired_keys now (es_values s)))\<rparr>,
     publish_clears pub Expired (map (\<lambda>sk. the (es_values s sk))
       (filter (\<lambda>sk. sk \<in> expired_keys now (es_values s)) (iter (dom (es_values s))))))"
proof -
  have it: "distinct (iter (dom (es_values s)))" "set (iter (dom (es_values s))) = dom (es_values s)"
    using assms by (auto simp: store_inv_def iteration_def)
  have "dom (es_values s) \<inter> expired_keys now (es_values s) = expired_keys now (es_values s)"
    by (auto simp: expired_keys_def)
  thus ?thesis using sweep_loop_result [OF assms(1) it(1), of now "[]"] it(2) by (simp add: sweepExpired_def)
qed

lemma exec_op_inv [inv_intros]:
  assumes "store_inv s" "iteration iter"
  shows "store_inv (fst (exec_op pub iter op s))"
proof (cases op)
  case (OpSet now ns c topic key payload ttl)
  have "fst (snd (Set pub now ns c topic key payload ttl s)) = s \<or>
    (\<exists>s'. Set_locked now ns c topic key payload ttl s = Inr s' \<and> fst (snd (Set pub now ns c topic key payload ttl s)) = s'
      \<and> c \<noteq> '''' \<and> topic \<noteq> '''' \<and> key \<noteq> '''' \<and> length payload \<le> ephemeralMaxPayloadBytes)"
    by (auto simp: Set_def split: sum.splits prod.splits)
  thus ?thesis using OpSet Set_locked_inv [OF assms(1)] assms(1) by fastforce
next
  case (OpClear ns c topic key)
  thus ?thesis using assms(1) removeLocked_inv [OF assms(1)] by (auto simp: Clear_store Let_def split: option.splits)
next
  case (OpDisconnect c)
  thus ?thesis using restrict_inv [OF assms(1)] by (simp add: ClearClient_store [OF assms])
next
  case (OpSweep now)
  thus ?thesis using restrict_inv [OF assms(1)] by (simp add: sweepExpired_result [OF assms])
qed

lemma run_ops_inv:
  assumes "store_inv s" "iteration iter"
  shows "store_inv (fst (run_ops pub iter ops s))"
  using assms(1)
proof (induction ops arbitrary: s)
  case (Cons op ops)
  obtain s1 evs where st: "exec_op pub iter op s = (s1, evs)" by fastforce
  hence "store_inv s1" using exec_op_inv [OF Cons.prems assms(2), of pub op] by simp
  thus ?case using Cons.IH [of s1] st by (cases "run_ops pub iter ops s1") simp
qed simp

definition entry_key :: "ephemeralEntry \<Rightarrow> stateKey" where
  "entry_key e = \<lparr>sk_namespace = ee_namespace e, sk_topic = ee_topic e, sk_key = ee_key e\<rparr>"

lemma entry_key_ok: "entry_ok sk e \<Longrightarrow> entry_key e = sk"
  by (simp add: entry_key_def entry_ok_def)

lemma apply_clears:
  "foldl apply_event v (concat (map (\<lambda>e. snd (publishEvent always_publishes (ee_namespace e) (ee_topic e) (clear_event e (f e) r))) es))
     = v |` (- (entry_key ` set es))"
proof (induction es arbitrary: v)
  case (Cons e es)
  have step: "foldl apply_event v (snd (publishEvent always_publishes (ee_namespace e) (ee_topic e) (clear_event e (f e) r)))
      = v(entry_key e := None)"
    by (simp add: publishEvent_def apply_event_def clear_event_def entry_key_def)
  have "v(entry_key e := None) |` (- (entry_key ` set es)) = v |` (- (entry_key ` set (e # es)))"
    by (rule ext) (auto simp: restrict_map_def)
  thus ?case by (simp only: list.map concat.simps foldl_append step Cons.IH)
qed (simp add: restrict_map_def)

lemma entry_keys_of:
  assumes "store_inv s" "S \<subseteq> dom (es_values s)"
  shows "entry_key ` (\<lambda>sk. the (es_values s sk)) ` S = S"
proof -
  have "entry_key (the (es_values s sk)) = sk" if "sk \<in> S" for sk
    using that assms by (auto simp: store_inv_def intro!: entry_key_ok)
  thus ?thesis by (auto simp: image_image)
qed

lemma view_of_restrict: "view_of \<lparr>es_values = es_values s |` K, es_owned = x\<rparr> = view_of s |` K"
  by (rule ext) (auto simp: view_of_def restrict_map_def)

lemma exec_op_view:
  assumes "store_inv s" "iteration iter"
  shows "foldl apply_event (view_of s) (snd (exec_op always_publishes iter op s)) = view_of (fst (exec_op always_publishes iter op s))"
proof (cases op)
  case (OpSet now ns c topic key payload ttl)
  have "foldl apply_event (view_of s) (snd (snd (Set always_publishes now ns c topic key payload ttl s)))
      = view_of (fst (snd (Set always_publishes now ns c topic key payload ttl s)))"
    by (auto simp: Set_def Set_locked_def Let_def publishEvent_def apply_event_def view_of_def split: sum.splits if_splits)
  thus ?thesis using OpSet by simp
next
  case (OpClear ns c topic key)
  have "foldl apply_event (view_of s) (snd (snd (Clear always_publishes ns c topic key s)))
      = view_of (fst (snd (Clear always_publishes ns c topic key s)))"
    by (auto simp: Clear_def Let_def publishEvent_def apply_event_def view_of_def removeLocked_def split: option.splits)
  thus ?thesis using OpClear by simp
next
  case (OpDisconnect c)
  let ?K = "keys_of (es_values s) c"
  have it: "set (iter ?K) = ?K" using assms finite_keys_of by (simp add: store_inv_def iteration_def)
  have "entry_key ` (\<lambda>sk. the (es_values s sk)) ` ?K = ?K"
    by (rule entry_keys_of [OF assms(1)]) (auto simp: keys_of_def)
  hence "foldl apply_event (view_of s) (snd (ClearClient always_publishes iter c s)) = view_of s |` (- ?K)"
    using apply_clears [of "view_of s" "\<lambda>_. c"] it
    by (simp only: ClearClient_def clearClient_locked_result [OF assms] Let_def prod.case snd_conv set_map)
  thus ?thesis using OpDisconnect by (simp add: ClearClient_store [OF assms] view_of_restrict)
next
  case (OpSweep now)
  let ?K = "expired_keys now (es_values s)"
  have "set (iter (dom (es_values s))) = dom (es_values s)" using assms by (simp add: store_inv_def iteration_def)
  hence it: "set (filter (\<lambda>sk. sk \<in> ?K) (iter (dom (es_values s)))) = ?K" by (auto simp: expired_keys_def)
  have "entry_key ` (\<lambda>sk. the (es_values s sk)) ` ?K = ?K"
    by (rule entry_keys_of [OF assms(1)]) (auto simp: expired_keys_def)
  hence "foldl apply_event (view_of s) (snd (sweepExpired always_publishes iter now s)) = view_of s |` (- ?K)"
    using apply_clears [of "view_of s" ee_clientID] it by (simp only: sweepExpired_result [OF assms] publish_clears_def snd_conv set_map)
  thus ?thesis using OpSweep by (simp add: sweepExpired_result [OF assms] view_of_restrict)
qed

lemma run_ops_view:
  assumes "store_inv s" "iteration iter"
  shows "foldl apply_event (view_of s) (snd (run_ops always_publishes iter ops s)) = view_of (fst (run_ops always_publishes iter ops s))"
  using assms(1)
proof (induction ops arbitrary: s)
  case (Cons op ops)
  obtain s1 evs where st: "exec_op always_publishes iter op s = (s1, evs)" by fastforce
  hence "store_inv s1" "foldl apply_event (view_of s) evs = view_of s1"
    using exec_op_inv [OF Cons.prems assms(2), of always_publishes op] exec_op_view [OF Cons.prems assms(2), of op] by simp_all
  thus ?case using Cons.IH [of s1] st by (cases "run_ops always_publishes iter ops s1") simp
qed simp


section \<open>Properties\<close>

text \<open>An iteration order for the examples: keys in lexicographic order.\<close>

definition sorted_keys :: "stateKey set \<Rightarrow> stateKey list" where
  "sorted_keys S = map (\<lambda>(ns, t, k). \<lparr>sk_namespace = ns, sk_topic = t, sk_key = k\<rparr>)
     (sorted_list_of_set ((\<lambda>sk. (sk_namespace sk, sk_topic sk, sk_key sk)) ` S))"

lemma sorted_keys_iteration: "iteration sorted_keys"
proof -
  have eta: "\<lparr>sk_namespace = sk_namespace sk, sk_topic = sk_topic sk, sk_key = sk_key sk\<rparr> = sk" for sk :: stateKey
    by (cases sk) simp
  show ?thesis unfolding iteration_def by (auto simp: sorted_keys_def distinct_map inj_on_def image_image eta)
qed

text \<open>C15: The index of owned keys is exact.  After any sequence of operations,
  whatever the publisher does and in whatever order the maps are traversed, the
  store owns for each client exactly the keys whose value it set last, no empty
  set is kept, no client owns more than the limit, and every entry is stored
  under its own namespace, topic and key with a payload within the limit.\<close>

theorem ephemeral_index_exact:
  assumes "iteration iter" "s = fst (run_ops pub iter ops NewEphemeralStore)"
  shows "(\<forall>c. es_owned s c = (if {sk. owns s c sk} = {} then None else Some {sk. owns s c sk}))
    \<and> (\<forall>c. card {sk. owns s c sk} \<le> 256) \<and> finite (dom (es_values s))
    \<and> (\<forall>sk e. es_values s sk = Some e \<longrightarrow> entry_key e = sk \<and> ee_clientID e \<noteq> '''' \<and> length (ee_payload e) \<le> 16384)"
proof -
  have inv: "store_inv s" unfolding assms(2) by (rule run_ops_inv [OF store_inv_New assms(1)])
  have k: "{sk. owns s c sk} = keys_of (es_values s) c" for c by (auto simp: owns_keys_of)
  show ?thesis unfolding k using inv
    by (auto simp: store_inv_def index_def ephemeralMaxKeysPerClient_def entry_ok_def entry_key_def ephemeralMaxPayloadBytes_def)
qed

theorem ephemeral_index_exact_witness:
  "es_owned (fst (run_ops None sorted_keys [OpSet 0 ''ns'' ''c1'' ''t'' ''k'' [1] 5, OpSet 1 ''ns'' ''c2'' ''t'' ''k'' [2] 5] NewEphemeralStore)) ''c1'' = None"
proof -
  let ?s = "fst (run_ops None sorted_keys [OpSet 0 ''ns'' ''c1'' ''t'' ''k'' [1] 5, OpSet 1 ''ns'' ''c2'' ''t'' ''k'' [2] 5] NewEphemeralStore)"
  have "\<not> owns ?s ''c1'' sk" for sk
    by (simp add: Set_def Set_locked_def publishEvent_def owns_def NewEphemeralStore_def ephemeralMaxPayloadBytes_def
        ephemeralMaxKeysPerClient_def owned_set_def disown_def Let_def)
  hence "{sk. owns ?s ''c1'' sk} = {}" by blast
  moreover have "es_owned ?s ''c1'' = (if {sk. owns ?s ''c1'' sk} = {} then None else Some {sk. owns ?s ''c1'' sk})"
    using ephemeral_index_exact [OF sorted_keys_iteration refl] by blast
  ultimately show ?thesis by (simp only: if_True simp_thms)
qed

text \<open>C16: A disconnect removes exactly the state of the disconnected client.
  From every reachable state, its entries are gone, every other entry and every
  other client's index is untouched, and with a working publisher one clear
  event is published for each removed entry and nothing else.\<close>

theorem disconnect_clears_exactly:
  assumes "iteration iter" "s = fst (run_ops pub iter ops NewEphemeralStore)"
  shows "let (s', evs) = ClearClient always_publishes iter c s
    in es_values s' = (\<lambda>sk. if owns s c sk then None else es_values s sk)
      \<and> es_owned s' = (es_owned s)(c := None)
      \<and> length evs = card {sk. owns s c sk}
      \<and> set evs = (\<lambda>sk. (sk_namespace sk, sk_topic sk, \<lparr>ev_Type = EventClear, ev_Topic = sk_topic sk, ev_Key = sk_key sk,
            ev_ClientID = c, ev_Payload = [], ev_Reason = Disconnect\<rparr>)) ` {sk. owns s c sk}"
proof -
  let ?K = "keys_of (es_values s) c"
  have inv: "store_inv s" unfolding assms(2) by (rule run_ops_inv [OF store_inv_New assms(1)])
  have K: "{sk. owns s c sk} = ?K" by (auto simp: owns_keys_of)
  have idx: "es_owned s = index (es_values s)" and "finite ?K" using inv finite_keys_of by (auto simp: store_inv_def)
  hence it: "distinct (iter ?K)" "set (iter ?K) = ?K" using assms(1) by (auto simp: iteration_def)
  have own: "index (es_values s |` (- ?K)) = (es_owned s)(c := None)"
    unfolding idx by (rule ext) (auto simp: index_def keys_of_restrict dest: keys_of_disjoint)
  have ev: "(ee_namespace e, ee_topic e, clear_event e c Disconnect) =
      (sk_namespace sk, sk_topic sk, \<lparr>ev_Type = EventClear, ev_Topic = sk_topic sk, ev_Key = sk_key sk,
            ev_ClientID = c, ev_Payload = [], ev_Reason = Disconnect\<rparr>)" if "es_values s sk = Some e" for sk e
    using inv that by (simp add: store_inv_def entry_ok_def clear_event_def)
  have "set (map (\<lambda>sk. (ee_namespace (the (es_values s sk)), ee_topic (the (es_values s sk)), clear_event (the (es_values s sk)) c Disconnect)) (iter ?K))
      = (\<lambda>sk. (sk_namespace sk, sk_topic sk, \<lparr>ev_Type = EventClear, ev_Topic = sk_topic sk, ev_Key = sk_key sk,
            ev_ClientID = c, ev_Payload = [], ev_Reason = Disconnect\<rparr>)) ` ?K"
    unfolding set_map it(2) by (rule image_cong) (use ev in \<open>auto simp: keys_of_def\<close>)
  moreover have "length (iter ?K) = card ?K" using it distinct_card by metis
  moreover have "es_values s |` (- ?K) = (\<lambda>sk. if owns s c sk then None else es_values s sk)"
    by (auto simp: restrict_map_def owns_keys_of)
  ultimately show ?thesis using own
    by (simp add: ClearClient_def clearClient_locked_result [OF inv assms(1)] K publishEvent_def comp_def)
qed

theorem disconnect_clears_exactly_witness:
  "let s = fst (run_ops None sorted_keys [OpSet 0 ''ns'' ''c1'' ''t'' ''k'' [1] 5] NewEphemeralStore);
       (s', evs) = ClearClient always_publishes sorted_keys ''c1'' s
   in es_values s' = Map.empty"
proof -
  let ?s = "fst (run_ops None sorted_keys [OpSet 0 ''ns'' ''c1'' ''t'' ''k'' [1] 5] NewEphemeralStore)"
  have "(if owns ?s ''c1'' sk then None else es_values ?s sk) = None" for sk
    by (simp add: Set_def Set_locked_def publishEvent_def owns_def NewEphemeralStore_def ephemeralMaxPayloadBytes_def
        ephemeralMaxKeysPerClient_def owned_set_def Let_def)
  thus ?thesis using disconnect_clears_exactly [OF sorted_keys_iteration refl, where pub = None and ops = "[OpSet 0 ''ns'' ''c1'' ''t'' ''k'' [1] 5]" and c = "''c1''"]
    by (auto simp: Let_def split: prod.splits)
qed

text \<open>C10: The event stream is complete when publishing never fails and every
  operation delivers its events before the next one starts: a subscriber that
  starts with an empty view and applies the published events in order holds,
  after any such sequence of operations, exactly the owners and payloads the
  store holds.  The code publishes after it releases the lock and does not retry,
  so neither condition is enforced; what goes wrong when the events of two
  operations change places is shown at the end of this theory.\<close>

theorem events_track_state:
  assumes "iteration iter"
  shows "foldl apply_event Map.empty (snd (run_ops always_publishes iter ops NewEphemeralStore))
    = view_of (fst (run_ops always_publishes iter ops NewEphemeralStore))"
proof -
  have "view_of NewEphemeralStore = Map.empty" by (simp add: view_of_def NewEphemeralStore_def)
  thus ?thesis using run_ops_view [OF store_inv_New assms, of ops] by simp
qed

theorem events_track_state_witness:
  "foldl apply_event Map.empty (snd (run_ops always_publishes sorted_keys [OpSet 0 ''ns'' ''c1'' ''t'' ''k'' [1] 5, OpSweep 100000000, OpDisconnect ''c1''] NewEphemeralStore))
    = view_of (fst (run_ops always_publishes sorted_keys [OpSet 0 ''ns'' ''c1'' ''t'' ''k'' [1] 5, OpSweep 100000000, OpDisconnect ''c1''] NewEphemeralStore))"
  by (rule events_track_state [OF sorted_keys_iteration])

text \<open>The lifetime of an entry is positive and at most thirty minutes for
  every 64-bit argument, including those whose conversion to nanoseconds
  overflows, and it is the requested one for requests within the limit.\<close>

lemma effective_ttl_bounds:
  "0 < effective_ttl ttlMs \<and> effective_ttl ttlMs \<le> 30 * 60 * 1000000000
    \<and> (0 < sint ttlMs \<and> sint ttlMs \<le> 30 * 60 * 1000 \<longrightarrow> effective_ttl ttlMs = sint ttlMs * 1000000)"
proof -
  have "sint (ttlMs * 1000000) = sint ttlMs * 1000000" if "0 < sint ttlMs" "sint ttlMs \<le> 30 * 60 * 1000"
  proof -
    have "sint (ttlMs * 1000000) = signed_take_bit 63 (sint ttlMs * sint (1000000 :: 64 word))"
      by (simp add: signed_take_bit_mult sint_word_ariths)
    thus ?thesis using that by (simp add: signed_take_bit_int_eq_self_iff)
  qed
  thus ?thesis by (auto simp: effective_ttl_def Let_def ephemeralDefaultTTL_def ephemeralMaxTTL_def)
qed

lemma effective_ttl_bounds_example: "effective_ttl 1500 = 1500000000"
  using effective_ttl_bounds [of 1500] by simp


section \<open>Events delivered out of order\<close>

text \<open>The key an event speaks of, and the operations that set a key.\<close>

definition event_key :: "string \<times> string \<times> EphemeralEvent \<Rightarrow> stateKey" where
  "event_key p = (case p of (ns, topic, ev) \<Rightarrow> \<lparr>sk_namespace = ns, sk_topic = topic, sk_key = ev_Key ev\<rparr>)"

fun sets_key :: "stateKey \<Rightarrow> eph_op \<Rightarrow> bool" where
  "sets_key sk (OpSet now ns c topic key payload ttl) = (sk = \<lparr>sk_namespace = ns, sk_topic = topic, sk_key = key\<rparr>)"
| "sets_key sk op = False"

lemma apply_events_other_key:
  "\<forall>p \<in> set evs. event_key p \<noteq> sk \<Longrightarrow> foldl apply_event (v(sk \<mapsto> x)) evs = (foldl apply_event v evs)(sk \<mapsto> x)"
proof (induction evs arbitrary: v)
  case (Cons p evs)
  have "apply_event (v(sk \<mapsto> x)) p = (apply_event v p)(sk \<mapsto> x)"
    using Cons.prems by (auto simp: apply_event_def event_key_def Let_def fun_upd_twist split: prod.splits event_type.splits)
  thus ?case using Cons.IH [of "apply_event v p"] Cons.prems by (simp del: fun_upd_apply)
qed simp

lemma clear_events_keys:
  "event_key ` set (concat (map (\<lambda>e. snd (publishEvent pub (ee_namespace e) (ee_topic e) (clear_event e (f e) r))) es))
     \<subseteq> entry_key ` set es"
  by (auto simp: publishEvent_def event_key_def clear_event_def entry_key_def split: option.splits if_splits)

lemma clear_events_unset:
  assumes "store_inv s" "es_values s sk = None" "set ks \<subseteq> dom (es_values s)"
  shows "sk \<notin> event_key ` set (concat (map (\<lambda>e. snd (publishEvent pub (ee_namespace e) (ee_topic e) (clear_event e (f e) r)))
    (map (\<lambda>sk. the (es_values s sk)) ks)))"
  using clear_events_keys [of pub f r "map (\<lambda>sk. the (es_values s sk)) ks"] entry_keys_of [OF assms(1,3)] assms(2,3)
  by (simp only: set_map) blast

text \<open>As long as nobody sets a key the store lacks, no operation publishes
  anything about it.\<close>

lemma exec_op_unset_key:
  assumes "store_inv s" "iteration iter" "es_values s sk = None" "\<not> sets_key sk op"
  shows "es_values (fst (exec_op pub iter op s)) sk = None" "\<forall>p \<in> set (snd (exec_op pub iter op s)). event_key p \<noteq> sk"
proof -
  have both: "es_values (fst (exec_op pub iter op s)) sk = None \<and> sk \<notin> event_key ` set (snd (exec_op pub iter op s))"
  proof (cases op)
    case (OpSet now ns c topic key payload ttl)
    have "es_values (fst (snd (Set pub now ns c topic key payload ttl s))) sk = None
        \<and> sk \<notin> event_key ` set (snd (snd (Set pub now ns c topic key payload ttl s)))"
      using assms(3,4) OpSet
      by (auto simp: Set_def Set_locked_def Let_def publishEvent_def event_key_def split: sum.splits if_splits option.splits)
    thus ?thesis using OpSet by simp
  next
    case (OpClear ns c topic key)
    have "es_values (fst (snd (Clear pub ns c topic key s))) sk = None
        \<and> sk \<notin> event_key ` set (snd (snd (Clear pub ns c topic key s)))"
      using assms(3) by (auto simp: Clear_def Let_def publishEvent_def event_key_def removeLocked_def split: if_splits option.splits)
    thus ?thesis using OpClear by simp
  next
    case (OpDisconnect c)
    let ?K = "keys_of (es_values s) c"
    have "set (iter ?K) = ?K" using assms finite_keys_of by (simp add: store_inv_def iteration_def)
    hence "set (iter ?K) \<subseteq> dom (es_values s)" by (auto simp: keys_of_def)
    hence "sk \<notin> event_key ` set (snd (ClearClient pub iter c s))"
      using clear_events_unset [OF assms(1,3), of "iter ?K" pub "\<lambda>_. c" Disconnect]
      by (simp only: ClearClient_def clearClient_locked_result [OF assms(1,2)] Let_def prod.case snd_conv not_False_eq_True)
    thus ?thesis using OpDisconnect assms(3) by (simp add: ClearClient_store [OF assms(1,2)] restrict_map_def)
  next
    case (OpSweep now)
    let ?es = "filter (\<lambda>sk. sk \<in> expired_keys now (es_values s)) (iter (dom (es_values s)))"
    have "set (iter (dom (es_values s))) = dom (es_values s)" using assms by (simp add: store_inv_def iteration_def)
    hence "set ?es \<subseteq> dom (es_values s)" by auto
    hence "sk \<notin> event_key ` set (snd (sweepExpired pub iter now s))"
      using clear_events_unset [OF assms(1,3), of ?es pub ee_clientID Expired]
      by (simp only: sweepExpired_result [OF assms(1,2)] publish_clears_def snd_conv not_False_eq_True)
    thus ?thesis using OpSweep assms(3) by (simp add: sweepExpired_result [OF assms(1,2)] restrict_map_def)
  qed
  thus "es_values (fst (exec_op pub iter op s)) sk = None" "\<forall>p \<in> set (snd (exec_op pub iter op s)). event_key p \<noteq> sk" by auto
qed

lemma run_ops_unset_key:
  assumes "store_inv s" "iteration iter" "es_values s sk = None" "\<forall>op \<in> set ops. \<not> sets_key sk op"
  shows "es_values (fst (run_ops pub iter ops s)) sk = None \<and> (\<forall>p \<in> set (snd (run_ops pub iter ops s)). event_key p \<noteq> sk)"
  using assms(1,3,4)
proof (induction ops arbitrary: s)
  case (Cons op ops)
  obtain s1 evs where st: "exec_op pub iter op s = (s1, evs)" by fastforce
  hence "store_inv s1" "es_values s1 sk = None" "\<forall>p \<in> set evs. event_key p \<noteq> sk"
    using exec_op_inv [OF Cons.prems(1) assms(2), of pub op] exec_op_unset_key [OF Cons.prems(1) assms(2) Cons.prems(2), of op pub]
      Cons.prems(3) by auto
  thus ?case using Cons.IH [of s1] Cons.prems(3) st by (cases "run_ops pub iter ops s1") auto
qed simp

lemma Set_locked_view:
  "Set_locked now ns c topic key payload ttl s = Inr s' \<Longrightarrow>
     view_of s' = (view_of s)(\<lparr>sk_namespace = ns, sk_topic = topic, sk_key = key\<rparr> \<mapsto> (c, payload))
     \<and> owns s' c \<lparr>sk_namespace = ns, sk_topic = topic, sk_key = key\<rparr>"
  by (auto simp: Set_locked_def Let_def view_of_def owns_def split: if_splits)

text \<open>C36: Events are published after the lock is released, so the order of two
  publications may differ from the order of the two updates.  In any reachable
  store a client sets a key and disconnects; when the clear events of the
  disconnect are delivered before the set event, then after any further
  operations that do not set that key again the store does not hold the key, and
  the view of a subscriber differs from the store in exactly that key: it shows
  the payload of the client that left, and no sweep, clear or disconnect
  publishes an event that would remove it.\<close>

theorem late_set_event_is_never_cleared:
  assumes "iteration iter" "s = fst (run_ops always_publishes iter before NewEphemeralStore)"
    and "c \<noteq> ''''" "topic \<noteq> ''''" "key \<noteq> ''''" "length payload \<le> ephemeralMaxPayloadBytes"
    and "Set_locked now ns c topic key payload ttl s = Inr s1"
    and "s2 = snd (clearClient_locked iter c s1)"
    and "clear_evs = snd (ClearClient always_publishes iter c s1)"
    and "set_ev = (ns, topic, \<lparr>ev_Type = EventSet, ev_Topic = topic, ev_Key = key, ev_ClientID = c,
           ev_Payload = payload, ev_Reason = NoReason\<rparr>)"
    and "sk = \<lparr>sk_namespace = ns, sk_topic = topic, sk_key = key\<rparr>" "\<forall>op \<in> set after. \<not> sets_key sk op"
    and "s3 = fst (run_ops always_publishes iter after s2)" "evs = snd (run_ops always_publishes iter after s2)"
  shows "es_values s3 sk = None
    \<and> foldl apply_event (view_of s) (clear_evs @ [set_ev] @ evs) = (view_of s3)(sk \<mapsto> (c, payload))"
proof -
  have inv: "store_inv s" unfolding assms(2) by (rule run_ops_inv [OF store_inv_New assms(1)])
  have inv1: "store_inv s1" by (rule Set_locked_inv [OF inv assms(7,3-6)])
  let ?K = "keys_of (es_values s1) c"
  have v1: "view_of s1 = (view_of s)(sk \<mapsto> (c, payload))" and K: "sk \<in> ?K"
    using Set_locked_view [OF assms(7)] by (simp_all add: assms(11) owns_keys_of)
  have s2: "s2 = \<lparr>es_values = es_values s1 |` (- ?K), es_owned = index (es_values s1 |` (- ?K))\<rparr>"
    by (simp add: assms(8) clearClient_locked_result [OF inv1 assms(1)])
  have inv2: "store_inv s2" and none: "es_values s2 sk = None"
    using restrict_inv [OF inv1] K by (simp_all add: s2)
  have it: "set (iter ?K) = ?K" using assms(1) inv1 finite_keys_of by (simp add: store_inv_def iteration_def)
  have "entry_key ` (\<lambda>sk. the (es_values s1 sk)) ` ?K = ?K"
    by (rule entry_keys_of [OF inv1]) (auto simp: keys_of_def)
  hence "foldl apply_event (view_of s) clear_evs = view_of s |` (- ?K)"
    using apply_clears [of "view_of s" "\<lambda>_. c"] it
    by (simp only: assms(9) ClearClient_def clearClient_locked_result [OF inv1 assms(1)] Let_def prod.case snd_conv set_map)
  moreover have "view_of s |` (- ?K) = view_of s2"
    using K by (simp add: s2 view_of_restrict v1)
  ultimately have "foldl apply_event (view_of s) (clear_evs @ [set_ev]) = (view_of s2)(sk \<mapsto> (c, payload))"
    by (simp add: assms(10,11) apply_event_def)
  moreover have "foldl apply_event (view_of s2) evs = view_of s3"
    unfolding assms(13,14) by (rule run_ops_view [OF inv2 assms(1)])
  moreover have un: "es_values s3 sk = None" "\<forall>p \<in> set evs. event_key p \<noteq> sk"
    using run_ops_unset_key [OF inv2 assms(1) none assms(12), of always_publishes] by (simp_all add: assms(13,14))
  moreover have "clear_evs @ [set_ev] @ evs = (clear_evs @ [set_ev]) @ evs" by simp
  ultimately show ?thesis using apply_events_other_key [OF un(2), of "view_of s2" "(c, payload)"]
    by (simp only: foldl_append simp_thms)
qed

theorem late_set_event_is_never_cleared_witness:
  "\<exists>s1 s2 s3 clear_evs evs.
     Set_locked 0 ''ns'' ''c1'' ''t'' ''k'' [1] 5 NewEphemeralStore = Inr s1
     \<and> s2 = snd (clearClient_locked sorted_keys ''c1'' s1)
     \<and> (s3, evs) = run_ops always_publishes sorted_keys [OpSweep 3600000000000, OpSet 3600000000000 ''ns'' ''c2'' ''t'' ''j'' [2] 5] s2
     \<and> clear_evs = snd (ClearClient always_publishes sorted_keys ''c1'' s1)
     \<and> es_values s3 \<lparr>sk_namespace = ''ns'', sk_topic = ''t'', sk_key = ''k''\<rparr> = None
     \<and> foldl apply_event (view_of NewEphemeralStore) (clear_evs @ [(''ns'', ''t'', \<lparr>ev_Type = EventSet, ev_Topic = ''t'',
           ev_Key = ''k'', ev_ClientID = ''c1'', ev_Payload = [1], ev_Reason = NoReason\<rparr>)] @ evs) \<lparr>sk_namespace = ''ns'', sk_topic = ''t'', sk_key = ''k''\<rparr>
         = Some (''c1'', [1])"
proof -
  let ?after = "[OpSweep 3600000000000, OpSet 3600000000000 ''ns'' ''c2'' ''t'' ''j'' [2] 5]"
  obtain s1 where s1: "Set_locked 0 ''ns'' ''c1'' ''t'' ''k'' [1] 5 NewEphemeralStore = Inr s1"
    by (simp add: Set_locked_def NewEphemeralStore_def owned_set_def ephemeralMaxKeysPerClient_def Let_def)
  have s0: "NewEphemeralStore = fst (run_ops always_publishes sorted_keys [] NewEphemeralStore)" by simp
  have len: "length [1 :: byte] \<le> ephemeralMaxPayloadBytes" by (simp add: ephemeralMaxPayloadBytes_def)
  have no: "\<forall>op \<in> set ?after. \<not> sets_key \<lparr>sk_namespace = ''ns'', sk_topic = ''t'', sk_key = ''k''\<rparr> op" by simp
  have ne: "''c1'' \<noteq> ''''" "''t'' \<noteq> ''''" "''k'' \<noteq> ''''" by simp_all
  note w = late_set_event_is_never_cleared [OF sorted_keys_iteration s0 ne len s1 refl refl refl refl no refl refl]
  show ?thesis
    by (intro exI conjI, rule s1, rule refl, rule prod.collapse, rule refl, rule conjunct1 [OF w], subst conjunct2 [OF w]) simp
qed

end
