(* ===== verification/Lru_Cache.thy ===== *)
theory Lru_Cache
  imports Orama_Prelude
begin

text \<open>
  The contract of a bounded least-recently-used table, as its clients rely on
  it: after an access the key is first, the others keep their order, and keys
  beyond the capacity fall off at the end.  The shards of the function rate
  limiter (\<^verbatim>\<open>core/pkg/serverless/ratelimit.go\<close>) and the limiter cache of the
  namespace rate limiter (\<^verbatim>\<open>core/pkg/ratelimit/manager.go\<close>) satisfy it.
\<close>

definition lru_touch :: "nat \<Rightarrow> 'k \<Rightarrow> 'k list \<Rightarrow> 'k list" where
  "lru_touch n k ks = take n (k # removeAll k ks)"

lemma lru_touch_distinct: "distinct ks \<Longrightarrow> distinct (lru_touch n k ks)"
  unfolding lru_touch_def by (rule distinct_take) (simp add: distinct_removeAll)

lemma lru_touch_length: "length (lru_touch n k ks) \<le> n"
  by (simp add: lru_touch_def)

lemma lru_touch_present:
  assumes "distinct ks" "length ks \<le> n" "k \<in> set ks"
  shows "lru_touch n k ks = k # removeAll k ks"
proof -
  have "length (removeAll k ks) < length ks"
    using assms(3) by (simp add: length_removeAll_less)
  thus ?thesis using assms(2) by (simp add: lru_touch_def)
qed

lemma lru_touch_room: "k \<notin> set ks \<Longrightarrow> length ks < n \<Longrightarrow> lru_touch n k ks = k # ks"
  by (simp add: lru_touch_def removeAll_id)

lemma lru_touch_full:
  assumes "k \<notin> set ks" "length ks = n" "0 < n"
  shows "lru_touch n k ks = k # butlast ks"
  using assms by (cases n) (simp_all add: lru_touch_def removeAll_id butlast_conv_take)

text \<open>The keys in front of \<open>k\<close>.\<close>

abbreviation newer :: "'k \<Rightarrow> 'k list \<Rightarrow> 'k list" where
  "newer k ks \<equiv> takeWhile (\<lambda>x. x \<noteq> k) ks"

lemma newer_removeAll: "newer k (removeAll x ks) = removeAll x (newer k ks)" if "x \<noteq> k"
  using that by (induction ks) auto

lemma newer_take: "set (newer k (take n ks)) \<subseteq> set (newer k ks)"
proof (induction ks arbitrary: n)
  case (Cons a ks)
  thus ?case by (cases n) auto
qed simp

lemma in_take_newer:
  assumes "k \<in> set ks" "length (newer k ks) < n"
  shows "k \<in> set (take n ks)"
proof -
  have "length (newer k ks) < length ks"
    using assms(1) by (induction ks) auto
  moreover from this have "ks ! length (newer k ks) = k"
    using nth_length_takeWhile [of "\<lambda>x. x \<noteq> k" ks] by auto
  ultimately show ?thesis using assms(2) by (metis in_set_conv_nth length_take min_less_iff_conj nth_take)
qed

locale lru_table =
  fixes keys :: "'s \<Rightarrow> 'k list" and cap :: "'s \<Rightarrow> nat" and access :: "'k \<Rightarrow> 's \<Rightarrow> 's"
    and inv :: "'s \<Rightarrow> bool"
  assumes access_keys: "inv s \<Longrightarrow> keys (access k s) = lru_touch (cap s) k (keys s)"
    and access_cap: "inv s \<Longrightarrow> cap (access k s) = cap s"
    and access_inv: "inv s \<Longrightarrow> inv (access k s)"
    and inv_distinct: "inv s \<Longrightarrow> distinct (keys s)"
    and inv_cap: "inv s \<Longrightarrow> 0 < cap s"
begin

lemma fold_access_inv: "inv s \<Longrightarrow> inv (fold access ks s) \<and> cap (fold access ks s) = cap s"
  by (induction ks arbitrary: s) (auto simp: access_inv access_cap)

lemma bounded: "inv s \<Longrightarrow> length (keys (access k s)) \<le> cap s"
  by (simp add: access_keys lru_touch_length)

lemma accessed_first: "inv s \<Longrightarrow> hd (keys (access k s)) = k \<and> k \<in> set (keys (access k s))"
  using inv_cap [of s] by (cases "cap s") (simp_all add: access_keys lru_touch_def)

text \<open>A key survives as long as fewer than \<open>cap\<close> other keys are accessed.\<close>

lemma recently_used_kept_aux:
  assumes "inv s" "k \<in> set (keys s)" "set (newer k (keys s)) \<subseteq> A" "k \<notin> A" "finite A" "card A < cap s"
    "set ks \<subseteq> insert k A"
  shows "k \<in> set (keys (fold access ks s))"
  using assms
proof (induction ks arbitrary: s)
  case (Cons x ks)
  let ?s = "access x s" and ?ks = "removeAll x (keys s)"
  note nd = inv_distinct [OF Cons.prems(1)]
  have "k \<in> set (keys ?s) \<and> set (newer k (keys ?s)) \<subseteq> A"
  proof (cases "x = k")
    case True
    obtain c where "cap s = Suc c" using inv_cap [OF Cons.prems(1)] by (cases "cap s") auto
    thus ?thesis using Cons.prems(1) True by (simp add: access_keys lru_touch_def)
  next
    case False
    have sub: "set (newer k (x # ?ks)) \<subseteq> A"
      using False Cons.prems by (auto simp: newer_removeAll)
    have "distinct (newer k (x # ?ks))"
      using nd by (intro distinct_takeWhile) (simp add: distinct_removeAll)
    hence "length (newer k (x # ?ks)) < cap s"
      using card_mono [OF Cons.prems(5) sub] Cons.prems(6) by (metis distinct_card order_le_less_trans)
    moreover have "k \<in> set (x # ?ks)" using Cons.prems(2) False by simp
    ultimately have "k \<in> set (take (cap s) (x # ?ks))" by (rule in_take_newer [rotated])
    thus ?thesis
      using Cons.prems(1) sub newer_take [of k "cap s" "x # ?ks"] by (auto simp: access_keys lru_touch_def)
  qed
  thus ?case using Cons by (auto simp: access_inv access_cap)
qed simp

lemma recently_used_kept:
  assumes "inv s" "card (set ks - {k}) < cap s"
  shows "k \<in> set (keys (fold access ks (access k s)))"
proof (rule recently_used_kept_aux [where A = "set ks - {k}"])
  obtain c where "cap s = Suc c" using inv_cap [OF assms(1)] by (cases "cap s") auto
  thus "set (newer k (keys (access k s))) \<subseteq> set ks - {k}"
    using assms(1) by (simp add: access_keys lru_touch_def)
qed (use assms accessed_first in \<open>auto simp: access_inv access_cap\<close>)

end

end
