(* ===== verification/Function_Rate_Limit.thy ===== *)
theory Function_Rate_Limit
  imports Token_Bucket Lru_Cache
begin

text \<open>
  The multi-tier limiter of function invocations,
  \<^verbatim>\<open>core/pkg/serverless/ratelimit.go\<close>: sharded LRU tables of token buckets and
  the layered decision of \<^verbatim>\<open>AllowRequest\<close>.

  A shard's \<^verbatim>\<open>order\<close> list holds its keys, most recent first; \<^verbatim>\<open>keyToEl\<close>
  maps a key to its element of that list and is represented by the key's
  position, which is unique because the keys are distinct.  The number of
  buckets of a shard is the length of \<^verbatim>\<open>order\<close>, which lists the same keys
  (invariant \<open>shard_inv\<close>).  The clock reading of a call is an argument.
\<close>

section \<open>Requests and configuration\<close>

record PerFunctionRateLimit =
  ov_PerWalletPerMinute :: int
  ov_PerWalletBurst :: int

record RateLimitRequest =
  Namespace :: string
  Function :: string
  Wallet :: string
  IP :: string
  Override :: "PerFunctionRateLimit option"

record LimiterConfig =
  PerWalletPerMinute :: int
  PerWalletBurst :: int
  PerNamespacePerMinute :: int
  PerNamespaceBurst :: int
  PerIPPerMinute :: int
  PerIPBurst :: int
  MaxBucketsPerScope :: int

definition DefaultLimiterConfig :: LimiterConfig where
  "DefaultLimiterConfig =
     \<lparr>PerWalletPerMinute = 600, PerWalletBurst = 60,
      PerNamespacePerMinute = 60000, PerNamespaceBurst = 6000,
      PerIPPerMinute = 120, PerIPBurst = 30, MaxBucketsPerScope = 100000\<rparr>"

section \<open>Sharded LRU tables\<close>

definition lruShards :: nat where
  "lruShards = 16"

record bucketShard =
  sh_buckets :: "string \<Rightarrow> tokenBucket option"
  sh_order :: "string list"
  sh_cap :: nat

type_synonym lruBuckets = "bucketShard list"

definition newLRUBuckets :: "int \<Rightarrow> lruBuckets" where
  "newLRUBuckets capacity =
     (let per = capacity div 16; per' = (if per < 1 then 1 else per)
      in replicate lruShards \<lparr>sh_buckets = Map.empty, sh_order = [], sh_cap = nat per'\<rparr>)"

text \<open>FNV-1a on 32 bits.\<close>

definition shardIdx :: "string \<Rightarrow> nat" where
  "shardIdx key =
     unat (fold (\<lambda>c h. (h XOR of_char c) * 16777619) key (2166136261 :: 32 word)) mod lruShards"

definition shard_entry :: "string \<Rightarrow> rat \<Rightarrow> rat \<Rightarrow> time_ns \<Rightarrow> bucketShard \<Rightarrow> tokenBucket \<times> bucketShard" where
  "shard_entry key ratePerSec burst now s =
     (case sh_buckets s key of
        None \<Rightarrow>
          (let s1 = (if length (sh_order s) \<ge> sh_cap s \<and> sh_order s \<noteq> []
                     then s\<lparr>sh_buckets := (sh_buckets s)(last (sh_order s) := None),
                            sh_order := butlast (sh_order s)\<rparr>
                     else s);
               b = \<lparr>tb_tokens = burst, tb_max = burst, tb_refill = ratePerSec, tb_lastRefill = now\<rparr>
           in (b, s1\<lparr>sh_order := key # sh_order s1\<rparr>))
      | Some b \<Rightarrow>
          (b\<lparr>tb_refill := ratePerSec, tb_max := burst\<rparr>,
           s\<lparr>sh_order := key # removeAll key (sh_order s)\<rparr>))"

definition shard_tryConsume :: "string \<Rightarrow> rat \<Rightarrow> rat \<Rightarrow> time_ns \<Rightarrow> bucketShard \<Rightarrow> decision \<times> bucketShard" where
  "shard_tryConsume key ratePerSec burst now s =
     (let (b, s1) = shard_entry key ratePerSec burst now s;
          (d, b') = tokenBucket_tryConsume now b
      in (d, s1\<lparr>sh_buckets := (sh_buckets s1)(key := Some b')\<rparr>))"

definition lru_tryConsume :: "string \<Rightarrow> rat \<Rightarrow> rat \<Rightarrow> time_ns \<Rightarrow> lruBuckets \<Rightarrow> decision \<times> lruBuckets" where
  "lru_tryConsume key ratePerSec burst now l =
     (let i = shardIdx key; (d, s) = shard_tryConsume key ratePerSec burst now (l ! i)
      in (d, l[i := s]))"

section \<open>The layered decision\<close>

record MultiTierLimiter =
  mt_cfg :: LimiterConfig
  fnWalletBuckets :: lruBuckets
  walletBuckets :: lruBuckets
  namespaceBuckets :: lruBuckets
  ipBuckets :: lruBuckets

definition positive_or :: "int \<Rightarrow> int \<Rightarrow> int" where
  "positive_or d x = (if x \<le> 0 then d else x)"

definition NewMultiTierLimiter :: "LimiterConfig \<Rightarrow> MultiTierLimiter" where
  "NewMultiTierLimiter cfg0 =
     (let cfg = \<lparr>PerWalletPerMinute = positive_or 600 (PerWalletPerMinute cfg0),
                 PerWalletBurst = positive_or 60 (PerWalletBurst cfg0),
                 PerNamespacePerMinute = positive_or 60000 (PerNamespacePerMinute cfg0),
                 PerNamespaceBurst = positive_or 6000 (PerNamespaceBurst cfg0),
                 PerIPPerMinute = positive_or 120 (PerIPPerMinute cfg0),
                 PerIPBurst = positive_or 30 (PerIPBurst cfg0),
                 MaxBucketsPerScope = positive_or 100000 (MaxBucketsPerScope cfg0)\<rparr>;
          fresh = newLRUBuckets (MaxBucketsPerScope cfg)
      in \<lparr>mt_cfg = cfg, fnWalletBuckets = fresh, walletBuckets = fresh,
          namespaceBuckets = fresh, ipBuckets = fresh\<rparr>)"

definition tier_function :: "time_ns \<Rightarrow> RateLimitRequest \<Rightarrow> MultiTierLimiter \<Rightarrow> decision option \<times> MultiTierLimiter" where
  "tier_function now req l =
     (case Override req of
        Some ov \<Rightarrow>
          if ov_PerWalletPerMinute ov > 0 \<and> Wallet req \<noteq> ''''
          then let key = Namespace req @ ''/'' @ Function req @ ''/'' @ Wallet req;
                   burst0 = ov_PerWalletBurst ov;
                   burst1 = ov_PerWalletPerMinute ov div 10;
                   burst = (if burst0 \<le> 0 then (if burst1 \<le> 0 then 1 else burst1) else burst0);
                   (d, t) = lru_tryConsume key (of_int (ov_PerWalletPerMinute ov) / 60) (of_int burst) now
                              (fnWalletBuckets l);
                   l' = l\<lparr>fnWalletBuckets := t\<rparr>
               in (if Allowed d then None else Some (d\<lparr>Scope := ''per_function_wallet''\<rparr>), l')
          else (None, l)
      | None \<Rightarrow> (None, l))"

definition tier_caller :: "time_ns \<Rightarrow> RateLimitRequest \<Rightarrow> MultiTierLimiter \<Rightarrow> decision option \<times> MultiTierLimiter" where
  "tier_caller now req l =
     (if Wallet req \<noteq> ''''
      then let (d, t) = lru_tryConsume (Namespace req @ ''/'' @ Wallet req)
                          (of_int (PerWalletPerMinute (mt_cfg l)) / 60) (of_int (PerWalletBurst (mt_cfg l)))
                          now (walletBuckets l)
           in (if Allowed d then None else Some (d\<lparr>Scope := ''per_wallet''\<rparr>), l\<lparr>walletBuckets := t\<rparr>)
      else if IP req \<noteq> ''''
      then let (d, t) = lru_tryConsume (Namespace req @ ''/'' @ IP req)
                          (of_int (PerIPPerMinute (mt_cfg l)) / 60) (of_int (PerIPBurst (mt_cfg l)))
                          now (ipBuckets l)
           in (if Allowed d then None else Some (d\<lparr>Scope := ''per_ip''\<rparr>), l\<lparr>ipBuckets := t\<rparr>)
      else (None, l))"

definition tier_namespace :: "time_ns \<Rightarrow> RateLimitRequest \<Rightarrow> MultiTierLimiter \<Rightarrow> decision option \<times> MultiTierLimiter" where
  "tier_namespace now req l =
     (if Namespace req \<noteq> ''''
      then let (d, t) = lru_tryConsume (Namespace req)
                          (of_int (PerNamespacePerMinute (mt_cfg l)) / 60)
                          (of_int (PerNamespaceBurst (mt_cfg l))) now (namespaceBuckets l)
           in (if Allowed d then None else Some (d\<lparr>Scope := ''per_namespace''\<rparr>), l\<lparr>namespaceBuckets := t\<rparr>)
      else (None, l))"

definition AllowRequest :: "time_ns \<Rightarrow> RateLimitRequest \<Rightarrow> MultiTierLimiter \<Rightarrow> decision \<times> MultiTierLimiter" where
  "AllowRequest now req l =
     (case tier_function now req l of
        (Some d, l1) \<Rightarrow> (d, l1)
      | (None, l1) \<Rightarrow>
          (case tier_caller now req l1 of
             (Some d, l2) \<Rightarrow> (d, l2)
           | (None, l2) \<Rightarrow>
               (case tier_namespace now req l2 of
                  (Some d, l3) \<Rightarrow> (d, l3)
                | (None, l3) \<Rightarrow> (\<lparr>Allowed = True, RetryAfter = 0, Scope = ''''\<rparr>, l3))))"

definition MultiTierLimiter_Allow :: "time_ns \<Rightarrow> string \<Rightarrow> MultiTierLimiter \<Rightarrow> bool \<times> MultiTierLimiter" where
  "MultiTierLimiter_Allow now key l =
     map_prod Allowed id (AllowRequest now
       \<lparr>Namespace = ''_global'', Function = '''', Wallet = key, IP = '''', Override = None\<rparr> l)"

section \<open>The shards are LRU tables\<close>

definition shard_inv :: "bucketShard \<Rightarrow> bool" where
  "shard_inv s \<longleftrightarrow> distinct (sh_order s) \<and> set (sh_order s) = dom (sh_buckets s)
     \<and> length (sh_order s) \<le> sh_cap s \<and> 0 < sh_cap s"

lemma shard_order:
  assumes "shard_inv s"
  shows "sh_order (snd (shard_tryConsume key r c now s)) = lru_touch (sh_cap s) key (sh_order s)"
proof (cases "sh_buckets s key")
  case None
  hence nk: "key \<notin> set (sh_order s)" using assms by (auto simp: shard_inv_def)
  show ?thesis
  proof (cases "length (sh_order s) \<ge> sh_cap s")
    case True
    hence "length (sh_order s) = sh_cap s" "sh_order s \<noteq> []" using assms by (auto simp: shard_inv_def)
    thus ?thesis using nk None assms lru_touch_full [OF nk]
      by (simp add: shard_tryConsume_def shard_entry_def Let_def shard_inv_def split: prod.splits)
  next
    case False
    thus ?thesis using nk None lru_touch_room [OF nk]
      by (simp add: shard_tryConsume_def shard_entry_def Let_def split: prod.splits)
  qed
next
  case (Some b)
  thus ?thesis using assms
    by (subst lru_touch_present)
      (auto simp: shard_tryConsume_def shard_entry_def shard_inv_def Let_def dom_def split: prod.splits)
qed

lemma shard_dom:
  assumes "shard_inv s"
  shows "dom (sh_buckets (snd (shard_tryConsume key r c now s))) = set (lru_touch (sh_cap s) key (sh_order s))"
proof -
  have "set (sh_order (snd (shard_tryConsume key r c now s))) = dom (sh_buckets (snd (shard_tryConsume key r c now s)))"
  proof (cases "sh_buckets s key")
    case None
    have "set (butlast xs) = set xs - {last xs}" if "distinct xs" "xs \<noteq> []" for xs :: "string list"
      using that by (metis Diff_insert_absorb append_butlast_last_id distinct.simps(2) distinct1_rotate
          list.simps(15) rotate1.simps(2) set_rotate1)
    thus ?thesis using assms None
      by (auto simp: shard_tryConsume_def shard_entry_def shard_inv_def Let_def split: prod.splits)
  next
    case (Some b)
    thus ?thesis using assms
      by (auto simp: shard_tryConsume_def shard_entry_def shard_inv_def Let_def split: prod.splits)
  qed
  thus ?thesis using shard_order [OF assms] by simp
qed

lemma shard_cap [simp]: "sh_cap (snd (shard_tryConsume key r c now s)) = sh_cap s"
  by (auto simp: shard_tryConsume_def shard_entry_def Let_def split: option.splits prod.splits)

lemma shard_inv_tryConsume [inv_intros]:
  assumes "shard_inv s"
  shows "shard_inv (snd (shard_tryConsume key r c now s))"
  using assms lru_touch_distinct lru_touch_length shard_order [OF assms] shard_dom [OF assms]
  by (auto simp: shard_inv_def)

interpretation shard_lru: lru_table sh_order sh_cap "\<lambda>key s. snd (shard_tryConsume key r c now s)" shard_inv
  for r c now
  by unfold_locales (auto simp: shard_order shard_inv_tryConsume, auto simp: shard_inv_def)

section \<open>Invariant of the limiter\<close>

definition lru_inv :: "lruBuckets \<Rightarrow> bool" where
  "lru_inv l \<longleftrightarrow> length l = lruShards \<and> (\<forall>s\<in>set l. shard_inv s)"

definition limiter_inv :: "MultiTierLimiter \<Rightarrow> bool" where
  "limiter_inv l \<longleftrightarrow> lru_inv (fnWalletBuckets l) \<and> lru_inv (walletBuckets l)
     \<and> lru_inv (namespaceBuckets l) \<and> lru_inv (ipBuckets l)"

lemma shardIdx_less [simp]: "shardIdx key < 16"
  by (simp add: shardIdx_def lruShards_def)

lemma lru_inv_new [simp]: "lru_inv (newLRUBuckets c)"
  by (auto simp: lru_inv_def newLRUBuckets_def Let_def shard_inv_def)

lemma lru_inv_tryConsume [inv_intros]:
  assumes "lru_inv l"
  shows "lru_inv (snd (lru_tryConsume key r c now l))"
proof -
  have "shard_inv (l ! shardIdx key)"
    using assms nth_mem [of "shardIdx key" l] by (auto simp: lru_inv_def lruShards_def)
  hence "shard_inv (snd (shard_tryConsume key r c now (l ! shardIdx key)))" by (rule shard_inv_tryConsume)
  thus ?thesis
    using assms set_update_subset_insert [of l "shardIdx key"]
    by (fastforce simp: lru_inv_def lru_tryConsume_def Let_def case_prod_beta)
qed

lemma lru_inv_tryConsume': "lru_tryConsume key r c now l = (d, l') \<Longrightarrow> lru_inv l \<Longrightarrow> lru_inv l'"
  using lru_inv_tryConsume [of l key r c now] by simp

lemma tier_inv:
  "limiter_inv l \<Longrightarrow> tier_function now req l = (d, l') \<Longrightarrow> limiter_inv l' \<and> mt_cfg l' = mt_cfg l"
  "limiter_inv l \<Longrightarrow> tier_caller now req l = (d, l') \<Longrightarrow> limiter_inv l' \<and> mt_cfg l' = mt_cfg l"
  "limiter_inv l \<Longrightarrow> tier_namespace now req l = (d, l') \<Longrightarrow> limiter_inv l' \<and> mt_cfg l' = mt_cfg l"
  by (auto simp: tier_function_def tier_caller_def tier_namespace_def limiter_inv_def Let_def
      split: option.splits if_splits prod.splits dest: lru_inv_tryConsume')

lemma AllowRequest_inv [inv_intros]:
  assumes "limiter_inv l"
  shows "limiter_inv (snd (AllowRequest now req l)) \<and> mt_cfg (snd (AllowRequest now req l)) = mt_cfg l"
proof -
  obtain d1 l1 where 1: "tier_function now req l = (d1, l1)" by fastforce
  obtain d2 l2 where 2: "tier_caller now req l1 = (d2, l2)" by fastforce
  obtain d3 l3 where 3: "tier_namespace now req l2 = (d3, l3)" by fastforce
  show ?thesis
    using tier_inv(1) [OF assms 1] tier_inv(2) [OF _ 2] tier_inv(3) [OF _ 3]
    by (cases d1; cases d2; cases d3) (simp_all add: AllowRequest_def 1 2 3)
qed

section \<open>What one request does to the namespace tier\<close>

lemma tier_function_ns: "tier_function now req l = (d, l') \<Longrightarrow> namespaceBuckets l' = namespaceBuckets l"
  by (auto simp: tier_function_def Let_def split: option.splits if_splits prod.splits)

lemma tier_caller_ns: "tier_caller now req l = (d, l') \<Longrightarrow> namespaceBuckets l' = namespaceBuckets l"
  by (auto simp: tier_caller_def Let_def split: if_splits prod.splits)

lemma tier_rejects:
  "tier_function now req l = (Some d, l') \<Longrightarrow> \<not> Allowed d"
  "tier_caller now req l = (Some d, l') \<Longrightarrow> \<not> Allowed d"
  by (auto simp: tier_function_def tier_caller_def Let_def split: option.splits if_splits prod.splits)

lemma AllowRequest_cases:
  assumes "limiter_inv l" "Namespace req \<noteq> ''''"
  obtains (early) "namespaceBuckets (snd (AllowRequest now req l)) = namespaceBuckets l"
      "\<not> Allowed (fst (AllowRequest now req l))"
  | (tier3) d where
      "lru_tryConsume (Namespace req) (of_int (PerNamespacePerMinute (mt_cfg l)) / 60)
         (of_int (PerNamespaceBurst (mt_cfg l))) now (namespaceBuckets l)
         = (d, namespaceBuckets (snd (AllowRequest now req l)))"
      "Allowed (fst (AllowRequest now req l)) = Allowed d"
proof -
  obtain d1 l1 where 1: "tier_function now req l = (d1, l1)" by fastforce
  obtain d2 l2 where 2: "tier_caller now req l1 = (d2, l2)" by fastforce
  have ns: "namespaceBuckets l1 = namespaceBuckets l" "namespaceBuckets l2 = namespaceBuckets l"
    using tier_function_ns [OF 1] tier_caller_ns [OF 2] by simp_all
  have cfg: "mt_cfg l2 = mt_cfg l" using tier_inv(1) [OF assms(1) 1] tier_inv(2) [OF _ 2] by simp
  show ?thesis
  proof (cases "d1 = None \<and> d2 = None")
    case False
    thus ?thesis
      using early 1 2 ns tier_rejects by (cases d1; cases d2) (auto simp: AllowRequest_def)
  next
    case True
    obtain d t where dt: "lru_tryConsume (Namespace req) (of_int (PerNamespacePerMinute (mt_cfg l)) / 60)
         (of_int (PerNamespaceBurst (mt_cfg l))) now (namespaceBuckets l) = (d, t)" by fastforce
    hence "tier_namespace now req l2 = (if Allowed d then None else Some (d\<lparr>Scope := ''per_namespace''\<rparr>),
        l2\<lparr>namespaceBuckets := t\<rparr>)"
      using assms(2) ns cfg by (simp add: tier_namespace_def)
    thus ?thesis using tier3 [of d] dt True 1 2 by (auto simp: AllowRequest_def split: if_splits)
  qed
qed

text \<open>The bucket of one namespace.\<close>

definition ns_bucket :: "lruBuckets \<Rightarrow> string \<Rightarrow> tokenBucket option" where
  "ns_bucket l ns = sh_buckets (l ! shardIdx ns) ns"

text \<open>No shard ever holds another key than those of \<open>S\<close>, and each has room for all of them.\<close>

definition holds_at_most :: "string set \<Rightarrow> lruBuckets \<Rightarrow> bool" where
  "holds_at_most S l \<longleftrightarrow> lru_inv l \<and> finite S \<and> (\<forall>s\<in>set l. set (sh_order s) \<subseteq> S \<and> card S \<le> sh_cap s)"

lemma shard_no_eviction:
  assumes "shard_inv s" "set (sh_order s) \<subseteq> S" "finite S" "card S \<le> sh_cap s" "key \<in> S" "k \<noteq> key"
  shows "sh_buckets (snd (shard_tryConsume key r c now s)) k = sh_buckets s k"
proof (cases "sh_buckets s key")
  case None
  hence "key \<notin> set (sh_order s)" using assms(1) by (auto simp: shard_inv_def)
  hence "set (sh_order s) \<subset> S" using assms(2,5) by blast
  hence "card (set (sh_order s)) < card S" using assms(3) by (simp add: psubset_card_mono)
  moreover have "card (set (sh_order s)) = length (sh_order s)"
    using assms(1) distinct_card unfolding shard_inv_def by blast
  ultimately have "length (sh_order s) < sh_cap s" using assms(4) by linarith
  thus ?thesis using None assms(6)
    by (simp add: shard_tryConsume_def shard_entry_def Let_def split: prod.splits)
next
  case (Some b)
  thus ?thesis using assms(6)
    by (simp add: shard_tryConsume_def shard_entry_def Let_def split: prod.splits)
qed

definition entry_of :: "rat \<Rightarrow> rat \<Rightarrow> time_ns \<Rightarrow> tokenBucket option \<Rightarrow> tokenBucket" where
  "entry_of r c now ob = (case ob of
       None \<Rightarrow> \<lparr>tb_tokens = c, tb_max = c, tb_refill = r, tb_lastRefill = now\<rparr>
     | Some b \<Rightarrow> b\<lparr>tb_refill := r, tb_max := c\<rparr>)"

lemma shard_bucket:
  "fst (shard_tryConsume key r c now s) = fst (tokenBucket_tryConsume now (entry_of r c now (sh_buckets s key)))"
  "sh_buckets (snd (shard_tryConsume key r c now s)) key
     = Some (snd (tokenBucket_tryConsume now (entry_of r c now (sh_buckets s key))))"
  by (auto simp: shard_tryConsume_def shard_entry_def entry_of_def Let_def split: prod.splits option.splits)

lemma lru_step:
  assumes h: "holds_at_most S l" and k: "key \<in> S" and st: "lru_tryConsume key r c now l = (d, l')"
  shows "d = fst (tokenBucket_tryConsume now (entry_of r c now (ns_bucket l key)))"
    and "ns_bucket l' key = Some (snd (tokenBucket_tryConsume now (entry_of r c now (ns_bucket l key))))"
    and "\<And>ns. ns \<noteq> key \<Longrightarrow> ns_bucket l' ns = ns_bucket l ns"
    and "holds_at_most S l'"
proof -
  let ?i = "shardIdx key" let ?s = "snd (shard_tryConsume key r c now (l ! ?i))"
  have len: "?i < length l" using h by (simp add: holds_at_most_def lru_inv_def lruShards_def)
  hence mem: "l ! ?i \<in> set l" by simp
  have si: "shard_inv (l ! ?i)" "set (sh_order (l ! ?i)) \<subseteq> S" "finite S" "card S \<le> sh_cap (l ! ?i)"
    using h mem by (auto simp: holds_at_most_def lru_inv_def)
  have l': "l' = l[?i := ?s]" and d: "d = fst (shard_tryConsume key r c now (l ! ?i))"
    using st by (auto simp: lru_tryConsume_def Let_def split: prod.splits)
  show "d = fst (tokenBucket_tryConsume now (entry_of r c now (ns_bucket l key)))"
    by (simp add: d shard_bucket ns_bucket_def)
  show "ns_bucket l' key = Some (snd (tokenBucket_tryConsume now (entry_of r c now (ns_bucket l key))))"
    using len by (simp add: l' shard_bucket ns_bucket_def)
  show "ns_bucket l' ns = ns_bucket l ns" if "ns \<noteq> key" for ns
    using len shard_no_eviction [OF si k that] by (cases "shardIdx ns = ?i") (simp_all add: l' ns_bucket_def)
  have "set (sh_order ?s) \<subseteq> S"
    using si(2) k set_take_subset [of "sh_cap (l ! ?i)" "key # removeAll key (sh_order (l ! ?i))"]
    by (auto simp: shard_order [OF si(1)] lru_touch_def)
  moreover have "lru_inv l'" using h st by (auto simp: holds_at_most_def intro: lru_inv_tryConsume')
  ultimately show "holds_at_most S l'"
    using h si(4) set_update_subset_insert [of l ?i ?s] by (auto simp: holds_at_most_def l')
qed

section \<open>Bound on the requests admitted for one namespace\<close>

fun admitted_for :: "string \<Rightarrow> MultiTierLimiter \<Rightarrow> (time_ns \<times> RateLimitRequest) list \<Rightarrow> nat" where
  "admitted_for ns l [] = 0"
| "admitted_for ns l ((now, req) # rest) =
     (let (d, l') = AllowRequest now req l
      in (if Allowed d \<and> Namespace req = ns then 1 else 0) + admitted_for ns l' rest)"

definition potential :: "rat \<Rightarrow> rat \<Rightarrow> time_ns \<Rightarrow> tokenBucket option \<Rightarrow> rat" where
  "potential r c t ob = (case ob of None \<Rightarrow> c | Some b \<Rightarrow> tb_tokens b + r * seconds (t - tb_lastRefill b))"

definition bucket_ok :: "time_ns \<Rightarrow> tokenBucket option \<Rightarrow> bool" where
  "bucket_ok t ob = (case ob of None \<Rightarrow> True | Some b \<Rightarrow> 0 \<le> tb_tokens b \<and> tb_lastRefill b \<le> t)"

lemma potential_later: "0 \<le> r \<Longrightarrow> t \<le> t' \<Longrightarrow> potential r c t' ob \<le> potential r c t ob + r * seconds (t' - t)"
  using mult_left_mono [OF seconds_mono [of t t'], of r]
  by (auto simp: potential_def seconds_diff algebra_simps split: option.splits)

lemma bucket_ok_later: "bucket_ok t ob \<Longrightarrow> t \<le> t' \<Longrightarrow> bucket_ok t' ob"
  by (auto simp: bucket_ok_def split: option.splits)

lemma consume_potential:
  assumes "0 \<le> r" "1 \<le> c" "bucket_ok t ob" "t \<le> now" "tokenBucket_tryConsume now (entry_of r c now ob) = (d, b')"
  shows "(if Allowed d then 1 else 0) + potential r c now (Some b') \<le> potential r c t ob + r * seconds (now - t)"
    and "bucket_ok now (Some b')"
proof -
  have nn: "0 \<le> seconds (now - tb_lastRefill b) * r" if "ob = Some b" for b
    using assms(1,3,4) that by (simp add: bucket_ok_def)
  show "(if Allowed d then 1 else 0) + potential r c now (Some b') \<le> potential r c t ob + r * seconds (now - t)"
  proof (cases ob)
    case None
    have "0 \<le> r * seconds (now - t)" using assms(1,4) by simp
    thus ?thesis using assms None by (auto simp: tokenBucket_tryConsume_def entry_of_def potential_def Let_def)
  next
    case (Some b)
    thus ?thesis using assms(5)
      by (auto simp: tokenBucket_tryConsume_def entry_of_def potential_def Let_def seconds_diff algebra_simps
          split: if_splits)
  qed
  show "bucket_ok now (Some b')"
    using assms nn
    by (cases ob) (auto simp: tokenBucket_tryConsume_def entry_of_def bucket_ok_def Let_def split: if_splits)
qed

lemma namespace_bound_from:
  fixes l :: MultiTierLimiter
  defines "r \<equiv> of_int (PerNamespacePerMinute (mt_cfg l)) / 60" and "c \<equiv> of_int (PerNamespaceBurst (mt_cfg l))"
  assumes "0 \<le> r" "1 \<le> c" "limiter_inv l" "holds_at_most S (namespaceBuckets l)" "'''' \<notin> S"
    and "\<forall>p\<in>set reqs. Namespace (snd p) \<in> S"
    and "bucket_ok t (ns_bucket (namespaceBuckets l) ns)" "sorted (t # map fst reqs)"
  shows "of_nat (admitted_for ns l reqs)
    \<le> potential r c t (ns_bucket (namespaceBuckets l) ns) + r * seconds (last (t # map fst reqs) - t)"
  using assms(3-) unfolding r_def c_def
proof (induction ns l reqs arbitrary: t rule: admitted_for.induct)
  case (1 ns l)
  thus ?case by (auto simp: potential_def bucket_ok_def split: option.splits)
next
  case (2 ns l now req rest)
  let ?r = "of_int (PerNamespacePerMinute (mt_cfg l)) / 60 :: rat" and ?c = "of_int (PerNamespaceBurst (mt_cfg l)) :: rat"
  let ?b = "ns_bucket (namespaceBuckets l) ns"
  obtain d l' where st: "AllowRequest now req l = (d, l')" by fastforce
  let ?b' = "ns_bucket (namespaceBuckets l') ns"
  have inv': "limiter_inv l'" "mt_cfg l' = mt_cfg l" using AllowRequest_inv [OF "2.prems"(3)] st by (metis snd_conv)+
  have nS: "Namespace req \<in> S" and ne: "Namespace req \<noteq> ''''" using "2.prems"(5,6) by auto
  have now: "t \<le> now" using "2.prems"(8) by simp
  have idle: "potential ?r ?c now ?b \<le> potential ?r ?c t ?b + ?r * seconds (now - t)" "bucket_ok now ?b"
    using potential_later [OF "2.prems"(1) now] bucket_ok_later [OF "2.prems"(7) now] by blast+
  have step: "holds_at_most S (namespaceBuckets l') \<and> bucket_ok now ?b' \<and>
     (if Allowed d \<and> Namespace req = ns then 1 else 0) + potential ?r ?c now ?b' \<le> potential ?r ?c t ?b + ?r * seconds (now - t)"
    using "2.prems"(3) ne
  proof (cases rule: AllowRequest_cases [where now = now])
    case early
    thus ?thesis using "2.prems"(4) st idle by simp
  next
    case (tier3 d')
    note ls = lru_step [OF "2.prems"(4) nS tier3(1)]
    show ?thesis
    proof (cases "Namespace req = ns")
      case True
      obtain dd bb where tc: "tokenBucket_tryConsume now (entry_of ?r ?c now ?b) = (dd, bb)" by fastforce
      show ?thesis
        using consume_potential [OF "2.prems"(1,2,7) now tc] ls(1,2,4) tier3(2) st tc True by auto
    next
      case False
      hence "?b' = ?b" using ls(3) [of ns] st by auto
      thus ?thesis using ls(4) False st idle by simp
    qed
  qed
  have "of_nat (admitted_for ns l' rest) \<le> potential ?r ?c now ?b' + ?r * seconds (last (now # map fst rest) - now)"
    using "2.IH" [OF st [symmetric] refl] "2.prems" inv' step by simp
  moreover have "of_nat (admitted_for ns l ((now, req) # rest))
      = (if Allowed d \<and> Namespace req = ns then 1 else 0 :: rat) + of_nat (admitted_for ns l' rest)"
    by (simp add: st)
  moreover have "?r * seconds (now - t) + ?r * seconds (last (now # map fst rest) - now)
      = ?r * seconds (last (t # map fst ((now, req) # rest)) - t)"
  proof -
    have "last (t # map fst ((now, req) # rest)) = last (now # map fst rest)" by simp
    thus ?thesis by (simp only: seconds_split)
  qed
  ultimately show ?case using step by linarith
qed

lemma new_limiter:
  "limiter_inv (NewMultiTierLimiter cfg)"
  "0 < PerNamespacePerMinute (mt_cfg (NewMultiTierLimiter cfg))"
  "0 < PerNamespaceBurst (mt_cfg (NewMultiTierLimiter cfg))"
  by (auto simp: NewMultiTierLimiter_def Let_def limiter_inv_def positive_or_def)

lemma new_limiter_empty: "ns_bucket (namespaceBuckets (NewMultiTierLimiter cfg)) ns = None"
  using shardIdx_less [of ns]
  by (simp add: NewMultiTierLimiter_def Let_def ns_bucket_def newLRUBuckets_def lruShards_def)

section \<open>Properties\<close>

text \<open>C3: While no bucket is evicted, the function rate limiter never admits more
  for one namespace than its ceiling: from construction on, whatever wallets,
  functions and addresses the calls come from and whatever calls other namespaces
  make, at most burst plus rate times elapsed time requests of the namespace are
  allowed, as long as the namespaces in use fit into one shard of the bucket
  table.  With more namespaces than that the bucket of a namespace can be evicted,
  which the code accepts as a reset of its limit.  Tokens are exact numbers.\<close>

theorem namespace_ceiling_respected:
  assumes "finite S" "'''' \<notin> S" "\<And>p. p \<in> set reqs \<Longrightarrow> Namespace (snd p) \<in> S" "sorted (t # map fst reqs)"
    and "\<And>s. s \<in> set (namespaceBuckets (NewMultiTierLimiter cfg)) \<Longrightarrow> card S \<le> sh_cap s"
  shows "of_nat (admitted_for ns (NewMultiTierLimiter cfg) reqs)
    \<le> of_int (PerNamespaceBurst (mt_cfg (NewMultiTierLimiter cfg)))
      + of_int (PerNamespacePerMinute (mt_cfg (NewMultiTierLimiter cfg))) / 60 * seconds (last (t # map fst reqs) - t)"
proof -
  let ?l = "NewMultiTierLimiter cfg"
  have "sh_order s = []" if "s \<in> set (namespaceBuckets ?l)" for s
    using that by (auto simp: NewMultiTierLimiter_def newLRUBuckets_def Let_def)
  hence "holds_at_most S (namespaceBuckets ?l)"
    using assms(1,5) new_limiter(1) [of cfg] by (auto simp: holds_at_most_def limiter_inv_def)
  thus ?thesis
    using namespace_bound_from [of ?l S reqs t ns] assms(2-4) new_limiter [of cfg] new_limiter_empty [of cfg ns]
    by (simp add: bucket_ok_def potential_def)
qed

theorem namespace_ceiling_respected_witness:
  "of_nat (admitted_for ''app'' (NewMultiTierLimiter DefaultLimiterConfig)
      [(0, \<lparr>Namespace = ''app'', Function = ''f'', Wallet = ''w'', IP = '''', Override = None\<rparr>)])
    \<le> of_int (PerNamespaceBurst (mt_cfg (NewMultiTierLimiter DefaultLimiterConfig)))
      + of_int (PerNamespacePerMinute (mt_cfg (NewMultiTierLimiter DefaultLimiterConfig))) / 60 * seconds (last [0, 0] - 0)"
  using namespace_ceiling_respected [of "{''app''}"
      "[(0, \<lparr>Namespace = ''app'', Function = ''f'', Wallet = ''w'', IP = '''', Override = None\<rparr>)]" 0
      DefaultLimiterConfig "''app''"]
  by (auto simp: NewMultiTierLimiter_def newLRUBuckets_def Let_def DefaultLimiterConfig_def positive_or_def)

text \<open>Every table of the limiter stays consistent under any sequence of
  requests: sixteen shards, each with distinct keys that are exactly the keys
  of its bucket map and never more of them than its capacity.\<close>

lemma limiter_tables_consistent:
  "limiter_inv (fold (\<lambda>(now, req) l. snd (AllowRequest now req l)) reqs (NewMultiTierLimiter cfg))"
proof -
  have "limiter_inv l \<Longrightarrow> limiter_inv (fold (\<lambda>(now, req) l. snd (AllowRequest now req l)) reqs l)" for l
    by (induction reqs arbitrary: l) (auto simp: AllowRequest_inv)
  thus ?thesis using new_limiter(1) by blast
qed

text \<open>Least-recently-used eviction in a shard: a bucket that was just used is
  still there after any further accesses to fewer other keys than the shard has
  room for, so its owner's limit is not reset.\<close>

lemma shard_keeps_recent_buckets:
  assumes "shard_inv s" "card (set keys - {k}) < sh_cap s"
  shows "sh_buckets (fold (\<lambda>key s. snd (shard_tryConsume key r c now s)) keys
           (snd (shard_tryConsume k r c now s))) k \<noteq> None"
proof -
  let ?t = "fold (\<lambda>key s. snd (shard_tryConsume key r c now s)) keys (snd (shard_tryConsume k r c now s))"
  have "k \<in> set (sh_order ?t)" using assms by (rule shard_lru.recently_used_kept)
  moreover have "shard_inv ?t"
    by (rule shard_lru.fold_access_inv [THEN conjunct1, OF shard_inv_tryConsume [OF assms(1)]])
  ultimately show ?thesis by (auto simp: shard_inv_def)
qed

lemma shard_keeps_recent_buckets_example:
  "sh_buckets (fold (\<lambda>key s. snd (shard_tryConsume key 1 5 0 s)) [''b'', ''b'']
     (snd (shard_tryConsume ''a'' 1 5 0 \<lparr>sh_buckets = Map.empty, sh_order = [], sh_cap = 2\<rparr>))) ''a'' \<noteq> None"
  by (rule shard_keeps_recent_buckets) (simp_all add: shard_inv_def)

end
