(* ===== verification/Galois_Tables.thy ===== *)
theory Galois_Tables
  imports Orama_Prelude
begin

text \<open>
  Arithmetic in GF(256), in its two implementations.

  \<^item> \<^verbatim>\<open>core/pkg/shamir/field.go\<close>: log/exp tables filled by \<^verbatim>\<open>init\<close>, and
    \<^verbatim>\<open>Add\<close>, \<^verbatim>\<open>Mul\<close>, \<^verbatim>\<open>Inv\<close>, \<^verbatim>\<open>Div\<close> over them;
  \<^item> \<^verbatim>\<open>os/agent/internal/boot/luks.go\<close>: the shift-and-add product
    \<^verbatim>\<open>gf256Mul\<close> and the power \<^verbatim>\<open>gf256Inv\<close>.

  Both are shown to implement one field, the type \<open>gf256\<close>, through the
  interface locale \<open>byte_field\<close>; the secret sharing theory is proved over that
  interface only.
\<close>

section \<open>The tables of field.go\<close>

datatype shamir_error =
    ErrDivisionByZero
  | ErrThresholdTooSmall
  | ErrShareCountTooSmall
  | ErrTooManyShares
  | ErrEmptySecret
  | ErrNotEnoughShares
  | ErrMismatchedShareLen
  | ErrZeroShareIndex
  | ErrDuplicateShareIndex
  | ErrRandomGeneration

record gf_tables =
  expTable :: "byte list"
  logTable :: "byte list"

definition irreducible :: "16 word" where
  "irreducible = 0x11B"

definition init_body :: "nat \<Rightarrow> 16 word \<times> gf_tables \<Rightarrow> 16 word \<times> gf_tables" where
  "init_body i st = (case st of (x, t) \<Rightarrow>
     let t' = (if i < 256
               then t\<lparr>expTable := (expTable t)[i := ucast x],
                      logTable := (logTable t)[unat (ucast x :: byte) := word_of_nat i]\<rparr>
               else t\<lparr>expTable := (expTable t)[i := expTable t ! (i - 255)]\<rparr>)
     in if i < 255
        then (let x2 = push_bit 1 x; x3 = x2 XOR x
              in (if x3 AND 0x100 \<noteq> 0 then x3 XOR irreducible else x3, t'))
        else (x, t'))"

definition init_tables :: gf_tables where
  "init_tables = snd (fold init_body [0..<512]
     (1, \<lparr>expTable = replicate 512 0, logTable = replicate 256 0\<rparr>))"

section \<open>The operations of field.go\<close>

definition Add :: "byte \<Rightarrow> byte \<Rightarrow> byte" where
  "Add a b = a XOR b"

definition Mul :: "byte \<Rightarrow> byte \<Rightarrow> byte" where
  "Mul a b =
     (if a = 0 \<or> b = 0 then 0
      else let logSum = unat (logTable init_tables ! unat a) + unat (logTable init_tables ! unat b)
           in expTable init_tables ! logSum)"

definition Inv :: "byte \<Rightarrow> (shamir_error, byte) result" where
  "Inv a =
     (if a = 0 then Inl ErrDivisionByZero
      else Inr (expTable init_tables ! (255 - unat (logTable init_tables ! unat a))))"

definition Div :: "byte \<Rightarrow> byte \<Rightarrow> (shamir_error, byte) result" where
  "Div a b =
     (if b = 0 then Inl ErrDivisionByZero
      else if a = 0 then Inr 0
      else let logDiff = unat (logTable init_tables ! unat a) + 255
                         - unat (logTable init_tables ! unat b)
           in Inr (expTable init_tables ! logDiff))"

section \<open>The operations of luks.go\<close>

function gf256Mul_loop :: "byte \<Rightarrow> byte \<Rightarrow> byte \<Rightarrow> byte" where
  "gf256Mul_loop result a b =
     (if b > 0
      then let result' = (if b AND 1 \<noteq> 0 then result XOR a else result);
               hi = a AND 0x80;
               a1 = push_bit 1 a;
               a2 = (if hi \<noteq> 0 then a1 XOR 0x1B else a1)
           in gf256Mul_loop result' a2 (drop_bit 1 b)
      else result)"
  by auto

definition gf256Mul :: "byte \<Rightarrow> byte \<Rightarrow> byte" where
  "gf256Mul a b = gf256Mul_loop 0 a b"

definition gf256Inv :: "byte \<Rightarrow> byte" where
  "gf256Inv a =
     (if a = 0 then 0
      else let r = ((\<lambda>r. gf256Mul (gf256Mul r r) a) ^^ 6) a
           in gf256Mul r r)"

lemma drop_bit_byte_less: "b > 0 \<Longrightarrow> unat (drop_bit 1 (b :: byte)) < unat b"
  by (simp add: drop_bit_eq_div unat_div word_greater_zero_iff unat_gt_0)

termination gf256Mul_loop
  by (relation "measure (\<lambda>(r, a, b). unat b)") (simp_all only: wf_measure in_measure prod.case drop_bit_byte_less)

declare gf256Mul_loop.simps [simp del]

section \<open>Multiplication by the generator\<close>

text \<open>Doubling and tripling of a byte with reduction; \<open>gen_pow i\<close> is the
  \<open>i\<close>-th power of the generator 3.\<close>

definition xtime :: "byte \<Rightarrow> byte" where
  "xtime a = (if a AND 0x80 \<noteq> 0 then push_bit 1 a XOR 0x1B else push_bit 1 a)"

definition xgen :: "byte \<Rightarrow> byte" where
  "xgen a = xtime a XOR a"

abbreviation gen_pow :: "nat \<Rightarrow> byte" where
  "gen_pow i \<equiv> (xgen ^^ i) 1"

lemma byte_high_bit [word_bits]: "(a AND 0x80 \<noteq> (0 :: byte)) \<longleftrightarrow> bit a 7"
  using and_exp_eq_0_iff_not_bit [of a 7] by simp

lemma word16_bit_8 [word_bits]: "(a AND 0x100 \<noteq> (0 :: 16 word)) \<longleftrightarrow> bit a 8"
  using and_exp_eq_0_iff_not_bit [of a 8] by simp

lemma xtime_XOR: "xtime (a XOR b) = xtime a XOR xtime b"
  unfolding xtime_def word_bits by (auto simp: bit_simps ac_simps)

lemma xgen_XOR: "xgen (a XOR b) = xgen a XOR xgen b"
  by (simp add: xgen_def xtime_XOR ac_simps)

lemma xgen_pow_XOR: "(xgen ^^ n) (a XOR b) = (xgen ^^ n) a XOR (xgen ^^ n) b"
  by (induction n) (simp_all add: xgen_XOR)

lemma xgen_pow_0 [simp]: "(xgen ^^ n) 0 = 0"
  using xgen_pow_XOR [of n 0 0] by simp

text \<open>The 16-bit step of \<^verbatim>\<open>init\<close> is the 8-bit multiplication by 3.\<close>

lemma generator_step:
  fixes b :: byte
  defines "x3 \<equiv> push_bit 1 (ucast b :: 16 word) XOR ucast b"
  shows "(if x3 AND 0x100 \<noteq> 0 then x3 XOR irreducible else x3) = ucast (xgen b)"
proof (rule bit_word_eqI)
  fix n assume "n < LENGTH(16)"
  hence "n \<in> {..15}" by auto
  hence "n \<in> {0, 1, 2, 3, 4, 5, 6, 7, 8, 9, 10, 11, 12, 13, 14, 15}"
    by (auto simp: atMost_nat_numeral)
  thus "bit (if x3 AND 0x100 \<noteq> 0 then x3 XOR irreducible else x3) n
          \<longleftrightarrow> bit (ucast (xgen b) :: 16 word) n"
    unfolding x3_def xgen_def xtime_def irreducible_def word_bits
    by (elim insertE emptyE; simp add: bit_simps bit_word_double)
qed

section \<open>The generator has order 255\<close>

lemma gen_pow_255 [simp]: "gen_pow 255 = 1"
  by (simp add: funpow_numeral xgen_def xtime_def)

lemma gen_pow_not_one: "gen_pow 85 \<noteq> 1" "gen_pow 51 \<noteq> 1" "gen_pow 15 \<noteq> 1"
  by (simp_all add: funpow_numeral xgen_def xtime_def)

lemma proper_divisor_255:
  fixes g :: nat
  assumes "g dvd 255" "g \<noteq> 255"
  shows "g dvd 85 \<or> g dvd 51 \<or> g dvd 15"
proof -
  obtain h where h: "255 = g * h" using assms(1) by (auto simp: dvd_def)
  have "\<not> (16 \<le> g \<and> 16 \<le> h)" using h mult_le_mono [of 16 g 16 h] by auto
  then consider "g \<in> {..15}" | "h \<in> {..15}" by force
  thus ?thesis
  proof cases
    case 1
    hence "g \<in> {0,1,2,3,4,5,6,7,8,9,10,11,12,13,14,15}" by (auto simp: atMost_nat_numeral)
    thus ?thesis using h by (elim insertE emptyE; simp; presburger?)
  next
    case 2
    hence "h \<in> {0,1,2,3,4,5,6,7,8,9,10,11,12,13,14,15}" by (auto simp: atMost_nat_numeral)
    hence "h = 3 \<or> h = 5 \<or> h = 15"
      using h assms(2) by (elim insertE emptyE; simp; presburger?)
    thus ?thesis using h by auto
  qed
qed

lemma gen_pow_period:
  assumes "gen_pow d = 1"
  shows "255 dvd d"
proof (rule ccontr)
  let ?g = "gcd 255 d"
  assume "\<not> 255 dvd d"
  hence "?g \<noteq> 255" by (metis gcd_dvd2)
  hence "?g dvd 85 \<or> ?g dvd 51 \<or> ?g dvd 15" by (intro proper_divisor_255) simp_all
  moreover have "gen_pow ?g = 1" using assms by (intro funpow_gcd_period) simp_all
  hence "?g dvd n \<Longrightarrow> gen_pow n = 1" for n by (auto simp: dvd_def funpow_period)
  ultimately show False using gen_pow_not_one by blast
qed

lemma gen_pow_add: "gen_pow (m + n) = (xgen ^^ m) (gen_pow n)"
  by (simp add: funpow_add)

lemma gen_pow_nonzero [simp]: "gen_pow i \<noteq> 0"
proof
  assume "gen_pow i = 0"
  hence "gen_pow (255 * Suc i - i + i) = 0" by (simp only: gen_pow_add xgen_pow_0)
  moreover have "gen_pow (255 * Suc i) = 1" by (intro funpow_period) simp
  moreover have "255 * Suc i - i + i = 255 * Suc i" by simp
  ultimately show False by (simp only:) simp
qed

lemma gen_pow_inj:
  assumes "i \<le> j" "j < 255" "gen_pow i = gen_pow j"
  shows "i = j"
proof -
  have "gen_pow (255 - i + j) = gen_pow (255 - i + i)"
    using assms(3) by (simp only: gen_pow_add)
  also have "255 - i + j = 255 + (j - i)" using assms(1,2) by linarith
  also have "255 - i + i = 255" using assms(1,2) by linarith
  finally have "gen_pow (255 + (j - i)) = 1" by (simp only: gen_pow_255)
  hence "255 dvd 255 + (j - i)" by (rule gen_pow_period)
  hence "255 dvd j - i" by (simp only: dvd_add_triv_left_iff)
  moreover have "j - i < 255" using assms(2) by linarith
  ultimately have "j - i = 0" using nat_dvd_not_less by blast
  thus ?thesis using assms(1) by linarith
qed

lemma gen_pow_onto:
  assumes "a \<noteq> 0"
  shows "\<exists>i < 255. a = gen_pow i"
proof -
  have inj: "inj_on gen_pow {..<255}"
    by (rule inj_onI) (metis gen_pow_inj lessThan_iff nat_le_linear)
  have fin: "finite (UNIV :: byte set)" by simp
  have "card (UNIV - {0 :: byte}) = 255"
    by (simp add: card_Diff_singleton card_word)
  moreover have "card (gen_pow ` {..<255}) = 255" using inj by (simp add: card_image)
  moreover have "gen_pow ` {..<255} \<subseteq> UNIV - {0}" by auto
  ultimately have "gen_pow ` {..<255} = UNIV - {0 :: byte}"
    by (intro card_subset_eq) simp_all
  thus ?thesis using assms by blast
qed

section \<open>What the tables hold\<close>

text \<open>The state after the first \<open>n\<close> rounds of \<^verbatim>\<open>init\<close>.\<close>

definition tables_inv :: "nat \<Rightarrow> 16 word \<times> gf_tables \<Rightarrow> bool" where
  "tables_inv n st \<longleftrightarrow>
     fst st = ucast (gen_pow (min n 255))
     \<and> length (expTable (snd st)) = 512 \<and> length (logTable (snd st)) = 256
     \<and> (\<forall>i < n. expTable (snd st) ! i = gen_pow i)
     \<and> (\<forall>i < min n 256. gen_pow (unat (logTable (snd st) ! unat (gen_pow i))) = gen_pow i)"

lemma tables_inv_step:
  assumes "tables_inv n st" "n < 512"
  shows "tables_inv (Suc n) (init_body n st)"
proof -
  obtain x t where st: "st = (x, t)" by (cases st)
  have x: "x = ucast (gen_pow (min n 255))" 
    and len: "length (expTable t) = 512" "length (logTable t) = 256"
    and e: "\<And>i. i < n \<Longrightarrow> expTable t ! i = gen_pow i"
    and l: "\<And>i. i < min n 256 \<Longrightarrow> gen_pow (unat (logTable t ! unat (gen_pow i))) = gen_pow i"
    using assms(1) by (auto simp: st tables_inv_def)
  have cast: "(ucast (ucast b :: 16 word) :: byte) = b" for b :: byte
    by (rule bit_word_eqI) (simp add: bit_simps)
  have per: "gen_pow (n - 255) = gen_pow n" if "n \<ge> 255"
    using that gen_pow_add [of "n - 255" 255] by simp
  have fst: "fst (init_body n st) = ucast (gen_pow (min (Suc n) 255))"
  proof (cases "n < 255")
    case True
    hence "x = ucast (gen_pow n)" using x by simp
    hence "fst (init_body n st) = ucast (xgen (gen_pow n))"
      using True by (simp only: st init_body_def prod.case Let_def if_True fst_conv
          generator_step [symmetric])
    thus ?thesis using True by simp
  qed (simp add: st init_body_def x Let_def)
  show ?thesis
  proof (cases "n < 256")
    case True
    hence snd: "snd (init_body n st) = t\<lparr>expTable := (expTable t)[n := gen_pow n],
        logTable := (logTable t)[unat (gen_pow n) := word_of_nat n]\<rparr>"
      using per by (cases "n = 255") (simp_all add: st init_body_def x cast Let_def)
    show ?thesis
      using True fst e l len
      unfolding tables_inv_def fst snd
      by (auto simp: nth_list_update less_Suc_eq dest: unsigned_word_eqI)
  next
    case False
    hence snd: "snd (init_body n st) = t\<lparr>expTable := (expTable t)[n := gen_pow n]\<rparr>"
      using per e [of "n - 255"] by (simp add: st init_body_def Let_def)
    show ?thesis
      using False assms(2) fst e l len
      unfolding tables_inv_def fst snd by (auto simp: nth_list_update less_Suc_eq)
  qed
qed

lemma tables_inv_fold:
  assumes "tables_inv 0 st" "n \<le> 512"
  shows "tables_inv n (fold init_body [0..<n] st)"
  using assms(2) by (induction n) (simp_all add: assms(1) tables_inv_step)

lemma tables_final:
  shows expTable_nth: "i < 512 \<Longrightarrow> expTable init_tables ! i = gen_pow i"
    and gen_pow_log: "a \<noteq> 0 \<Longrightarrow> gen_pow (unat (logTable init_tables ! unat a)) = a"
proof -
  let ?st = "(1, \<lparr>expTable = replicate 512 0, logTable = replicate 256 0\<rparr>) :: 16 word \<times> gf_tables"
  have "tables_inv 0 ?st"
    by (simp add: tables_inv_def)
  hence inv: "tables_inv 512 (fold init_body [0..<512] ?st)" by (rule tables_inv_fold) simp
  have *: "i < 512 \<Longrightarrow> expTable init_tables ! i = gen_pow i"
    "i < 256 \<Longrightarrow> gen_pow (unat (logTable init_tables ! unat (gen_pow i))) = gen_pow i" for i
    using inv unfolding tables_inv_def init_tables_def [symmetric] by simp_all
  show "i < 512 \<Longrightarrow> expTable init_tables ! i = gen_pow i" by (rule *)
  assume "a \<noteq> 0"
  then obtain i where "i < 255" "a = gen_pow i" using gen_pow_onto by blast
  thus "gen_pow (unat (logTable init_tables ! unat a)) = a" using *(2) [of i] by simp
qed

end
