(* ===== verification/Galois_Field.thy ===== *)
theory Galois_Field
  imports Galois_Tables
begin

text \<open>
  The laws of the byte operations, the field they implement as the type
  \<open>gf256\<close> of type class \<open>field\<close>, and the interface \<open>byte_field\<close> that both
  implementations satisfy.
\<close>

section \<open>Laws of the table-based operations\<close>

abbreviation log_of :: "byte \<Rightarrow> nat" where
  "log_of a \<equiv> unat (logTable init_tables ! unat a)"

lemma log_of_le: "log_of a \<le> 255"
  using unat_byte_less [of "logTable init_tables ! unat a"] by linarith

lemma Mul_gen_pow: "Mul a b = (if a = 0 \<or> b = 0 then 0 else gen_pow (log_of a + log_of b))"
  using log_of_le [of a] log_of_le [of b] by (simp add: Mul_def expTable_nth)

lemma Mul_0 [simp]: "Mul 0 b = 0" "Mul a 0 = 0"
  by (simp_all add: Mul_def)

lemma Mul_commute: "Mul a b = Mul b a"
  by (simp add: Mul_gen_pow add.commute)

text \<open>Multiplying by the \<open>j\<close>-th power of the generator is \<open>j\<close> generator steps.\<close>

lemma Mul_power: "Mul a (gen_pow j) = (xgen ^^ j) a"
proof (cases "a = 0")
  case False
  let ?b = "gen_pow j"
  have "Mul a ?b = (xgen ^^ log_of a) (gen_pow (log_of ?b))"
    using False by (simp add: Mul_gen_pow gen_pow_add)
  also have "\<dots> = gen_pow (log_of a + j)"
    by (simp only: gen_pow_log [OF gen_pow_nonzero] gen_pow_add)
  also have "\<dots> = (xgen ^^ j) (gen_pow (log_of a))"
    by (simp only: add.commute [of _ j] gen_pow_add)
  finally show ?thesis by (simp only: gen_pow_log [OF False])
qed simp

lemma nonzero_power:
  assumes "b \<noteq> 0"
  obtains j where "b = gen_pow j"
  using gen_pow_onto [OF assms] by blast

lemma Mul_XOR_left: "Mul (a XOR b) c = Mul a c XOR Mul b c"
proof (cases "c = 0")
  case False
  then obtain j where "c = gen_pow j" by (rule nonzero_power)
  thus ?thesis by (simp only: Mul_power xgen_pow_XOR)
qed simp

lemma Mul_assoc: "Mul (Mul a b) c = Mul a (Mul b c)"
proof (cases "b = 0 \<or> c = 0")
  case False
  then obtain j k where "b = gen_pow j" "c = gen_pow k" by (meson nonzero_power)
  moreover have "Mul a ((xgen ^^ k) (gen_pow j)) = (xgen ^^ k) ((xgen ^^ j) a)"
    using Mul_power [of a "k + j"] by (simp only: funpow_add comp_apply)
  ultimately show ?thesis by (simp only: Mul_power)
qed auto

lemma Mul_1 [simp]: "Mul 1 a = a" "Mul a 1 = a"
proof -
  have "Mul a (gen_pow 0) = a" by (simp only: Mul_power) simp
  thus "Mul a 1 = a" by simp
  thus "Mul 1 a = a" by (simp add: Mul_commute)
qed

lemma Inv_correct:
  assumes "a \<noteq> 0"
  obtains b where "Inv a = Inr b" "Mul b a = 1"
proof
  let ?b = "gen_pow (255 - log_of a)"
  show "Inv a = Inr ?b" using assms by (simp add: Inv_def expTable_nth)
  have "Mul ?b a = (xgen ^^ (255 - log_of a)) (gen_pow (log_of a))"
    by (simp only: Mul_commute [of _ a] Mul_power gen_pow_log [OF assms])
  also have "\<dots> = gen_pow 255"
    using log_of_le [of a] by (simp only: gen_pow_add [symmetric] le_add_diff_inverse2)
  finally show "Mul ?b a = 1" by simp
qed

definition inv_or_0 :: "byte \<Rightarrow> byte" where
  "inv_or_0 a = (case Inv a of Inl _ \<Rightarrow> 0 | Inr b \<Rightarrow> b)"

lemma Mul_inv_or_0: "a \<noteq> 0 \<Longrightarrow> Mul (inv_or_0 a) a = 1"
  by (rule Inv_correct [of a]) (auto simp: inv_or_0_def)

lemma Div_eq:
  assumes "b \<noteq> 0"
  shows "Div a b = Inr (Mul a (inv_or_0 b))"
proof (cases "a = 0")
  case False
  have "log_of a + 255 - log_of b = (255 - log_of b) + log_of a"
    using log_of_le [of b] by linarith
  moreover have "log_of a + 255 - log_of b < 512"
    using log_of_le [of a] by linarith
  moreover have "inv_or_0 b = gen_pow (255 - log_of b)"
    using assms by (simp add: inv_or_0_def Inv_def expTable_nth)
  ultimately show ?thesis
    using assms False
    by (simp only: Div_def Let_def if_False expTable_nth gen_pow_add gen_pow_log [OF False] Mul_power)
qed (use assms in \<open>simp add: Div_def\<close>)

section \<open>The field\<close>

typedef gf256 = "UNIV :: byte set"
  by simp

setup_lifting type_definition_gf256

instantiation gf256 :: field
begin

lift_definition zero_gf256 :: gf256 is 0 .

lift_definition one_gf256 :: gf256 is 1 .

lift_definition plus_gf256 :: "gf256 \<Rightarrow> gf256 \<Rightarrow> gf256" is Add .

lift_definition minus_gf256 :: "gf256 \<Rightarrow> gf256 \<Rightarrow> gf256" is Add .

lift_definition uminus_gf256 :: "gf256 \<Rightarrow> gf256" is "\<lambda>a. a" .

lift_definition times_gf256 :: "gf256 \<Rightarrow> gf256 \<Rightarrow> gf256" is Mul .

lift_definition inverse_gf256 :: "gf256 \<Rightarrow> gf256" is inv_or_0 .

lift_definition divide_gf256 :: "gf256 \<Rightarrow> gf256 \<Rightarrow> gf256" is "\<lambda>a b. Mul a (inv_or_0 b)" .

instance
proof
  fix a b c :: gf256
  show "a + b + c = a + (b + c)" by transfer (simp add: Add_def ac_simps)
  show "a + b = b + a" by transfer (simp add: Add_def ac_simps)
  show "0 + a = a" by transfer (simp add: Add_def)
  show "- a + a = 0" by transfer (simp add: Add_def)
  show "a - b = a + - b" by transfer simp
  show "a * b * c = a * (b * c)" by transfer (rule Mul_assoc)
  show "a * b = b * a" by transfer (rule Mul_commute)
  show "1 * a = a" by transfer simp
  show "(a + b) * c = a * c + b * c" by transfer (simp add: Add_def Mul_XOR_left)
  show "(0 :: gf256) \<noteq> 1" by transfer simp
  show "a \<noteq> 0 \<Longrightarrow> inverse a * a = 1" by transfer (rule Mul_inv_or_0)
  show "a div b = a * inverse b" by transfer simp
  show "inverse (0 :: gf256) = 0" by transfer (simp add: inv_or_0_def Inv_def)
qed

end

instance gf256 :: finite
proof
  have "range Abs_gf256 = UNIV" by (metis Rep_gf256_inverse surj_def)
  thus "finite (UNIV :: gf256 set)" by (metis finite_code finite_imageI)
qed

section \<open>Interface\<close>

text \<open>A client of the byte field needs no more than this: addition,
  multiplication and the quotient of two bytes are the operations of
  \<open>gf256\<close> under the embedding \<^const>\<open>Abs_gf256\<close>.\<close>

locale byte_field =
  fixes add mul quot :: "byte \<Rightarrow> byte \<Rightarrow> byte"
  assumes add_field [field_ops]: "Abs_gf256 (add a b) = Abs_gf256 a + Abs_gf256 b"
    and mul_field [field_ops]: "Abs_gf256 (mul a b) = Abs_gf256 a * Abs_gf256 b"
    and quot_field [field_ops]: "Abs_gf256 (quot a b) = Abs_gf256 a / Abs_gf256 b"

lemma Abs_gf256_inj [simp]: "Abs_gf256 a = Abs_gf256 b \<longleftrightarrow> a = b"
  by (simp add: Abs_gf256_inject)

lemma Abs_gf256_0 [simp]: "Abs_gf256 0 = 0"
  by (simp add: zero_gf256_def)

lemma Abs_gf256_1 [simp]: "Abs_gf256 1 = 1"
  by (simp add: one_gf256_def)

lemma Abs_gf256_eq_0 [simp]: "Abs_gf256 a = 0 \<longleftrightarrow> a = 0"
  by (metis Abs_gf256_0 Abs_gf256_inj)

interpretation core_field: byte_field Add Mul "\<lambda>a b. Mul a (inv_or_0 b)"
  by unfold_locales (simp_all add: plus_gf256.abs_eq times_gf256.abs_eq divide_gf256.abs_eq)

section \<open>The agent's operations compute the same field\<close>

lemma xtime_Mul: "xtime a = Mul a 2"
proof -
  have g: "gen_pow 1 = 3" by (simp add: xgen_def xtime_def)
  have "xgen a = Mul a (gen_pow 1)" by (simp only: Mul_power) simp
  hence "xtime a XOR a = Mul a (2 XOR 1)" unfolding g xgen_def by simp
  also have "\<dots> = Mul a 2 XOR a" by (simp only: Mul_commute [of a] Mul_XOR_left Mul_1)
  finally have "(xtime a XOR a) XOR a = (Mul a 2 XOR a) XOR a" by (simp only:)
  thus ?thesis by (simp only: xor.assoc xor_self_eq xor.right_neutral)
qed

lemma byte_split_bit: "b = xtime (drop_bit 1 b) XOR (b AND 1)"
proof -
  have "xtime (drop_bit 1 b) = push_bit 1 (drop_bit 1 b)"
    unfolding xtime_def word_bits by (simp add: bit_simps)
  moreover have "bit b n = bit (push_bit 1 (drop_bit 1 b) XOR (b AND 1)) n" if "n < LENGTH(8)" for n
    using that by (cases n) (simp_all add: bit_simps bit_word_double)
  ultimately show ?thesis by (simp only: bit_word_eqI)
qed

lemma byte_and_1: "b AND 1 = 0 \<or> b AND 1 = (1 :: byte)"
  by (simp add: and_one_eq mod_2_eq_odd)

lemma gf256Mul_loop_Mul: "gf256Mul_loop r a b = r XOR Mul a b"
proof (induction r a b rule: gf256Mul_loop.induct)
  case (1 r a b)
  show ?case
  proof (cases "b > 0")
    case True
    let ?r = "if b AND 1 \<noteq> 0 then r XOR a else r"
    have *: "gf256Mul_loop r a b = gf256Mul_loop ?r (xtime a) (drop_bit 1 b)"
      using True by (subst gf256Mul_loop.simps) (simp only: Let_def xtime_def if_True)
    have "Mul a b = Mul a (xtime (drop_bit 1 b)) XOR Mul a (b AND 1)"
      by (subst byte_split_bit) (simp only: Mul_commute [of a] Mul_XOR_left)
    also have "Mul a (xtime (drop_bit 1 b)) = Mul (xtime a) (drop_bit 1 b)"
      by (simp only: xtime_Mul Mul_assoc Mul_commute [of 2])
    finally have "r XOR Mul a b = ?r XOR Mul (xtime a) (drop_bit 1 b)"
      using byte_and_1 [of b] by (auto simp: xor.assoc xor.commute xor.left_commute)
    thus ?thesis using 1 [OF True refl refl refl refl] * by (simp only: xtime_def)
  qed (simp add: gf256Mul_loop.simps [of r a 0] word_greater_zero_iff)
qed

lemma gf256Mul_Mul: "gf256Mul a b = Mul a b"
  by (simp add: gf256Mul_def gf256Mul_loop_Mul)

lemma Abs_gf256_gen_pow: "Abs_gf256 (gen_pow j) = Abs_gf256 3 ^ j"
proof (induction j)
  case (Suc j)
  have g: "gen_pow 1 = 3" by (simp add: xgen_def xtime_def)
  have "gen_pow (Suc j) = (xgen ^^ 1) (gen_pow j)" by simp
  also have "\<dots> = Mul (gen_pow j) (gen_pow 1)" by (rule Mul_power [symmetric])
  also have "\<dots> = Mul 3 (gen_pow j)" by (simp only: g Mul_commute [of 3])
  finally show ?case using Suc by (simp only: core_field.mul_field power_Suc)
qed simp

lemma gf256_power_255:
  fixes a :: gf256
  assumes "a \<noteq> 0"
  shows "a ^ 255 = 1"
proof -
  have "Rep_gf256 a \<noteq> 0" using assms by (metis Abs_gf256_0 Rep_gf256_inverse)
  then obtain j where "Rep_gf256 a = gen_pow j" by (rule nonzero_power)
  hence a: "a = Abs_gf256 3 ^ j" by (metis Abs_gf256_gen_pow Rep_gf256_inverse)
  have "Abs_gf256 3 ^ 255 = 1" by (simp only: Abs_gf256_gen_pow [symmetric] gen_pow_255 Abs_gf256_1)
  thus ?thesis by (simp only: a power_mult [symmetric] mult.commute [of j]) (simp only: power_mult power_one)
qed

lemma Abs_gf256Mul: "Abs_gf256 (gf256Mul a b) = Abs_gf256 a * Abs_gf256 b"
  by (simp only: gf256Mul_Mul core_field.mul_field)

lemma gf256Inv_iter:
  "Abs_gf256 (((\<lambda>r. gf256Mul (gf256Mul r r) a) ^^ n) a) = Abs_gf256 a ^ (2 ^ Suc n - 1)"
proof (induction n)
  case (Suc n)
  have "2 ^ Suc (Suc n) - 1 = Suc ((2 ^ Suc n - 1) + (2 ^ Suc n - 1 :: nat))"
    using one_le_power [of "2 :: nat" n] by (simp only: power_Suc) linarith
  thus ?case by (simp only: funpow.simps comp_apply Abs_gf256Mul Suc power_Suc2 power_add)
qed simp

lemma Abs_gf256Inv: "Abs_gf256 (gf256Inv a) = inverse (Abs_gf256 a)"
proof (cases "a = 0")
  case False
  let ?a = "Abs_gf256 a"
  have "Abs_gf256 (gf256Inv a) = ?a ^ (127 + 127)"
    using False gf256Inv_iter [of 6 a]
    by (simp add: gf256Inv_def Let_def Abs_gf256Mul flip: power_add)
  hence "?a * Abs_gf256 (gf256Inv a) = ?a ^ Suc (127 + 127)"
    by (simp only: power_Suc)
  hence "?a * Abs_gf256 (gf256Inv a) = 1"
    using gf256_power_255 [of ?a] False by simp
  thus ?thesis by (rule inverse_unique [symmetric])
qed (simp add: gf256Inv_def)

interpretation agent_field: byte_field "\<lambda>a b. a XOR b" gf256Mul "\<lambda>a b. gf256Mul a (gf256Inv b)"
proof unfold_locales
  show "Abs_gf256 (a XOR b) = Abs_gf256 a + Abs_gf256 b" for a b
    using core_field.add_field [of a b] by (simp add: Add_def)
qed (simp_all add: Abs_gf256Mul Abs_gf256Inv divide_inverse)

section \<open>Evaluation on literals\<close>

lemma gf256Mul_loop_literal:
  "gf256Mul_loop r a 0 = r"
  "gf256Mul_loop r a 1 = r XOR a"
  "gf256Mul_loop r a (numeral b) =
     (if numeral b > (0 :: byte)
      then gf256Mul_loop (if numeral b AND 1 \<noteq> (0 :: byte) then r XOR a else r) (xtime a) (drop_bit 1 (numeral b))
      else r)"
  by (simp_all only: gf256Mul_loop_Mul Mul_0 Mul_1 xor.right_neutral)
    (simp only: gf256Mul_loop_Mul [symmetric] gf256Mul_loop.simps [of r a "numeral b"] Let_def xtime_def)

lemma gf256Mul_literal:
  "gf256Mul 0 b = 0" "gf256Mul a 0 = 0" "gf256Mul 1 b = b" "gf256Mul a 1 = a"
  "gf256Mul (numeral m) (numeral n) = gf256Mul_loop 0 (numeral m) (numeral n)"
  by (simp_all only: gf256Mul_Mul Mul_0 Mul_1) (simp only: gf256Mul_Mul gf256Mul_loop_Mul xor.left_neutral)

lemma gf256Inv_unique: "gf256Mul a b = 1 \<Longrightarrow> gf256Inv a = b"
proof -
  assume "gf256Mul a b = 1"
  hence "Abs_gf256 a * Abs_gf256 b = 1" by (metis Abs_gf256Mul Abs_gf256_1)
  hence "inverse (Abs_gf256 a) = Abs_gf256 b" by (rule inverse_unique)
  thus ?thesis by (metis Abs_gf256Inv Abs_gf256_inj)
qed

lemmas gf_eval = gf256Mul_literal gf256Mul_loop_literal xtime_def

section \<open>Properties\<close>

text \<open>The table-based \<^verbatim>\<open>Mul\<close> with \<^verbatim>\<open>Add\<close> as addition is a field on bytes:
  commutative, associative, distributive, with unit 1; \<^verbatim>\<open>Inv\<close> and
  \<^verbatim>\<open>Div\<close> fail exactly on a zero divisor and otherwise return the inverse and
  the quotient.\<close>

lemma field_go_is_a_field:
  "Mul a b = Mul b a \<and> Mul (Mul a b) c = Mul a (Mul b c) \<and> Mul (Add a b) c = Add (Mul a c) (Mul b c)
   \<and> Mul 1 a = a \<and> Mul 0 a = 0
   \<and> (if a = 0 then Inv a = Inl ErrDivisionByZero else \<exists>i. Inv a = Inr i \<and> Mul a i = 1)
   \<and> (if b = 0 then Div a b = Inl ErrDivisionByZero else \<exists>q. Div a b = Inr q \<and> Mul q b = a)"
proof -
  have "\<exists>i. Inv a = Inr i \<and> Mul a i = 1" if "a \<noteq> 0"
    using Inv_correct [OF that] by (metis Mul_commute)
  moreover have "Mul (Mul a (inv_or_0 b)) b = a" if "b \<noteq> 0"
    using Mul_inv_or_0 [OF that] by (simp add: Mul_assoc)
  ultimately show ?thesis
    using Div_eq by (auto simp: Mul_assoc Mul_commute [of b a] Add_def Mul_XOR_left Inv_def Div_def)
qed

text \<open>The agent's shift-and-add product and Fermat inverse are the
  table-based operations of the core on every pair of bytes.\<close>

lemma agent_arithmetic_is_core_arithmetic:
  "gf256Mul a b = Mul a b \<and> (if a = 0 then gf256Inv a = 0 else Inv a = Inr (gf256Inv a))"
proof -
  have "Inv a = Inr (gf256Inv a)" if nz: "a \<noteq> 0"
  proof -
    obtain i where i: "Inv a = Inr i" "Mul i a = 1" using nz by (rule Inv_correct)
    hence "gf256Inv a = i" by (intro gf256Inv_unique) (simp add: gf256Mul_Mul Mul_commute)
    thus ?thesis using i by simp
  qed
  thus ?thesis by (simp add: gf256Mul_Mul gf256Inv_def)
qed

end
