(* ===== verification/Gateway_Identity.thy ===== *)
theory Gateway_Identity
  imports Gateway_Auth
begin

text \<open>
  Two ways in which an identity travels: the internal headers that the main
  gateway sends to the gateway of a namespace, and the token that is minted for
  an API key.  Neither adds to what the caller may do.
\<close>

section \<open>The identity of a proxied request\<close>

lemma Encode_chars: "set (EncodeToString bs) \<subseteq> insert CHR ''='' (set base64_alphabet)"
proof (induction bs rule: EncodeToString.induct)
  case (2 a)
  have "unat a * 16 div 64 < 64" using unat_byte_less [of a] by linarith
  then show ?case by (simp add: Let_def digit_char_in)
next
  case (3 a b)
  have "(unat a * 256 + unat b) * 4 div 4096 < 64"
    using two_bytes_bound [OF unat_byte_less unat_byte_less, of a b] by (intro less_mult_imp_div_less) simp
  then show ?case by (simp add: Let_def digit_char_in)
next
  case (4 a b c rest)
  have "((unat a * 256 + unat b) * 256 + unat c) div 262144 < 64"
    using three_bytes_bound [OF unat_byte_less unat_byte_less unat_byte_less, of a b c]
    by (intro less_mult_imp_div_less) simp
  then show ?case using 4 by (simp add: Let_def digit_char_in)
qed simp

lemma alphabet_no_space: "\<forall>c \<in> insert CHR ''='' (set base64_alphabet). \<not> is_space c"
  by code_simp

lemma TrimSpace_Encode [simp]: "TrimSpace (EncodeToString bs) = EncodeToString bs"
  using Encode_chars [of bs] alphabet_no_space by (intro TrimSpace_id) blast

lemma Encode_Nil_iff [simp]: "EncodeToString bs = [] \<longleftrightarrow> bs = []"
  by (cases bs rule: EncodeToString.cases) (auto simp: Let_def)

lemma grant_text_ends: "grant_text g \<Longrightarrow> \<not> is_space (hd g) \<and> \<not> is_space (last g)"
proof -
  assume g: "grant_text g"
  let ?t = "dropWhile is_space g"
  have t: "rev (dropWhile is_space (rev ?t)) = g" "g \<noteq> []" using g by (auto simp: grant_text_def TrimSpace_def)
  then have "length g \<le> length ?t" using length_dropWhile_le [of is_space "rev ?t"] by (metis length_rev)
  moreover have "length g = length (takeWhile is_space g) + length ?t"
    using takeWhile_dropWhile_id [of is_space g] length_append by metis
  ultimately have "takeWhile is_space g = []" by simp
  then have "?t = g" using takeWhile_dropWhile_id [of is_space g] by simp
  then have "\<not> is_space (hd g)" using t(2) hd_dropWhile [of is_space g] by simp
  moreover have "\<not> is_space (last g)"
    using t(2) hd_dropWhile [of is_space "rev ?t"] last_rev [of "dropWhile is_space (rev ?t)"]
    unfolding t(1) by (metis rev_is_Nil_conv t(1))
  ultimately show ?thesis by simp
qed

lemma Canonical_trim:
  assumes "finite s" "\<And>g. g \<in> s \<Longrightarrow> grant_text g"
  shows "TrimSpace (Canonical s) = Canonical s"
proof (cases "s = {}")
  case False
  let ?ws = "sorted_list_of_set s"
  have ws: "?ws \<noteq> []" "set ?ws = s" using False assms(1) by auto
  have ne: "[] \<notin> set ?ws" using assms(2) ws(2) by (auto simp: grant_text_def)
  have "hd ?ws \<in> s" "last ?ws \<in> s" using ws hd_in_set [of ?ws] last_in_set [of ?ws] by auto
  then have "\<not> is_space (hd (hd ?ws))" "\<not> is_space (last (last ?ws))" "hd ?ws \<noteq> []"
    using grant_text_ends assms(2) by (auto simp: grant_text_def)
  then show ?thesis using False ws(1) ne
    by (simp add: Canonical_def TrimSpace_ends hd_Join last_Join Join_Nil_iff)
qed (simp add: Canonical_def TrimSpace_def)


lemma hop_header_values:
  assumes "ns \<noteq> []"
  shows "hop_headers marshal ns claims scopes h HeaderInternalAuthValidated = ''true''"
    and "hop_headers marshal ns claims scopes h HeaderInternalAuthNamespace = ns"
    and "hop_headers marshal ns claims scopes h HeaderInternalAuthScopes = scopes"
    and "hop_headers marshal ns claims scopes h HeaderInternalAuthJWTSub =
           (case claims of None \<Rightarrow> [] | Some c \<Rightarrow> TrimSpace (cl_Sub c))"
    and "hop_headers marshal ns claims scopes h HeaderInternalAuthJWTCustom =
           (case claims of None \<Rightarrow> [] | Some c \<Rightarrow>
              if cl_Custom c = [] then [] else case marshal (cl_Custom c) of None \<Rightarrow> [] | Some buf \<Rightarrow> EncodeToString buf)"
  using assms
  by (simp_all add: hop_headers_def setInternalAuthJWTHeaders_def Let_def split: option.split)

lemma hop_without_identity: "hop_headers marshal [] claims scopes h HeaderInternalAuthValidated = []"
  by (simp add: hop_headers_def)

definition json_ok :: "((string \<times> string) list \<Rightarrow> byte list option) \<Rightarrow> (byte list \<Rightarrow> (string \<times> string) list option) \<Rightarrow> JWTClaims option \<Rightarrow> bool" where
  "json_ok marshal unmarshal claims \<longleftrightarrow>
     (case claims of
        None \<Rightarrow> True
      | Some c \<Rightarrow> (case marshal (cl_Custom c) of None \<Rightarrow> False | Some buf \<Rightarrow> buf \<noteq> [] \<and> unmarshal buf = Some (cl_Custom c)))"

text \<open>The context that the validated identity stands for.\<close>

definition identity_ctx :: "string \<Rightarrow> JWTClaims option \<Rightarrow> string \<Rightarrow> auth_ctx" where
  "identity_ctx ns claims scopes =
     empty_ctx\<lparr>cx_Namespace := Some (TrimSpace ns),
       cx_JWT := map_option (\<lambda>c. \<lparr>cl_Iss = [], cl_Sub = TrimSpace (cl_Sub c), cl_Aud = [], cl_Iat = 0, cl_Nbf = 0,
                   cl_Exp = 0, cl_Namespace = TrimSpace ns, cl_Custom = cl_Custom c\<rparr>) claims,
       cx_Scopes := (if TrimSpace scopes = [] then None else Some (ParseScopes (TrimSpace scopes)))\<rparr>"

lemma hop_claims:
  assumes "ns \<noteq> []" "json_ok marshal unmarshal claims" "\<And>c. claims = Some c \<Longrightarrow> TrimSpace (cl_Sub c) \<noteq> []"
  shows "claimsFromInternalAuthHeaders unmarshal (hop_headers marshal ns claims scopes h) ns' =
           map_option (\<lambda>c. \<lparr>cl_Iss = [], cl_Sub = TrimSpace (cl_Sub c), cl_Aud = [], cl_Iat = 0, cl_Nbf = 0,
             cl_Exp = 0, cl_Namespace = ns', cl_Custom = cl_Custom c\<rparr>) claims"
  using assms
  by (cases claims)
     (auto simp: claimsFromInternalAuthHeaders_def hop_header_values [OF assms(1)] Let_def json_ok_def
        TrimSpace_def [of "[]"] split: option.splits)

lemma hop_ctx:
  assumes "ns \<noteq> []" "json_ok marshal unmarshal claims" "\<And>c. claims = Some c \<Longrightarrow> TrimSpace (cl_Sub c) \<noteq> []"
  shows "internal_ctx unmarshal (hop_headers marshal ns claims scopes h) (TrimSpace ns) empty_ctx = identity_ctx ns claims scopes"
proof -
  note claims = hop_claims [of ns marshal unmarshal claims scopes h "TrimSpace ns"]
  show ?thesis unfolding internal_ctx_def hop_header_values [OF assms(1)]
    by (subst claims) (use assms in \<open>cases claims; simp add: identity_ctx_def empty_ctx_def Let_def\<close>)+
qed

lemma forwarded_fields:
  "rq_Header (forwarded_request marshal host peer (ns, claims, scopes) r) =
     hop_headers marshal ns claims scopes
       (if isWebSocketUpgrade r
        then (rq_Header r)(''X-Forwarded-For'' := getClientIP r, ''X-Forwarded-Proto'' := ''https'', ''X-Forwarded-Host'' := host)
        else (rq_Header r)(''X-Forwarded-For'' := getClientIP r, ''X-Forwarded-Proto'' := ''https'', ''X-Forwarded-Host'' := host,
               ''X-Original-Host'' := host))"
  "rq_RemoteAddr (forwarded_request marshal host peer (ns, claims, scopes) r) = peer"
  "rq_Method (forwarded_request marshal host peer (ns, claims, scopes) r) = rq_Method r"
  by (simp_all add: forwarded_request_def Let_def)

lemma validated_key_scopes:
  assumes "validateAuthForNamespaceProxy e mc r = ((ns, None, scopes, bad), r', mc')" "ns \<noteq> []"
  shows "\<exists>raw. fst (lookupAPIKeyEntry (en_asked e) (en_stored e) (en_hash e) (en_answered e) (en_rows e) (extractAPIKey r) mc) =
           Some (ns, raw) \<and> scopes = Canonical (ScopesFromStored raw)"
  using assms
  by (auto simp: validateAuthForNamespaceProxy_def Let_def split: option.splits if_splits prod.splits)

lemma validated_method:
  "validateAuthForNamespaceProxy e mc r = (v, r', mc') \<Longrightarrow> rq_Method r' = rq_Method r"
  by (auto simp: validateAuthForNamespaceProxy_def stripJWTQueryParam_def Let_def split: option.splits if_splits prod.splits)

lemma identity_key_scopes:
  "callerScopes (identity_ctx ns None (Canonical (ScopesFromStored raw))) = ScopesFromStored raw"
  using Canonical_blank_iff [OF finite_ScopesFromStored ScopesFromStored_texts, of raw]
    Canonical_trim [OF finite_ScopesFromStored ScopesFromStored_texts, of raw] Parse_Canonical_Stored [of raw]
  by (simp add: callerScopes_def identity_ctx_def empty_ctx_def)

text \<open>C6: Whatever headers a request arrives with, the gateway of the namespace gives it the
  identity that the main gateway validated: the namespace, the subject and custom claims of the
  token, or exactly the grants of the key.  If the main gateway validated none, the namespace
  gateway does not trust the headers of the hop.  The subject of a token is not blank, and the
  custom claims survive their way through JSON.\<close>

theorem proxied_identity_is_the_validated_one:
  assumes "validateAuthForNamespaceProxy e0 mc0 r = ((ns, claims, scopes, bad), r', mc0')"
    and "SplitHostPort peer = Some (ip, port)" "isInternalIP ip" "rq_Method r \<noteq> ''OPTIONS''"
    and "json_ok marshal (en_unmarshal e) claims" "\<And>c. claims = Some c \<Longrightarrow> TrimSpace (cl_Sub c) \<noteq> []"
    and "TrimSpace ns \<noteq> [] \<or> ns = []"
  shows "(ns = [] \<longrightarrow> \<not> trusted_peer (forwarded_request marshal host peer (ns, claims, scopes) r')) \<and>
         (ns \<noteq> [] \<longrightarrow>
            authMiddleware e mc (forwarded_request marshal host peer (ns, claims, scopes) r') empty_ctx =
              (Pass (forwarded_request marshal host peer (ns, claims, scopes) r') (identity_ctx ns claims scopes), mc) \<and>
            (claims = None \<longrightarrow>
              (\<exists>raw. fst (lookupAPIKeyEntry (en_asked e0) (en_stored e0) (en_hash e0) (en_answered e0) (en_rows e0)
                       (extractAPIKey r) mc0) = Some (ns, raw) \<and>
                     callerScopes (identity_ctx ns claims scopes) = ScopesFromStored raw)))"
proof -
  let ?f = "forwarded_request marshal host peer (ns, claims, scopes) r'"
  have ip: "remoteAddrIP ?f = ip" by (simp add: remoteAddrIP_def forwarded_fields assms(2))
  show ?thesis
  proof (cases "ns = []")
    case True
    then show ?thesis by (simp add: trusted_peer_def forwarded_fields hop_without_identity)
  next
    case False
    then have t: "trusted_peer ?f" using ip assms(3) by (simp add: trusted_peer_def forwarded_fields hop_header_values)
    have "authMiddleware e mc ?f empty_ctx = (Pass ?f (identity_ctx ns claims scopes), mc)"
      using t False assms(4-7) validated_method [OF assms(1)]
      by (simp add: authMiddleware_def forwarded_fields hop_header_values hop_ctx)
    then show ?thesis using False validated_key_scopes [of e0 mc0 r ns scopes bad r' mc0'] assms(1) identity_key_scopes
      by auto
  qed
qed


section \<open>The exchanged token and its key\<close>

lemma lookup_uncached:
  "GetAPIKeyEntry asked key mc = None \<Longrightarrow>
     fst (lookupAPIKeyEntry asked stored hash answered rows key mc) =
       first_answer (query_key answered rows) (apiKeyLookupCandidates key (hash key))"
  by (simp add: lookupAPIKeyEntry_def apiKeyLookupCandidates_def split: option.split)

lemma APIKeyToJWT_Some:
  assumes "APIKeyToJWT e now key = Some c"
  obtains ns raw where "first_answer (query_key (en_answered e) (en_rows e)) (apiKeyLookupCandidates key (en_hash e key)) = Some (ns, raw)"
    "cl_Sub c = key" "cl_Namespace c = ns" "map_of (cl_Custom c) ''scopes'' = Some (Canonical (ScopesFromStored raw))"
  using assms by (auto simp: APIKeyToJWT_def split: if_splits option.splits)

definition key_ctx :: "string \<Rightarrow> string \<Rightarrow> string \<Rightarrow> auth_ctx" where
  "key_ctx key ns raw =
     empty_ctx\<lparr>cx_APIKey := Some key, cx_Namespace := Some ns, cx_Scopes := Some (ScopesFromStored raw)\<rparr>"

lemma key_token_actor:
  assumes "isAPIKeySubject key" "cl_Sub c = key"
  shows "identify_actor (claims_ctx c empty_ctx) = identify_actor (key_ctx key ns raw)"
    and "identify_actor (key_ctx key ns raw) = (''api_key'', TrimSpace key, [])"
proof -
  have "TrimSpace key \<noteq> []" using assms(1) by (auto simp: isAPIKeySubject_def HasPrefix_def is_prefix_def ToLower_def)
  then show "identify_actor (claims_ctx c empty_ctx) = identify_actor (key_ctx key ns raw)"
    "identify_actor (key_ctx key ns raw) = (''api_key'', TrimSpace key, [])"
    using assms by (simp_all add: identify_actor_def claims_ctx_def key_ctx_def empty_ctx_def isAPIKeySubject_def Let_def)
qed

lemma key_token_scopes:
  assumes "isAPIKeySubject key" "cl_Sub c = key" "map_of (cl_Custom c) ''scopes'' = Some (Canonical (ScopesFromStored raw))"
    and "Canonical (ScopesFromStored raw) \<noteq> []"
  shows "callerScopes (claims_ctx c empty_ctx) = callerScopes (key_ctx key ns raw)"
    and "hasWalletJWT (claims_ctx c empty_ctx) = hasWalletJWT (key_ctx key ns raw)"
  using assms Canonical_trim [OF finite_ScopesFromStored ScopesFromStored_texts, of raw] Parse_Canonical_Stored [of raw]
  by (simp_all add: callerScopes_def hasWalletJWT_def claims_ctx_def key_ctx_def empty_ctx_def isAPIKeySubject_def Let_def)

lemma authorization_api_key:
  assumes "identify_actor cx = (''api_key'', k, f)" "identify_actor cx' = identify_actor cx"
    and "(case cx_Namespace cx of None \<Rightarrow> [] | Some s \<Rightarrow> TrimSpace s) = (case cx_Namespace cx' of None \<Rightarrow> [] | Some s \<Rightarrow> TrimSpace s)"
    and "rq_Method r = rq_Method r'" "rq_Path r = rq_Path r'" "trusted_peer r = trusted_peer r'"
  shows "(\<exists>status. fst (authorizationMiddleware e db r cx) = Reject status \<and> fst (authorizationMiddleware e db r' cx') = Reject status) \<or>
         (fst (authorizationMiddleware e db r cx) = Pass r cx \<and> fst (authorizationMiddleware e db r' cx') = Pass r' cx')"
  using assms by (simp add: authorizationMiddleware_def Let_def)

lemma scope_same_caller:
  assumes "callerScopes cx = callerScopes cx'" "hasWalletJWT cx = hasWalletJWT cx'"
    and "rq_Method r = rq_Method r'" "rq_Path r = rq_Path r'"
  shows "refusal (scopeMiddleware r cx) = refusal (scopeMiddleware r' cx')"
  using assms by (simp add: scopeMiddleware_def refusal_def Let_def)


text \<open>C12: While the database does not change between the exchange and the use and the cache of
  key lookups does not hold the key, a token that was exchanged for an API key with the prefix of
  issued keys and a grant of at least one scope opens exactly the routes that the key opens: the
  checks refuse a request from an untrusted peer with the token if and only if they refuse it with
  the key, and with the same status.  Once the key is revoked the token lives on until it expires,
  and a caller who exchanges the stored hash of a key, which lacks the prefix, gets a token that
  counts as a wallet's; neither case is covered.\<close>

theorem exchanged_token_is_as_good_as_the_key:
  assumes "APIKeyToJWT e now key = Some c" "en_verify e tok = Some c"
    and "isAPIKeySubject key" "map_of (cl_Custom c) ''scopes'' \<noteq> Some []"
    and "bearer_jwt rt = Some tok" "bearer_jwt rk = None" "query_jwt rk = None" "extractAPIKey rk = key"
    and "rq_Method rt = rq_Method rk" "rq_Path rt = rq_Path rk" "\<not> trusted_peer rt" "\<not> trusted_peer rk"
    and "GetAPIKeyEntry (en_asked e) key mc = None"
  shows "refusal (fst (gateway_checks e mc db rt empty_ctx)) = refusal (fst (gateway_checks e mc db rk empty_ctx))"
proof (cases "rq_Method rk = ''OPTIONS''")
  case True
  then show ?thesis using assms(9)
    by (simp add: checks_verdict authMiddleware_def authorizationMiddleware_def scopeMiddleware_def refusal_def split: prod.split)
next
  case False
  obtain ns raw where l: "fst (lookupAPIKeyEntry (en_asked e) (en_stored e) (en_hash e) (en_answered e) (en_rows e) key mc) = Some (ns, raw)"
    and c: "cl_Sub c = key" "cl_Namespace c = ns" "map_of (cl_Custom c) ''scopes'' = Some (Canonical (ScopesFromStored raw))"
    using APIKeyToJWT_Some [OF assms(1)] lookup_uncached [OF assms(13)] by metis
  have key: "key \<noteq> []" using assms(3) by (auto simp: isAPIKeySubject_def TrimSpace_def HasPrefix_def is_prefix_def ToLower_def)
  let ?ct = "claims_ctx c empty_ctx" and ?ck = "key_ctx key ns raw"
  have t: "fst (authMiddleware e mc rt empty_ctx) = Pass rt ?ct"
    using assms False by (simp add: authMiddleware_def)
  have k: "fst (authMiddleware e mc rk empty_ctx) = Pass rk ?ck"
    using assms False l key by (auto simp: authMiddleware_def key_ctx_def Let_def split: prod.split)
  have ns: "(case cx_Namespace ?ct of None \<Rightarrow> [] | Some s \<Rightarrow> TrimSpace s) = (case cx_Namespace ?ck of None \<Rightarrow> [] | Some s \<Rightarrow> TrimSpace s)"
    by (simp add: claims_ctx_def key_ctx_def empty_ctx_def c(2) Let_def)
  have "refusal (scopeMiddleware rt ?ct) = refusal (scopeMiddleware rk ?ck)"
    using key_token_scopes [OF assms(3) c(1,3)] assms(4,9,10) c(3) by (intro scope_same_caller) auto
  then show ?thesis
    using authorization_api_key [OF _ _ ns assms(9,10), of "TrimSpace key" "[]" e db] assms(11,12)
      key_token_actor [OF assms(3) c(1), of ns raw] t k
    by (auto simp: checks_verdict refusal_def)
qed


section \<open>Examples\<close>

lemma example_validated:
  assumes "bearer_jwt r = None" "query_jwt r = None" "extractAPIKey r = ''ak_1:acme''"
  obtains mc' where "validateAuthForNamespaceProxy example_env (newMiddlewareCache 60) r = ((''acme'', None, ''admin'', False), r, mc')"
    "mc_nsTargets mc' = Map.empty"
proof -
  let ?l = "lookupAPIKeyEntry 0 0 (en_hash example_env) (en_answered example_env) (en_rows example_env) ''ak_1:acme'' (newMiddlewareCache 60)"
  have "fst ?l = Some (''acme'', ''admin'')" by code_simp
  then obtain mc' where l: "?l = (Some (''acme'', ''admin''), mc')" by (metis prod.collapse)
  have "mc_nsTargets mc' = Map.empty"
    using l by (auto simp: lookupAPIKeyEntry_def SetAPIKeyEntry_def newMiddlewareCache_def split: option.splits if_splits)
  moreover have "Canonical (ScopesFromStored ''admin'') = ''admin''" "en_asked example_env = 0" "en_stored example_env = 0" by code_simp+
  ultimately show thesis using assms l by (intro that [of mc']) (simp_all add: validateAuthForNamespaceProxy_def)
qed

theorem proxied_identity_is_the_validated_one_witness:
  "(let r = example_request ((\<lambda>_. [])(''X-API-Key'' := ''ak_1:acme'', HeaderInternalAuthValidated := ''true'',
              HeaderInternalAuthNamespace := ''other'', HeaderInternalAuthJWTSub := ''0xvictim''));
        f = forwarded_request (\<lambda>_. None) ''ns-acme.dbrs.space'' ''10.0.0.7:40000'' (''acme'', None, ''admin'') r
    in authMiddleware example_env (newMiddlewareCache 60) f empty_ctx =
         (Pass f (identity_ctx ''acme'' None ''admin''), newMiddlewareCache 60))"
proof -
  let ?r = "example_request ((\<lambda>_. [])(''X-API-Key'' := ''ak_1:acme'', HeaderInternalAuthValidated := ''true'',
              HeaderInternalAuthNamespace := ''other'', HeaderInternalAuthJWTSub := ''0xvictim''))"
  have "bearer_jwt ?r = None" "query_jwt ?r = None" "extractAPIKey ?r = ''ak_1:acme''" by code_simp+
  then obtain mc' where v: "validateAuthForNamespaceProxy example_env (newMiddlewareCache 60) ?r = ((''acme'', None, ''admin'', False), ?r, mc')"
    by (rule example_validated)
  have p: "SplitHostPort ''10.0.0.7:40000'' = Some (''10.0.0.7'', ''40000'')" "isInternalIP ''10.0.0.7''" "TrimSpace ''acme'' \<noteq> []"
    "rq_Method ?r \<noteq> ''OPTIONS''" by code_simp+
  have "json_ok (\<lambda>_. None) (en_unmarshal example_env) None" by (simp add: json_ok_def)
  then show ?thesis unfolding Let_def
    using proxied_identity_is_the_validated_one [OF v p(1,2,4), where marshal = "\<lambda>_. None" and e = example_env
        and mc = "newMiddlewareCache 60" and host = "''ns-acme.dbrs.space''"] p(3)
    by simp
qed

theorem exchanged_token_is_as_good_as_the_key_witness:
  "(let e = example_env\<lparr>en_verify := (\<lambda>t. if t = ''a.b.c'' then APIKeyToJWT example_env 0 ''ak_1:acme'' else None)\<rparr>;
        rt = example_request ((\<lambda>_. [])(''Authorization'' := ''Bearer a.b.c''));
        rk = example_request ((\<lambda>_. [])(''X-API-Key'' := ''ak_1:acme''))
    in refusal (fst (gateway_checks e (newMiddlewareCache 60) example_db rk empty_ctx)) = None \<and>
       refusal (fst (gateway_checks e (newMiddlewareCache 60) example_db rt empty_ctx)) = None)"
proof -
  let ?e = "example_env\<lparr>en_verify := (\<lambda>t. if t = ''a.b.c'' then APIKeyToJWT example_env 0 ''ak_1:acme'' else None)\<rparr>"
  let ?rt = "example_request ((\<lambda>_. [])(''Authorization'' := ''Bearer a.b.c''))"
  let ?rk = "example_request ((\<lambda>_. [])(''X-API-Key'' := ''ak_1:acme''))"
  have "map_option (\<lambda>c. map_of (cl_Custom c) ''scopes'') (APIKeyToJWT example_env 0 ''ak_1:acme'') = Some (Some ''admin'')" by code_simp
  then obtain c where c: "APIKeyToJWT example_env 0 ''ak_1:acme'' = Some c" "map_of (cl_Custom c) ''scopes'' \<noteq> Some []" by auto
  have same: "APIKeyToJWT (example_env\<lparr>en_verify := f\<rparr>) n k = APIKeyToJWT example_env n k" for f n k
    by (simp add: APIKeyToJWT_def)
  have m: "APIKeyToJWT ?e 0 ''ak_1:acme'' = Some c" "en_verify ?e ''a.b.c'' = Some c"
    by (simp_all add: same c(1))
  have r: "bearer_jwt ?rt = Some ''a.b.c''" "bearer_jwt ?rk = None" "query_jwt ?rk = None" "extractAPIKey ?rk = ''ak_1:acme''"
    "isAPIKeySubject ''ak_1:acme''" "\<not> trusted_peer ?rt" "\<not> trusted_peer ?rk" "rq_Method ?rt = rq_Method ?rk" "rq_Path ?rt = rq_Path ?rk"
    "GetAPIKeyEntry (en_asked ?e) ''ak_1:acme'' (newMiddlewareCache 60) = None"
    by code_simp+
  have "refusal (fst (gateway_checks ?e (newMiddlewareCache 60) example_db ?rk empty_ctx)) = None" by code_simp
  moreover have "refusal (fst (gateway_checks ?e (newMiddlewareCache 60) example_db ?rt empty_ctx)) =
      refusal (fst (gateway_checks ?e (newMiddlewareCache 60) example_db ?rk empty_ctx))"
    by (rule exchanged_token_is_as_good_as_the_key [OF m r(5) c(2) r(1-4) r(8,9) r(6,7) r(10)])
  ultimately show ?thesis unfolding Let_def by simp
qed

end
