(* ===== verification/Rate_Limit_Manager.thy ===== *)
theory Rate_Limit_Manager
  imports Token_Bucket Lru_Cache
begin

text \<open>
  The per-namespace limiter of the gateway, \<^verbatim>\<open>core/pkg/ratelimit\<close>
  (\<^verbatim>\<open>types.go\<close>, \<^verbatim>\<open>manager.go\<close>): limiters built from the tenant's
  configuration, cached in an LRU table whose entries expire.

  Limiters are shared mutable objects, so they live in a heap and a cache entry
  holds the address.  The Go map from namespaces to list elements is the search
  for the namespace in the LRU list, whose namespaces are distinct.  The two
  critical sections of \<^verbatim>\<open>getOrBuild\<close> are separate operations, so that calls
  of several goroutines can be interleaved.  The configuration store is an
  argument: its answer is an error, no override, or an override.
\<close>

section \<open>types.go\<close>

record Config =
  cfg_RequestsPerMinute :: int
  cfg_Burst :: int

record Defaults =
  df_RequestsPerMinute :: int
  df_Burst :: int
  df_MaxRequestsPerMinute :: int
  df_MaxBurst :: int

definition Sane :: "Defaults \<Rightarrow> Defaults" where
  "Sane d =
     \<lparr>df_RequestsPerMinute = (if df_RequestsPerMinute d \<le> 0 then 10000 else df_RequestsPerMinute d),
      df_Burst = (if df_Burst d \<le> 0 then 5000 else df_Burst d),
      df_MaxRequestsPerMinute = (if df_MaxRequestsPerMinute d < 0 then 0 else df_MaxRequestsPerMinute d),
      df_MaxBurst = (if df_MaxBurst d < 0 then 0 else df_MaxBurst d)\<rparr>"

section \<open>manager.go\<close>

record cacheEntry =
  ce_namespace :: string
  ce_limiter :: nat
  ce_builtAt :: time_ns

record Manager =
  m_defaults :: Defaults
  m_ttl :: int
  m_lru :: "cacheEntry list"
  m_cacheCap :: nat
  m_heap :: "nat \<Rightarrow> bucketLimiter option"
  m_next :: nat

type_synonym config_get = "string \<Rightarrow> unit + Config option"

definition defaultCacheCap :: nat where
  "defaultCacheCap = 1024"

definition cacheEntryTTL :: int where
  "cacheEntryTTL = 30 * 1000000000"

definition NewManager :: "Defaults \<Rightarrow> Manager" where
  "NewManager defaults =
     \<lparr>m_defaults = Sane defaults, m_ttl = cacheEntryTTL, m_lru = [], m_cacheCap = defaultCacheCap,
      m_heap = Map.empty, m_next = 0\<rparr>"

definition SetCacheTTL :: "int \<Rightarrow> Manager \<Rightarrow> Manager" where
  "SetCacheTTL d m = (if d \<le> 0 then m else m\<lparr>m_ttl := d\<rparr>)"

definition cached :: "string \<Rightarrow> Manager \<Rightarrow> cacheEntry option" where
  "cached ns m = find (\<lambda>e. ce_namespace e = ns) (m_lru m)"

definition without :: "string \<Rightarrow> cacheEntry list \<Rightarrow> cacheEntry list" where
  "without ns es = filter (\<lambda>e. ce_namespace e \<noteq> ns) es"

definition Invalidate :: "string \<Rightarrow> Manager \<Rightarrow> Manager" where
  "Invalidate ns m = (case cached ns m of None \<Rightarrow> m | Some e \<Rightarrow> m\<lparr>m_lru := without ns (m_lru m)\<rparr>)"

text \<open>First critical section of \<^verbatim>\<open>getOrBuild\<close>: a fresh entry is moved to the
  front and its limiter returned, an expired one is dropped.\<close>

definition getOrBuild_lookup :: "time_ns \<Rightarrow> string \<Rightarrow> Manager \<Rightarrow> nat option \<times> Manager" where
  "getOrBuild_lookup now ns m =
     (case cached ns m of
        Some e \<Rightarrow>
          if now - ce_builtAt e < m_ttl m
          then (Some (ce_limiter e), m\<lparr>m_lru := e # without ns (m_lru m)\<rparr>)
          else (None, m\<lparr>m_lru := without ns (m_lru m)\<rparr>)
      | None \<Rightarrow> (None, m))"

definition effective_config :: "config_get option \<Rightarrow> Defaults \<Rightarrow> string \<Rightarrow> int \<times> int" where
  "effective_config store d ns =
     (case store of
        None \<Rightarrow> (df_RequestsPerMinute d, df_Burst d)
      | Some get \<Rightarrow>
          (case get ns of
             Inl _ \<Rightarrow> (df_RequestsPerMinute d, df_Burst d)
           | Inr None \<Rightarrow> (df_RequestsPerMinute d, df_Burst d)
           | Inr (Some cfg) \<Rightarrow>
               (if cfg_RequestsPerMinute cfg > 0 then cfg_RequestsPerMinute cfg else df_RequestsPerMinute d,
                if cfg_Burst cfg > 0 then cfg_Burst cfg else df_Burst d)))"

definition getOrBuild_build :: "config_get option \<Rightarrow> time_ns \<Rightarrow> string \<Rightarrow> Manager \<Rightarrow> nat \<times> Manager" where
  "getOrBuild_build store now ns m =
     (let (rpm, burst) = effective_config store (m_defaults m) ns
      in (m_next m, m\<lparr>m_heap := (m_heap m)(m_next m \<mapsto> newBucketLimiter rpm burst now), m_next := Suc (m_next m)\<rparr>))"

text \<open>Second critical section: the entry of a goroutine that was faster wins if
  it is still fresh; otherwise the new limiter is inserted and the table cut
  back to its capacity.\<close>

definition getOrBuild_insert :: "time_ns \<Rightarrow> string \<Rightarrow> nat \<Rightarrow> Manager \<Rightarrow> nat \<times> Manager" where
  "getOrBuild_insert now ns limiter m =
     (case cached ns m of
        Some e \<Rightarrow>
          if now - ce_builtAt e < m_ttl m
          then (ce_limiter e, m\<lparr>m_lru := e # without ns (m_lru m)\<rparr>)
          else (limiter, m\<lparr>m_lru := take (m_cacheCap m)
                  (\<lparr>ce_namespace = ns, ce_limiter = limiter, ce_builtAt = now\<rparr> # without ns (m_lru m))\<rparr>)
      | None \<Rightarrow>
          (limiter, m\<lparr>m_lru := take (m_cacheCap m)
                  (\<lparr>ce_namespace = ns, ce_limiter = limiter, ce_builtAt = now\<rparr> # m_lru m)\<rparr>))"

definition getOrBuild :: "config_get option \<Rightarrow> time_ns \<Rightarrow> string \<Rightarrow> Manager \<Rightarrow> nat \<times> Manager" where
  "getOrBuild store now ns m =
     (case getOrBuild_lookup now ns m of
        (Some a, m1) \<Rightarrow> (a, m1)
      | (None, m1) \<Rightarrow> (let (a, m2) = getOrBuild_build store now ns m1 in getOrBuild_insert now ns a m2))"

definition limiter_allow :: "time_ns \<Rightarrow> nat \<Rightarrow> Manager \<Rightarrow> bool \<times> Manager" where
  "limiter_allow now a m =
     (case m_heap m a of
        None \<Rightarrow> (False, m)
      | Some b \<Rightarrow> (let (ok, b') = bucketLimiter_allow now b in (ok, m\<lparr>m_heap := (m_heap m)(a \<mapsto> b')\<rparr>)))"

definition Manager_Allow :: "config_get option \<Rightarrow> time_ns \<Rightarrow> string \<Rightarrow> Manager \<Rightarrow> bool \<times> Manager" where
  "Manager_Allow store now ns m =
     (if ns = '''' then (True, m)
      else let (a, m') = getOrBuild store now ns m in limiter_allow now a m')"

section \<open>Invariant\<close>

text \<open>At most one live limiter per namespace, no limiter shared by two
  namespaces, every cached limiter allocated, and a bounded table.\<close>

definition manager_inv :: "Manager \<Rightarrow> bool" where
  "manager_inv m \<longleftrightarrow>
     distinct (map ce_namespace (m_lru m)) \<and> distinct (map ce_limiter (m_lru m))
     \<and> (\<forall>e\<in>set (m_lru m). m_heap m (ce_limiter e) \<noteq> None)
     \<and> (\<forall>a. m_heap m a \<noteq> None \<longrightarrow> a < m_next m)
     \<and> length (m_lru m) \<le> m_cacheCap m \<and> 0 < m_cacheCap m"

lemma cached_Some: "cached ns m = Some e \<Longrightarrow> e \<in> set (m_lru m) \<and> ce_namespace e = ns"
  by (auto simp: cached_def find_Some_iff)

lemma cached_None: "cached ns m = None \<longleftrightarrow> ns \<notin> ce_namespace ` set (m_lru m)"
  by (auto simp: cached_def find_None_iff)

lemma map_namespace_without: "map ce_namespace (without ns es) = removeAll ns (map ce_namespace es)"
  by (induction es) (auto simp: without_def)

lemma set_without [simp]: "set (without ns es) = {e \<in> set es. ce_namespace e \<noteq> ns}"
  by (auto simp: without_def)

lemma distinct_map_without: "distinct (map f es) \<Longrightarrow> distinct (map f (without ns es))"
  by (simp add: without_def distinct_map_filter)

lemma length_without: "e \<in> set es \<Longrightarrow> ce_namespace e = ns \<Longrightarrow> length (without ns es) < length es"
  unfolding without_def by (rule length_filter_less [of e]) auto

lemma length_without_le: "length (without ns es) \<le> length es"
  by (simp add: without_def)

lemma distinct_map_take: "distinct (map f xs) \<Longrightarrow> distinct (map f (take n xs))"
  by (metis distinct_take take_map)

text \<open>Two namespaces' limiters are different objects.\<close>

lemma limiter_inj:
  "distinct (map ce_limiter es) \<Longrightarrow> e \<in> set es \<Longrightarrow> f \<in> set es \<Longrightarrow> ce_limiter e = ce_limiter f \<Longrightarrow> e = f"
  by (metis distinct_map inj_onD)

lemma manager_inv_new [simp]: "manager_inv (NewManager d)"
  by (simp add: manager_inv_def NewManager_def defaultCacheCap_def)

lemma manager_inv_SetCacheTTL [inv_intros]: "manager_inv m \<Longrightarrow> manager_inv (SetCacheTTL d m)"
  by (simp add: manager_inv_def SetCacheTTL_def)

lemma manager_inv_drop [inv_intros]: "manager_inv m \<Longrightarrow> manager_inv (m\<lparr>m_lru := without ns (m_lru m)\<rparr>)"
  using length_without_le [of ns "m_lru m"] by (auto simp: manager_inv_def distinct_map_without)

lemma manager_inv_Invalidate [inv_intros]: "manager_inv m \<Longrightarrow> manager_inv (Invalidate ns m)"
  by (auto simp: Invalidate_def manager_inv_drop split: option.splits)

lemma manager_inv_front [inv_intros]:
  assumes "manager_inv m" "cached ns m = Some e"
  shows "manager_inv (m\<lparr>m_lru := e # without ns (m_lru m)\<rparr>)"
proof -
  have e: "e \<in> set (m_lru m)" "ce_namespace e = ns" using cached_Some [OF assms(2)] by auto
  moreover have "ce_limiter e \<notin> ce_limiter ` set (without ns (m_lru m))"
    using limiter_inj [of "m_lru m" e] assms(1) e by (auto simp: manager_inv_def)
  moreover have "ns \<notin> ce_namespace ` set (without ns (m_lru m))" by auto
  ultimately show ?thesis
    using assms(1) length_without [OF e] by (simp add: manager_inv_def distinct_map_without)
qed

lemma manager_inv_lookup [inv_intros]: "manager_inv m \<Longrightarrow> manager_inv (snd (getOrBuild_lookup now ns m))"
  by (auto simp: getOrBuild_lookup_def manager_inv_front manager_inv_drop split: option.splits)

lemma manager_inv_build [inv_intros]: "manager_inv m \<Longrightarrow> manager_inv (snd (getOrBuild_build store now ns m))"
  by (auto simp: getOrBuild_build_def manager_inv_def less_Suc_eq split: prod.splits)

lemma manager_inv_push:
  assumes "manager_inv m" "ns \<notin> ce_namespace ` set es" "a \<notin> ce_limiter ` set es" "m_heap m a \<noteq> None"
    "set es \<subseteq> set (m_lru m)" "distinct (map ce_namespace es)" "distinct (map ce_limiter es)"
  shows "manager_inv (m\<lparr>m_lru := take (m_cacheCap m) (\<lparr>ce_namespace = ns, ce_limiter = a, ce_builtAt = now\<rparr> # es)\<rparr>)"
proof -
  let ?l = "\<lparr>ce_namespace = ns, ce_limiter = a, ce_builtAt = now\<rparr> # es"
  have "distinct (map ce_namespace (take (m_cacheCap m) ?l))" "distinct (map ce_limiter (take (m_cacheCap m) ?l))"
    using assms by (intro distinct_map_take; simp)+
  moreover have "e \<in> set (m_lru m) \<or> ce_limiter e = a" if "e \<in> set (take (m_cacheCap m) ?l)" for e
    using assms(5) in_set_takeD [OF that] by auto
  hence "\<forall>e\<in>set (take (m_cacheCap m) ?l). m_heap m (ce_limiter e) \<noteq> None"
    using assms(1,4) unfolding manager_inv_def by blast
  ultimately show ?thesis using assms(1) by (simp add: manager_inv_def)
qed

lemma manager_inv_insert [inv_intros]:
  assumes "manager_inv m" "m_heap m a \<noteq> None" "a \<notin> ce_limiter ` set (m_lru m)"
  shows "manager_inv (snd (getOrBuild_insert now ns a m))"
proof -
  have d: "distinct (map ce_namespace (m_lru m))" "distinct (map ce_limiter (m_lru m))"
    using assms(1) by (auto simp: manager_inv_def)
  show ?thesis
  proof (cases "cached ns m")
    case None
    hence "ns \<notin> ce_namespace ` set (m_lru m)" by (simp only: cached_None) simp
    thus ?thesis using manager_inv_push [OF assms(1), of ns "m_lru m" a now] assms d
      by (simp add: getOrBuild_insert_def None)
  next
    case (Some e)
    have "manager_inv (m\<lparr>m_lru := take (m_cacheCap m)
        (\<lparr>ce_namespace = ns, ce_limiter = a, ce_builtAt = now\<rparr> # without ns (m_lru m))\<rparr>)"
      using assms d by (intro manager_inv_push) (auto simp: distinct_map_without)
    thus ?thesis using Some manager_inv_front [OF assms(1) Some] by (simp add: getOrBuild_insert_def)
  qed
qed

lemma manager_inv_limiter_allow [inv_intros]: "manager_inv m \<Longrightarrow> manager_inv (snd (limiter_allow now a m))"
  by (auto simp: limiter_allow_def manager_inv_def split: option.splits prod.splits)
section \<open>Interleaved goroutines\<close>

text \<open>A goroutine that missed the cache holds a limiter it has built but not
  yet inserted; \<open>pending\<close> collects these.\<close>

inductive manager_step :: "Manager \<times> (string \<times> nat) list \<Rightarrow> Manager \<times> (string \<times> nat) list \<Rightarrow> bool" where
  lookup_hit: "getOrBuild_lookup now ns m = (Some a, m') \<Longrightarrow> manager_step (m, pending) (m', pending)"
| lookup_miss: "getOrBuild_lookup now ns m = (None, m1) \<Longrightarrow> getOrBuild_build store now ns m1 = (a, m2) \<Longrightarrow>
    manager_step (m, pending) (m2, (ns, a) # pending)"
| insert: "(ns, a) \<in> set pending \<Longrightarrow> getOrBuild_insert now ns a m = (a', m') \<Longrightarrow>
    manager_step (m, pending) (m', removeAll (ns, a) pending)"
| allow: "limiter_allow now a m = (ok, m') \<Longrightarrow> manager_step (m, pending) (m', pending)"
| invalidate: "manager_step (m, pending) (Invalidate ns m, pending)"
| set_ttl: "manager_step (m, pending) (SetCacheTTL d m, pending)"

inductive_cases manager_stepE: "manager_step s s'"

definition pending_ok :: "Manager \<times> (string \<times> nat) list \<Rightarrow> bool" where
  "pending_ok s \<longleftrightarrow> manager_inv (fst s) \<and> distinct (map snd (snd s))
     \<and> (\<forall>p\<in>set (snd s). m_heap (fst s) (snd p) \<noteq> None \<and> snd p \<notin> ce_limiter ` set (m_lru (fst s)))"

lemma lookup_frame:
  assumes "getOrBuild_lookup now ns m = (r, m')"
  shows "m_heap m' = m_heap m" "m_next m' = m_next m" "set (m_lru m') \<subseteq> set (m_lru m)"
  using assms by (auto simp: getOrBuild_lookup_def split: option.splits if_splits dest: cached_Some)

lemma insert_frame:
  assumes "getOrBuild_insert now ns a m = (r, m')"
  shows "m_heap m' = m_heap m" "m_next m' = m_next m"
    "ce_limiter ` set (m_lru m') \<subseteq> insert a (ce_limiter ` set (m_lru m))"
  using assms cached_Some [of ns m]
  by (auto simp: getOrBuild_insert_def split: option.splits if_splits dest!: in_set_takeD)

lemma insert_returns_cached:
  "0 < m_cacheCap m \<Longrightarrow> map_option ce_limiter (cached ns (snd (getOrBuild_insert now ns a m)))
     = Some (fst (getOrBuild_insert now ns a m))"
proof (cases "cached ns m")
  case None
  assume "0 < m_cacheCap m"
  then obtain c where "m_cacheCap m = Suc c" using gr0_implies_Suc by blast
  with None show ?thesis by (simp add: getOrBuild_insert_def) (simp add: cached_def)
next
  case (Some e)
  assume "0 < m_cacheCap m"
  then obtain c where "m_cacheCap m = Suc c" using gr0_implies_Suc by blast
  moreover have "ce_namespace e = ns" using cached_Some [OF Some] by simp
  ultimately show ?thesis using Some by (simp add: getOrBuild_insert_def) (simp add: cached_def)
qed

lemma allow_frame:
  assumes "limiter_allow now a m = (r, m')"
  shows "m_lru m' = m_lru m" "\<And>x. m_heap m' x = None \<longleftrightarrow> m_heap m x = None"
  using assms by (auto simp: limiter_allow_def split: option.splits prod.splits if_splits)

lemma Invalidate_frame: "m_heap (Invalidate ns m) = m_heap m" "set (m_lru (Invalidate ns m)) \<subseteq> set (m_lru m)"
  by (auto simp: Invalidate_def split: option.splits)

lemma pending_ok_step [inv_intros]: "manager_step s s' \<Longrightarrow> pending_ok s \<Longrightarrow> pending_ok s'"
proof (induction rule: manager_step.induct)
  case (lookup_hit now ns m a m' pending)
  thus ?case using lookup_frame [OF lookup_hit(1)] manager_inv_lookup [of m now ns]
    by (fastforce simp: pending_ok_def)
next
  case (lookup_miss now ns m m1 store a m2 pending)
  have inv: "manager_inv m1" "manager_inv m2"
    using lookup_miss manager_inv_lookup [of m now ns] manager_inv_build [of m1 store now ns]
    by (simp_all add: pending_ok_def)
  have a: "a = m_next m1" "m_lru m2 = m_lru m1" "\<exists>b. m_heap m2 = (m_heap m1)(a \<mapsto> b)"
    using lookup_miss(2) by (auto simp: getOrBuild_build_def split: prod.splits)
  have fresh: "m_heap m1 a = None" "a \<notin> ce_limiter ` set (m_lru m1)"
    using inv(1) a(1) by (fastforce simp: manager_inv_def)+
  thus ?case
    using lookup_miss(3) lookup_frame [OF lookup_miss(1)] inv a by (fastforce simp: pending_ok_def)
next
  case (insert ns a pending now m a' m')
  have "manager_inv m'"
    using insert manager_inv_insert [of m a now ns] by (fastforce simp: pending_ok_def)
  moreover have "snd p \<noteq> a" if "p \<in> set (removeAll (ns, a) pending)" for p
    using insert(1,3) that by (auto simp: pending_ok_def distinct_map inj_on_def)
  moreover have "distinct (map snd (removeAll (ns, a) pending))"
    using insert(3) by (simp add: pending_ok_def removeAll_filter_not_eq distinct_map_filter)
  ultimately show ?case
    using insert(3) insert_frame [OF insert(2)] by (fastforce simp: pending_ok_def)
next
  case (allow now a m ok m' pending)
  thus ?case using allow_frame [OF allow(1)] manager_inv_limiter_allow [of m now a]
    by (auto simp: pending_ok_def)
next
  case (invalidate m pending ns)
  thus ?case using Invalidate_frame [of ns m] manager_inv_Invalidate [of m ns]
    by (fastforce simp: pending_ok_def)
next
  case (set_ttl m pending d)
  thus ?case using manager_inv_SetCacheTTL [of m d] by (auto simp: pending_ok_def SetCacheTTL_def)
qed

lemma pending_ok_reachable: "manager_step\<^sup>*\<^sup>* (NewManager d, []) s \<Longrightarrow> pending_ok s"
  by (induction rule: rtranclp_induct) (simp_all add: pending_ok_def [of "(_, [])"] pending_ok_step)

section \<open>The cache as an LRU table\<close>

lemma getOrBuild_inv [inv_intros]:
  assumes "manager_inv m"
  shows "manager_inv (snd (getOrBuild store now ns m))"
proof -
  obtain r m1 where 1: "getOrBuild_lookup now ns m = (r, m1)" by fastforce
  obtain a m2 where 2: "getOrBuild_build store now ns m1 = (a, m2)" by fastforce
  have i1: "manager_inv m1" using manager_inv_lookup [OF assms, of now ns] 1 by simp
  hence i2: "manager_inv m2" using manager_inv_build [OF i1, of store now ns] 2 by simp
  have "m_heap m2 a \<noteq> None" "a \<notin> ce_limiter ` set (m_lru m2)"
    using 2 i1 by (fastforce simp: getOrBuild_build_def manager_inv_def split: prod.splits)+
  hence "manager_inv (snd (getOrBuild_insert now ns a m2))" by (rule manager_inv_insert [OF i2])
  thus ?thesis using 1 2 i1 by (cases r) (simp_all add: getOrBuild_def)
qed

lemma without_id: "ns \<notin> ce_namespace ` set es \<Longrightarrow> without ns es = es"
  unfolding without_def by (rule filter_True) auto

lemma build_frame: "m_lru (snd (getOrBuild_build store now ns m)) = m_lru m"
  "m_cacheCap (snd (getOrBuild_build store now ns m)) = m_cacheCap m"
  "m_ttl (snd (getOrBuild_build store now ns m)) = m_ttl m"
  by (auto simp: getOrBuild_build_def split: prod.splits)

lemma build_address: "fst (getOrBuild_build store now ns m) = m_next m"
  by (simp add: getOrBuild_build_def split: prod.splits)

lemma dropped_uncached:
  "cached ns (snd (getOrBuild_build store now ns (m\<lparr>m_lru := without ns (m_lru m)\<rparr>))) = None"
  using build_frame [of store now ns "m\<lparr>m_lru := without ns (m_lru m)\<rparr>"] by (auto simp: cached_None)

text \<open>The shape of the table after a call: the namespace's entry first, a fresh
  one kept, a missing or expired one rebuilt.\<close>

lemma getOrBuild_lru:
  assumes "manager_inv m"
  shows "m_lru (snd (getOrBuild store now ns m)) =
    (case cached ns m of
       Some e \<Rightarrow> (if now - ce_builtAt e < m_ttl m then e # without ns (m_lru m)
                  else \<lparr>ce_namespace = ns, ce_limiter = m_next m, ce_builtAt = now\<rparr> # without ns (m_lru m))
     | None \<Rightarrow> take (m_cacheCap m) (\<lparr>ce_namespace = ns, ce_limiter = m_next m, ce_builtAt = now\<rparr> # m_lru m))"
proof (cases "cached ns m")
  case None
  hence "cached ns (snd (getOrBuild_build store now ns m)) = None"
    using build_frame [of store now ns m] by (simp add: cached_None)
  thus ?thesis using None build_frame [of store now ns m]
    by (simp add: getOrBuild_def getOrBuild_lookup_def getOrBuild_insert_def getOrBuild_build_def split: prod.splits)
next
  case (Some e)
  let ?m1 = "m\<lparr>m_lru := without ns (m_lru m)\<rparr>"
  have len: "length (without ns (m_lru m)) < m_cacheCap m"
    using length_without [of e "m_lru m" ns] cached_Some [OF Some] assms by (auto simp: manager_inv_def)
  have "cached ns (snd (getOrBuild_build store now ns ?m1)) = None" by (rule dropped_uncached)
  hence "m_lru (snd (getOrBuild_insert now ns (m_next m) (snd (getOrBuild_build store now ns ?m1))))
      = \<lparr>ce_namespace = ns, ce_limiter = m_next m, ce_builtAt = now\<rparr> # without ns (m_lru m)"
    using len build_frame [of store now ns ?m1] by (simp add: getOrBuild_insert_def take_Cons')
  thus ?thesis
    using Some by (simp add: getOrBuild_def getOrBuild_lookup_def case_prod_beta build_address)
qed

lemma getOrBuild_cap [simp]: "m_cacheCap (snd (getOrBuild store now ns m)) = m_cacheCap m"
  by (auto simp: getOrBuild_def getOrBuild_lookup_def getOrBuild_insert_def getOrBuild_build_def
      split: prod.splits option.splits)

lemma getOrBuild_keys:
  assumes "manager_inv m"
  shows "map ce_namespace (m_lru (snd (getOrBuild store now ns m)))
    = lru_touch (m_cacheCap m) ns (map ce_namespace (m_lru m))"
proof (cases "cached ns m")
  case None
  hence "ns \<notin> set (map ce_namespace (m_lru m))" by (simp add: cached_None)
  thus ?thesis using None
    by (simp add: getOrBuild_lru [OF assms] lru_touch_def removeAll_id take_Cons' take_map)
next
  case (Some e)
  have "ns \<in> set (map ce_namespace (m_lru m))" using cached_Some [OF Some] by auto
  thus ?thesis
    using Some assms cached_Some [OF Some]
    by (subst lru_touch_present)
      (auto simp: getOrBuild_lru [OF assms] map_namespace_without manager_inv_def)
qed

interpretation manager_lru: lru_table "\<lambda>m. map ce_namespace (m_lru m)" m_cacheCap
    "\<lambda>ns m. snd (getOrBuild store now ns m)" manager_inv for store now
  by unfold_locales (auto simp: getOrBuild_keys getOrBuild_inv, auto simp: manager_inv_def)

section \<open>Staleness of the configuration\<close>

text \<open>The store's answers may change over time: \<open>store_at t\<close> is the store at time
  \<open>t\<close>.  A cached limiter carries the configuration of the time it was built.\<close>

definition built_from :: "(time_ns \<Rightarrow> config_get option) \<Rightarrow> Defaults \<Rightarrow> string \<Rightarrow> time_ns \<Rightarrow> bucketLimiter \<Rightarrow> bool" where
  "built_from store_at d ns t b \<longleftrightarrow>
     bl_rate b = of_int (fst (effective_config (store_at t) d ns)) / 60
     \<and> bl_burst b = of_int (snd (effective_config (store_at t) d ns))"

definition configs_inv :: "(time_ns \<Rightarrow> config_get option) \<Rightarrow> Manager \<Rightarrow> bool" where
  "configs_inv store_at m \<longleftrightarrow> manager_inv m \<and>
     (\<forall>e\<in>set (m_lru m). \<forall>b. m_heap m (ce_limiter e) = Some b \<longrightarrow>
        built_from store_at (m_defaults m) (ce_namespace e) (ce_builtAt e) b)"

lemma built_from_new: "built_from store_at d ns t
    (newBucketLimiter (fst (effective_config (store_at t) d ns)) (snd (effective_config (store_at t) d ns)) t)"
  by (simp add: built_from_def newBucketLimiter_def)

lemma built_from_allow: "built_from store_at d ns t (snd (bucketLimiter_allow now b)) = built_from store_at d ns t b"
  by (auto simp: built_from_def bucketLimiter_allow_def Let_def)

lemma getOrBuild_frame:
  assumes "manager_inv m"
  shows "m_defaults (snd (getOrBuild store now ns m)) = m_defaults m"
    "m_ttl (snd (getOrBuild store now ns m)) = m_ttl m"
    "m_heap (snd (getOrBuild store now ns m)) =
       (case cached ns m of
          Some e \<Rightarrow> if now - ce_builtAt e < m_ttl m then m_heap m
                    else (m_heap m)(m_next m \<mapsto> newBucketLimiter (fst (effective_config store (m_defaults m) ns))
                                                   (snd (effective_config store (m_defaults m) ns)) now)
        | None \<Rightarrow> (m_heap m)(m_next m \<mapsto> newBucketLimiter (fst (effective_config store (m_defaults m) ns))
                                            (snd (effective_config store (m_defaults m) ns)) now))"
  by (auto simp: getOrBuild_def getOrBuild_lookup_def getOrBuild_insert_def getOrBuild_build_def cached_def
      split: prod.splits option.splits)

text \<open>The limiter a call consults is that of the first entry of the table.\<close>

lemma getOrBuild_first:
  assumes "manager_inv m"
  obtains e es where "m_lru (snd (getOrBuild store now ns m)) = e # es" "fst (getOrBuild store now ns m) = ce_limiter e"
    "ce_namespace e = ns" "now - ce_builtAt e < m_ttl m \<or> ce_builtAt e = now"
proof (cases "cached ns m")
  case None
  have "m_cacheCap m \<noteq> 0" using assms by (simp add: manager_inv_def)
  thus ?thesis
    using that [of "\<lparr>ce_namespace = ns, ce_limiter = m_next m, ce_builtAt = now\<rparr>" "take (m_cacheCap m - 1) (m_lru m)"]
      None getOrBuild_lru [OF assms, of store now ns]
    by (auto simp: getOrBuild_def getOrBuild_lookup_def getOrBuild_insert_def getOrBuild_build_def cached_def
        take_Cons' split: prod.splits)
next
  case (Some e)
  show ?thesis
  proof (cases "now - ce_builtAt e < m_ttl m")
    case True
    thus ?thesis using that [of e "without ns (m_lru m)"] Some cached_Some [OF Some]
      by (simp add: getOrBuild_def getOrBuild_lookup_def)
  next
    case False
    hence "fst (getOrBuild store now ns m) = m_next m"
      using Some dropped_uncached [of ns store now m]
      by (simp add: getOrBuild_def getOrBuild_lookup_def getOrBuild_insert_def case_prod_beta build_address)
    thus ?thesis
      using that [of "\<lparr>ce_namespace = ns, ce_limiter = m_next m, ce_builtAt = now\<rparr>" "without ns (m_lru m)"]
        Some False getOrBuild_lru [OF assms, of store now ns] by simp
  qed
qed

lemma configs_inv_getOrBuild [inv_intros]:
  assumes "configs_inv store_at m"
  shows "configs_inv store_at (snd (getOrBuild (store_at now) now ns m))"
proof -
  let ?m = "snd (getOrBuild (store_at now) now ns m)"
  have inv: "manager_inv m" using assms by (simp add: configs_inv_def)
  have old: "m_next m \<noteq> ce_limiter e" if "e \<in> set (m_lru m)" for e
    using inv that by (fastforce simp: manager_inv_def)
  have "built_from store_at (m_defaults m) (ce_namespace e) (ce_builtAt e) b"
    if "e \<in> set (m_lru ?m)" "m_heap ?m (ce_limiter e) = Some b" for e b
  proof (cases "e \<in> set (m_lru m)")
    case True
    hence "m_heap m (ce_limiter e) = Some b"
      using that(2) old [OF True] by (auto simp: getOrBuild_frame [OF inv] split: option.splits if_splits)
    thus ?thesis using assms True by (simp add: configs_inv_def)
  next
    case False
    hence "e = \<lparr>ce_namespace = ns, ce_limiter = m_next m, ce_builtAt = now\<rparr> \<and>
        b = newBucketLimiter (fst (effective_config (store_at now) (m_defaults m) ns))
              (snd (effective_config (store_at now) (m_defaults m) ns)) now"
      using that cached_Some [of ns m]
      by (auto simp: getOrBuild_lru [OF inv] getOrBuild_frame [OF inv] split: option.splits if_splits
          dest!: in_set_takeD)
    thus ?thesis by (simp add: built_from_new)
  qed
  thus ?thesis using getOrBuild_inv [OF inv] by (simp add: configs_inv_def getOrBuild_frame [OF inv])
qed

lemma configs_inv_limiter_allow [inv_intros]:
  assumes "configs_inv store_at m"
  shows "configs_inv store_at (snd (limiter_allow now a m))"
proof (cases "m_heap m a")
  case (Some b)
  have "built_from store_at (m_defaults m) (ce_namespace e) (ce_builtAt e) b'"
    if "e \<in> set (m_lru m)" "((m_heap m)(a \<mapsto> snd (bucketLimiter_allow now b))) (ce_limiter e) = Some b'" for e b'
    using that assms Some by (cases "ce_limiter e = a") (auto simp: configs_inv_def built_from_allow)
  thus ?thesis
    using assms manager_inv_limiter_allow [of m now a] Some
    by (auto simp: configs_inv_def limiter_allow_def case_prod_beta)
qed (use assms in \<open>simp add: limiter_allow_def\<close>)

lemma configs_inv_Allow [inv_intros]:
  "configs_inv store_at m \<Longrightarrow> configs_inv store_at (snd (Manager_Allow (store_at now) now ns m))"
  by (auto simp: Manager_Allow_def case_prod_beta configs_inv_getOrBuild configs_inv_limiter_allow)

lemma Allow_frame: "manager_inv m \<Longrightarrow> m_defaults (snd (Manager_Allow store now ns m)) = m_defaults m
    \<and> m_ttl (snd (Manager_Allow store now ns m)) = m_ttl m"
  by (auto simp: Manager_Allow_def limiter_allow_def case_prod_beta getOrBuild_frame split: option.splits)

lemma configs_inv_new: "configs_inv store_at (NewManager d)"
  using manager_inv_new by (simp add: configs_inv_def) (simp add: NewManager_def)

lemma calls_keep_configs:
  assumes "configs_inv store_at m"
  shows "configs_inv store_at (fold (\<lambda>(t, ns) m. snd (Manager_Allow (store_at t) t ns m)) calls m)
      \<and> m_defaults (fold (\<lambda>(t, ns) m. snd (Manager_Allow (store_at t) t ns m)) calls m) = m_defaults m
      \<and> m_ttl (fold (\<lambda>(t, ns) m. snd (Manager_Allow (store_at t) t ns m)) calls m) = m_ttl m"
  using assms
proof (induction calls arbitrary: m)
  case (Cons c calls)
  obtain t ns where c: "c = (t, ns)" by fastforce
  have "manager_inv m" using Cons.prems by (simp add: configs_inv_def)
  thus ?case
    using Cons.IH [OF configs_inv_Allow [OF Cons.prems, of t ns]] Allow_frame [of m "store_at t" t ns]
    by (simp add: c)
qed simp

lemma replicate_5: "replicate 5 x = [x, x, x, x, x]" "replicate 10 x = [x, x, x, x, x, x, x, x, x, x]"
  by (simp_all add: eval_nat_numeral)

section \<open>Properties\<close>

text \<open>C14: Whatever the interleaving of the goroutines' critical sections with
  each other, with admissions, invalidations and changes of the expiry time,
  every namespace has at most one cached limiter, no limiter serves two
  namespaces, every cached entry points to an allocated limiter, the cache never
  exceeds its capacity, and a goroutine that finishes building a limiter goes on
  with the one that is then cached.\<close>

theorem one_limiter_per_namespace:
  assumes "manager_step\<^sup>*\<^sup>* (NewManager d, []) (m, pending)"
  shows "distinct (map ce_namespace (m_lru m)) \<and> distinct (map ce_limiter (m_lru m)) \<and>
    (\<forall>e \<in> set (m_lru m). \<exists>b. m_heap m (ce_limiter e) = Some b) \<and>
    length (m_lru m) \<le> m_cacheCap m \<and>
    (\<forall>now ns a. map_option ce_limiter (cached ns (snd (getOrBuild_insert now ns a m)))
       = Some (fst (getOrBuild_insert now ns a m)))"
  using pending_ok_reachable [OF assms] by (simp add: pending_ok_def manager_inv_def insert_returns_cached)

text \<open>Two goroutines miss the cache, both build a limiter, and the slower one goes
  on with the limiter of the faster one.\<close>

theorem one_limiter_per_namespace_witness:
  "\<exists>m. manager_step\<^sup>*\<^sup>* (NewManager \<lparr>df_RequestsPerMinute = 60, df_Burst = 2, df_MaxRequestsPerMinute = 0, df_MaxBurst = 0\<rparr>, []) (m, [])
     \<and> m_lru m = [\<lparr>ce_namespace = ''app'', ce_limiter = 0, ce_builtAt = 5\<rparr>] \<and> m_next m = 2
     \<and> (\<exists>b. m_heap m 0 = Some b) \<and> length (m_lru m) \<le> m_cacheCap m"
proof -
  let ?m0 = "NewManager \<lparr>df_RequestsPerMinute = 60, df_Burst = 2, df_MaxRequestsPerMinute = 0, df_MaxBurst = 0\<rparr>"
  define m1 where "m1 = snd (getOrBuild_build None 0 ''app'' ?m0)"
  define m2 where "m2 = snd (getOrBuild_build None 1 ''app'' m1)"
  define m3 where "m3 = snd (getOrBuild_insert 5 ''app'' 0 m2)"
  define m4 where "m4 = snd (getOrBuild_insert 6 ''app'' 1 m3)"
  note ev = getOrBuild_build_def effective_config_def NewManager_def Sane_def cached_def getOrBuild_insert_def without_def
    defaultCacheCap_def cacheEntryTTL_def getOrBuild_lookup_def
  have s1: "manager_step (?m0, []) (m1, [(''app'', 0)])"
    by (rule lookup_miss [of 0 _ _ ?m0 None]) (simp_all add: ev m1_def)
  have s2: "manager_step (m1, [(''app'', 0)]) (m2, [(''app'', 1), (''app'', 0)])"
    by (rule lookup_miss [of 1 _ _ m1 None]) (simp_all add: ev m1_def m2_def)
  have s3: "manager_step (m2, [(''app'', 1), (''app'', 0)]) (m3, removeAll (''app'', 0) [(''app'', 1), (''app'', 0)])"
    by (rule manager_step.insert [of _ _ _ 5]) (simp_all add: ev m1_def m2_def m3_def)
  have s4: "manager_step (m3, [(''app'', 1)]) (m4, removeAll (''app'', 1) [(''app'', 1)])"
    by (rule manager_step.insert [of _ _ _ 6]) (simp_all add: ev m1_def m2_def m3_def m4_def)
  have reach: "manager_step\<^sup>*\<^sup>* (?m0, []) (m4, [])"
    using s1 s2 s3 s4 by (simp add: rtranclp.rtrancl_into_rtrancl)
  have l: "m_lru m4 = [\<lparr>ce_namespace = ''app'', ce_limiter = 0, ce_builtAt = 5\<rparr>]" "m_next m4 = 2"
    by (simp_all add: ev m1_def m2_def m3_def m4_def)
  show ?thesis using one_limiter_per_namespace [OF reach] reach l by (intro exI [of _ m4]) simp
qed

text \<open>Bounded staleness: after any sequence of calls, the limiter that decides
  a request carries the rate and burst the configuration store prescribed for
  that namespace at some moment less than the expiry time before the request.\<close>

lemma decision_uses_recent_config:
  "let m = fold (\<lambda>(t, ns) m. snd (Manager_Allow (store_at t) t ns m)) calls (NewManager d)
   in \<exists>b t. m_heap (snd (getOrBuild (store_at now) now ns m)) (fst (getOrBuild (store_at now) now ns m)) = Some b
        \<and> built_from store_at (Sane d) ns t b \<and> now - t < cacheEntryTTL"
proof -
  define m where "m = fold (\<lambda>(t, ns) m. snd (Manager_Allow (store_at t) t ns m)) calls (NewManager d)"
  have ci: "configs_inv store_at m" "m_defaults m = Sane d" "m_ttl m = cacheEntryTTL"
    using calls_keep_configs [OF configs_inv_new] by (simp_all add: m_def NewManager_def)
  hence inv: "manager_inv m" by (simp add: configs_inv_def)
  obtain e es where e: "m_lru (snd (getOrBuild (store_at now) now ns m)) = e # es"
    "fst (getOrBuild (store_at now) now ns m) = ce_limiter e" "ce_namespace e = ns"
    "now - ce_builtAt e < m_ttl m \<or> ce_builtAt e = now"
    using getOrBuild_first [OF inv] by metis
  have ci': "configs_inv store_at (snd (getOrBuild (store_at now) now ns m))"
    using ci(1) by (rule configs_inv_getOrBuild)
  then obtain b where "m_heap (snd (getOrBuild (store_at now) now ns m)) (ce_limiter e) = Some b"
    using e(1) by (auto simp: configs_inv_def manager_inv_def)
  moreover have "now - ce_builtAt e < cacheEntryTTL" using e(4) ci(3) by (auto simp: cacheEntryTTL_def)
  ultimately show ?thesis
    using ci' ci(2) e unfolding m_def [symmetric] Let_def
    by (auto simp: configs_inv_def getOrBuild_frame [OF inv])
qed

text \<open>Rebuilding an expired limiter starts it with a full bucket, so the
  configured rate is not a bound across expiries: a namespace limited to one
  request per minute with burst five is admitted ten times within thirty
  seconds, where a single bucket admits at most five and a half.\<close>

lemma expiry_refills_the_bucket:
  "let d = \<lparr>df_RequestsPerMinute = 1, df_Burst = 5, df_MaxRequestsPerMinute = 0, df_MaxBurst = 0\<rparr>;
       ts = replicate 5 0 @ replicate 5 30000000000
   in admissions (\<lambda>now m. Manager_Allow None now ''app'' m) (NewManager d) ts = replicate 10 True
      \<and> of_nat (admitted bucketLimiter_allow (newBucketLimiter 1 5 0) ts) \<le> (11 / 2 :: rat)"
proof -
  let ?ts = "replicate 5 0 @ replicate 5 (30000000000 :: int)"
  have "of_nat (admitted bucketLimiter_allow (newBucketLimiter 1 5 0) ?ts)
      \<le> 5 + 1 / 60 * seconds (last (0 # ?ts) - 0)"
    using bucketLimiter.rate_bound [of "newBucketLimiter 1 5 0" "1 / 60" 5 ?ts]
    by (simp add: newBucketLimiter_def sorted_append)
  hence "of_nat (admitted bucketLimiter_allow (newBucketLimiter 1 5 0) ?ts) \<le> (11 / 2 :: rat)"
    by (simp add: seconds_def)
  moreover have "admissions (\<lambda>now m. Manager_Allow None now ''app'' m)
      (NewManager \<lparr>df_RequestsPerMinute = 1, df_Burst = 5, df_MaxRequestsPerMinute = 0, df_MaxBurst = 0\<rparr>) ?ts
      = replicate 10 True"
    by (simp add: replicate_5 NewManager_def Sane_def Manager_Allow_def getOrBuild_def getOrBuild_lookup_def
        getOrBuild_build_def getOrBuild_insert_def effective_config_def cached_def without_def limiter_allow_def
        bucketLimiter_allow_def newBucketLimiter_def seconds_def cacheEntryTTL_def defaultCacheCap_def)
  ultimately show ?thesis by (simp add: Let_def)
qed

end
