(* ===== verification/Gateway_Rate_Limit.thy ===== *)
theory Gateway_Rate_Limit
  imports Rate_Limit_Manager
begin

text \<open>
  The limiters of the HTTP gateway: the per-client \<^verbatim>\<open>RateLimiter\<close>, the
  per-namespace \<^verbatim>\<open>NamespaceRateLimiter\<close> and its middleware
  (\<^verbatim>\<open>core/pkg/gateway/rate_limiter.go\<close>), and the \<^verbatim>\<open>IdentityRateLimiter\<close> of
  the vault handlers (\<^verbatim>\<open>core/pkg/gateway/handlers/vault/rate_limiter.go\<close>).

  All are maps from keys to the buckets of \<open>refill_and_take\<close>.  The periodic
  goroutines only call \<^verbatim>\<open>Cleanup\<close>, which is an operation here.
\<close>

section \<open>gateway/rate_limiter.go\<close>

record RateLimiter =
  rl_clients :: "string \<Rightarrow> rl_bucket option"
  rl_rate :: rat
  rl_burst :: int

definition NewRateLimiter :: "int \<Rightarrow> int \<Rightarrow> RateLimiter" where
  "NewRateLimiter ratePerMinute burst =
     \<lparr>rl_clients = Map.empty, rl_rate = of_int ratePerMinute / 60, rl_burst = burst\<rparr>"

definition RateLimiter_Allow :: "time_ns \<Rightarrow> string \<Rightarrow> RateLimiter \<Rightarrow> bool \<times> RateLimiter" where
  "RateLimiter_Allow now ip rl =
     (case rl_clients rl ip of
        None \<Rightarrow> (True, rl\<lparr>rl_clients := (rl_clients rl)(ip \<mapsto>
                  \<lparr>rb_tokens = of_int (rl_burst rl) - 1, rb_lastCheck = now\<rparr>)\<rparr>)
      | Some b \<Rightarrow>
          (let (ok, b') = refill_and_take (rl_rate rl) (rl_burst rl) now b
           in (ok, rl\<lparr>rl_clients := (rl_clients rl)(ip \<mapsto> b')\<rparr>)))"

definition RateLimiter_Cleanup :: "int \<Rightarrow> time_ns \<Rightarrow> RateLimiter \<Rightarrow> RateLimiter" where
  "RateLimiter_Cleanup maxAge now rl =
     rl\<lparr>rl_clients := (\<lambda>ip. case rl_clients rl ip of
          None \<Rightarrow> None
        | Some b \<Rightarrow> if rb_lastCheck b < now - maxAge then None else Some b)\<rparr>"

record NamespaceRateLimiter =
  nrl_limiters :: "string \<Rightarrow> RateLimiter option"
  nrl_rate :: int
  nrl_burst :: int

definition NewNamespaceRateLimiter :: "int \<Rightarrow> int \<Rightarrow> NamespaceRateLimiter" where
  "NewNamespaceRateLimiter ratePerMinute burst =
     \<lparr>nrl_limiters = Map.empty, nrl_rate = ratePerMinute, nrl_burst = burst\<rparr>"

definition NamespaceRateLimiter_Allow :: "time_ns \<Rightarrow> string \<Rightarrow> NamespaceRateLimiter \<Rightarrow> bool \<times> NamespaceRateLimiter" where
  "NamespaceRateLimiter_Allow now namespace nrl =
     (if namespace = '''' then (True, nrl)
      else let rl = (case nrl_limiters nrl namespace of
                       None \<Rightarrow> NewRateLimiter (nrl_rate nrl) (nrl_burst nrl)
                     | Some rl \<Rightarrow> rl);
               (ok, rl') = RateLimiter_Allow now namespace rl
           in (ok, nrl\<lparr>nrl_limiters := (nrl_limiters nrl)(namespace \<mapsto> rl')\<rparr>))"

datatype middleware_outcome = ServedNext | TooManyRequests

definition namespaceRateLimitMiddleware :: "config_get option \<Rightarrow> time_ns \<Rightarrow> string
    \<Rightarrow> Manager option \<times> NamespaceRateLimiter option
    \<Rightarrow> middleware_outcome \<times> (Manager option \<times> NamespaceRateLimiter option)" where
  "namespaceRateLimitMiddleware store now ns g =
     (if ns = '''' then (ServedNext, g)
      else case g of
        (Some m, legacy) \<Rightarrow>
          (let (allowed, m') = Manager_Allow store now ns m
           in (if allowed then ServedNext else TooManyRequests, (Some m', legacy)))
      | (None, Some nrl) \<Rightarrow>
          (let (allowed, nrl') = NamespaceRateLimiter_Allow now ns nrl
           in (if allowed then ServedNext else TooManyRequests, (None, Some nrl')))
      | (None, None) \<Rightarrow> (ServedNext, g))"

section \<open>handlers/vault/rate_limiter.go\<close>

record IdentityRateLimiter =
  pushBuckets :: "string \<Rightarrow> rl_bucket option"
  pullBuckets :: "string \<Rightarrow> rl_bucket option"
  pushRate :: rat
  pushBurst :: int
  pullRate :: rat
  pullBurst :: int

definition NewIdentityRateLimiter :: "int \<Rightarrow> int \<Rightarrow> IdentityRateLimiter" where
  "NewIdentityRateLimiter pushPerHour pullPerHour =
     (let pushB = pushPerHour div 6; pullB = pullPerHour div 6
      in \<lparr>pushBuckets = Map.empty, pullBuckets = Map.empty,
          pushRate = of_int pushPerHour / 3600, pushBurst = (if pushB < 1 then 1 else pushB),
          pullRate = of_int pullPerHour / 3600, pullBurst = (if pullB < 1 then 1 else pullB)\<rparr>)"

definition identity_allow :: "rat \<Rightarrow> int \<Rightarrow> time_ns \<Rightarrow> string \<Rightarrow> (string \<Rightarrow> rl_bucket option)
    \<Rightarrow> bool \<times> (string \<Rightarrow> rl_bucket option)" where
  "identity_allow rate burst now identity buckets =
     (let b = (case buckets identity of
                 None \<Rightarrow> \<lparr>rb_tokens = of_int burst, rb_lastCheck = now\<rparr>
               | Some b \<Rightarrow> b);
          (ok, b') = refill_and_take rate burst now b
      in (ok, buckets(identity \<mapsto> b')))"

definition AllowPush :: "time_ns \<Rightarrow> string \<Rightarrow> IdentityRateLimiter \<Rightarrow> bool \<times> IdentityRateLimiter" where
  "AllowPush now identity rl =
     (let (ok, bs) = identity_allow (pushRate rl) (pushBurst rl) now identity (pushBuckets rl)
      in (ok, rl\<lparr>pushBuckets := bs\<rparr>))"

definition AllowPull :: "time_ns \<Rightarrow> string \<Rightarrow> IdentityRateLimiter \<Rightarrow> bool \<times> IdentityRateLimiter" where
  "AllowPull now identity rl =
     (let (ok, bs) = identity_allow (pullRate rl) (pullBurst rl) now identity (pullBuckets rl)
      in (ok, rl\<lparr>pullBuckets := bs\<rparr>))"

definition drop_stale :: "time_ns \<Rightarrow> (string \<Rightarrow> rl_bucket option) \<Rightarrow> (string \<Rightarrow> rl_bucket option)" where
  "drop_stale cutoff m = (\<lambda>k. case m k of None \<Rightarrow> None | Some b \<Rightarrow> if rb_lastCheck b < cutoff then None else Some b)"

definition identity_cleanup :: "int \<Rightarrow> time_ns \<Rightarrow> IdentityRateLimiter \<Rightarrow> IdentityRateLimiter" where
  "identity_cleanup maxAge now rl =
     (let cutoff = now - maxAge
      in rl\<lparr>pushBuckets := drop_stale cutoff (pushBuckets rl), pullBuckets := drop_stale cutoff (pullBuckets rl)\<rparr>)"

section \<open>Keyed buckets\<close>

text \<open>With a burst of at least one the gateway's limiter treats an unknown client
  as one with a full bucket, as the vault's limiter does.\<close>

lemma new_client_full_bucket:
  "1 \<le> burst \<Longrightarrow> refill_and_take rate burst now \<lparr>rb_tokens = of_int burst, rb_lastCheck = now\<rparr>
     = (True, \<lparr>rb_tokens = of_int burst - 1, rb_lastCheck = now\<rparr>)"
  by (simp add: refill_and_take_def)

lemma RateLimiter_Allow_eq:
  "1 \<le> rl_burst rl \<Longrightarrow> RateLimiter_Allow now ip rl =
     (let (ok, cs) = identity_allow (rl_rate rl) (rl_burst rl) now ip (rl_clients rl) in (ok, rl\<lparr>rl_clients := cs\<rparr>))"
  by (auto simp: RateLimiter_Allow_def identity_allow_def new_client_full_bucket split: option.splits prod.splits)

fun keyed_admitted :: "rat \<Rightarrow> int \<Rightarrow> string \<Rightarrow> (string \<Rightarrow> rl_bucket option) \<Rightarrow> (time_ns \<times> string) list \<Rightarrow> nat" where
  "keyed_admitted r c k m [] = 0"
| "keyed_admitted r c k m ((now, k') # calls) =
     (let (ok, m') = identity_allow r c now k' m
      in (if ok \<and> k' = k then 1 else 0) + keyed_admitted r c k m' calls)"

lemma keyed_admitted_single:
  "m k = Some b \<Longrightarrow> keyed_admitted r c k m calls
     = admitted (refill_and_take r c) b (map fst (filter (\<lambda>p. snd p = k) calls))"
proof (induction r c k m calls arbitrary: b rule: keyed_admitted.induct)
  case (2 r c k m now k' calls)
  obtain ok m' where st: "identity_allow r c now k' m = (ok, m')" by fastforce
  show ?case
  proof (cases "k' = k")
    case True
    hence "ok = fst (refill_and_take r c now b)" "m' k = Some (snd (refill_and_take r c now b))"
      using st "2.prems" by (auto simp: identity_allow_def Let_def split: prod.splits)
    thus ?thesis using "2.IH" [OF st [symmetric] refl] True st by simp
  next
    case False
    hence "m' k = Some b" using st "2.prems" by (auto simp: identity_allow_def Let_def split: prod.splits)
    thus ?thesis using "2.IH" [OF st [symmetric] refl] False st by simp
  qed
qed simp

lemma sorted_filter_fst: "sorted (map fst calls) \<Longrightarrow> sorted (map fst (filter P calls))"
  by (induction calls) auto

lemma last_filter_le:
  "sorted (t # map fst calls) \<Longrightarrow> last (t # map fst (filter P calls)) \<le> last (t # map fst calls)"
proof (induction calls arbitrary: t)
  case (Cons c calls)
  show ?case
  proof (cases "P c")
    case True
    thus ?thesis using Cons.IH [of "fst c"] Cons.prems by simp
  next
    case False
    have "last (t # map fst (filter P calls)) \<le> last (t # map fst calls)"
      using Cons.prems by (intro Cons.IH) simp
    also have "\<dots> \<le> last (t # map fst (c # calls))" using Cons.prems by (cases calls) auto
    finally show ?thesis using False by simp
  qed
qed simp

lemma keyed_bound:
  assumes "0 \<le> r" "1 \<le> c" "m k = None" "sorted (t # map fst calls)"
  shows "of_nat (keyed_admitted r c k m calls) \<le> of_int c + r * seconds (last (t # map fst calls) - t)"
  using assms(3,4)
proof (induction calls arbitrary: m t)
  case Nil
  thus ?case using assms(2) by simp
next
  case (Cons p calls)
  obtain now k' where p: "p = (now, k')" by fastforce
  obtain ok m' where st: "identity_allow r c now k' m = (ok, m')" by fastforce
  have t: "t \<le> now" using Cons.prems(2) by (simp add: p)
  have l: "r * seconds (last (now # map fst calls) - now) \<le> r * seconds (last (t # map fst (p # calls)) - t)"
    using assms(1) t by (intro mult_left_mono seconds_mono) (auto simp: p)
  show ?case
  proof (cases "k' = k")
    case False
    hence "m' k = None" using st Cons.prems by (auto simp: identity_allow_def Let_def split: prod.splits)
    hence "of_nat (keyed_admitted r c k m' calls) \<le> of_int c + r * seconds (last (now # map fst calls) - now)"
      using Cons.prems by (intro Cons.IH) (simp_all add: p)
    thus ?thesis using False st l by (simp add: p)
  next
    case True
    let ?full = "\<lparr>rb_tokens = of_int c, rb_lastCheck = now\<rparr>" and ?fs = "map fst (filter (\<lambda>p. snd p = k) calls)"
    have m': "m' k = Some (snd (refill_and_take r c now ?full))" and ok: "ok = fst (refill_and_take r c now ?full)"
      using st Cons.prems True by (auto simp: identity_allow_def Let_def split: prod.splits)
    have srt: "sorted (now # now # ?fs)" using Cons.prems(2) sorted_filter_fst [of calls] by (auto simp: p)
    have "keyed_admitted r c k m (p # calls) = admitted (refill_and_take r c) ?full (now # ?fs)"
      using keyed_admitted_single [where m = m' and k = k, OF m'] ok True st by (simp add: p)
    moreover have "of_nat (admitted (refill_and_take r c) ?full (now # ?fs))
        \<le> of_int c + r * seconds (last (now # now # ?fs) - now)"
      using client_bucket.rate_bound [of r ?full c "now # ?fs"] assms(1,2) srt by simp
    moreover have "r * seconds (last (now # now # ?fs) - now) \<le> r * seconds (last (now # map fst calls) - now)"
      using assms(1) last_filter_le [of now calls] Cons.prems(2) by (intro mult_left_mono seconds_mono) (auto simp: p)
    ultimately show ?thesis using l by linarith
  qed
qed

section \<open>Properties\<close>

text \<open>The per-identity limits of the vault handlers: of the pushes of one
  identity, interleaved with those of any others, at most burst plus rate times
  elapsed time are admitted.\<close>

lemma identity_limit_respected:
  assumes "0 \<le> pushPerHour" "sorted (t # map fst calls)"
  shows "of_nat (keyed_admitted (pushRate (NewIdentityRateLimiter pushPerHour pullPerHour))
            (pushBurst (NewIdentityRateLimiter pushPerHour pullPerHour)) identity
            (pushBuckets (NewIdentityRateLimiter pushPerHour pullPerHour)) calls)
    \<le> of_int (max 1 (pushPerHour div 6)) + of_int pushPerHour / 3600 * seconds (last (t # map fst calls) - t)"
proof -
  have sel: "pushRate (NewIdentityRateLimiter pushPerHour pullPerHour) = of_int pushPerHour / 3600"
    "pushBurst (NewIdentityRateLimiter pushPerHour pullPerHour) = max 1 (pushPerHour div 6)"
    "pushBuckets (NewIdentityRateLimiter pushPerHour pullPerHour) = Map.empty"
    by (simp_all add: NewIdentityRateLimiter_def Let_def max_def)
  show ?thesis unfolding sel using assms by (intro keyed_bound) auto
qed

lemma identity_limit_respected_example:
  "of_nat (keyed_admitted (pushRate (NewIdentityRateLimiter 30 120)) (pushBurst (NewIdentityRateLimiter 30 120)) ''id''
      (pushBuckets (NewIdentityRateLimiter 30 120)) [(0, ''id''), (5, ''other''), (5, ''id'')])
    \<le> of_int (max 1 (30 div 6)) + of_int 30 / 3600 * seconds (last (0 # map fst [(0, ''id''), (5, ''other''), (5, ''id'')]) - 0)"
  by (rule identity_limit_respected) simp_all

text \<open>Removing stale clients changes no decision: if the age at which
  \<^verbatim>\<open>Cleanup\<close> removes a client is long enough for its bucket to be full again,
  the next request of any client gets the same answer and leaves the same
  bucket as without the cleanup.\<close>

lemma cleanup_changes_no_decision:
  assumes "0 \<le> rl_rate rl" "1 \<le> rl_burst rl" "of_int (rl_burst rl) \<le> seconds maxAge * rl_rate rl" "now \<le> later"
    and "\<And>ip b. rl_clients rl ip = Some b \<Longrightarrow> 0 \<le> rb_tokens b"
  shows "fst (RateLimiter_Allow later ip (RateLimiter_Cleanup maxAge now rl)) = fst (RateLimiter_Allow later ip rl)
    \<and> rl_clients (snd (RateLimiter_Allow later ip (RateLimiter_Cleanup maxAge now rl))) ip
      = rl_clients (snd (RateLimiter_Allow later ip rl)) ip"
proof (cases "rl_clients rl ip")
  case (Some b)
  show ?thesis
  proof (cases "rb_lastCheck b < now - maxAge")
    case True
    have "seconds maxAge * rl_rate rl \<le> seconds (later - rb_lastCheck b) * rl_rate rl"
      using True assms(1,4) by (intro mult_right_mono seconds_mono) auto
    hence "of_int (rl_burst rl) \<le> rb_tokens b + seconds (later - rb_lastCheck b) * rl_rate rl"
      using assms(3) assms(5) [OF Some] by linarith
    hence "refill_and_take (rl_rate rl) (rl_burst rl) later b
        = (True, \<lparr>rb_tokens = of_int (rl_burst rl) - 1, rb_lastCheck = later\<rparr>)"
      using assms(2) by (auto simp: refill_and_take_def Let_def)
    thus ?thesis using True Some by (simp add: RateLimiter_Allow_def RateLimiter_Cleanup_def)
  qed (simp add: Some RateLimiter_Allow_def RateLimiter_Cleanup_def split: prod.splits)
qed (simp add: RateLimiter_Allow_def RateLimiter_Cleanup_def)

lemma cleanup_changes_no_decision_example:
  "let rl = \<lparr>rl_clients = [''ip'' \<mapsto> \<lparr>rb_tokens = 0, rb_lastCheck = 0\<rparr>], rl_rate = 1, rl_burst = 5\<rparr>
   in fst (RateLimiter_Allow 20000000000 ''ip'' (RateLimiter_Cleanup 5000000000 15000000000 rl))
        = fst (RateLimiter_Allow 20000000000 ''ip'' rl)
      \<and> rl_clients (snd (RateLimiter_Allow 20000000000 ''ip'' (RateLimiter_Cleanup 5000000000 15000000000 rl))) ''ip''
        = rl_clients (snd (RateLimiter_Allow 20000000000 ''ip'' rl)) ''ip''"
  unfolding Let_def by (rule cleanup_changes_no_decision) (auto simp: seconds_def split: if_splits)
end
