(* ===== verification/Interpolation.thy ===== *)
theory Interpolation
  imports Main
begin

text \<open>
  Polynomials over a field as coefficient lists: evaluation, the bound on the
  number of roots, Lagrange interpolation at zero and the existence of exactly
  one polynomial through given points.  Nothing here depends on the program.
\<close>

primrec peval :: "'a::comm_ring_1 list \<Rightarrow> 'a \<Rightarrow> 'a" where
  "peval [] x = 0"
| "peval (c # cs) x = c + x * peval cs x"

lemma peval_0: "peval cs 0 = (case cs of [] \<Rightarrow> 0 | c # _ \<Rightarrow> c)"
  by (cases cs) auto

lemma peval_replicate_0 [simp]: "peval (replicate n 0) x = 0"
  by (induction n) auto

lemma peval_zeros: "set cs \<subseteq> {0} \<Longrightarrow> peval cs x = 0"
  by (induction cs) auto

lemma peval_append_0: "peval (cs @ [0]) x = peval cs x"
  by (induction cs) auto

lemma peval_map2_add:
  "length cs = length ds \<Longrightarrow> peval (map2 (+) cs ds) x = peval cs x + peval ds x"
  by (induction cs ds rule: list_induct2) (auto simp: algebra_simps)

lemma peval_map2_diff:
  "length cs = length ds \<Longrightarrow> peval (map2 (-) cs ds) x = peval cs x - peval ds x"
  by (induction cs ds rule: list_induct2) (auto simp: right_diff_distrib)

lemma peval_map_mult: "peval (map ((*) a) cs) x = a * peval cs x"
  by (induction cs) (auto simp: algebra_simps)

section \<open>Roots\<close>

fun sdiv :: "'a::comm_ring_1 \<Rightarrow> 'a list \<Rightarrow> 'a list" where
  "sdiv a [] = []"
| "sdiv a [c] = []"
| "sdiv a (c # d # cs) = peval (d # cs) a # sdiv a (d # cs)"

lemma length_sdiv [simp]: "length (sdiv a cs) = length cs - 1"
  by (induction a cs rule: sdiv.induct) auto

lemma sdiv_step: "c + x * (u + (x - a) * v) = c + a * u + (x - a) * (u + x * v)"
  for c x u a v :: "'a::comm_ring_1"
  by (simp add: algebra_simps)

lemma sdiv_eq: "peval cs x = peval cs a + (x - a) * peval (sdiv a cs) x"
proof (induction a cs rule: sdiv.induct)
  case (3 a c d cs)
  let ?q = "d # cs"
  have "peval (c # ?q) x = c + x * (peval ?q a + (x - a) * peval (sdiv a ?q) x)"
    by (simp only: peval.simps(2) [of c] 3 [symmetric])
  also have "\<dots> = peval (c # ?q) a + (x - a) * peval (sdiv a (c # ?q)) x"
    unfolding sdiv.simps peval.simps(2) [of c] peval.simps(2) [of "peval ?q a"]
    by (rule sdiv_step)
  finally show ?case .
qed auto

lemma sdiv_zeros: "set (sdiv a cs) \<subseteq> {0} \<Longrightarrow> peval cs a = 0 \<Longrightarrow> set cs \<subseteq> {0}"
  by (induction a cs rule: sdiv.induct) auto

lemma peval_roots:
  fixes cs :: "'a::field list"
  assumes "distinct xs" "length cs \<le> length xs" "\<And>x. x \<in> set xs \<Longrightarrow> peval cs x = 0"
  shows "set cs \<subseteq> {0}"
  using assms
proof (induction xs arbitrary: cs)
  case (Cons a xs)
  have a: "peval cs a = 0" using Cons.prems by simp
  have "peval (sdiv a cs) x = 0" if "x \<in> set xs" for x
    using Cons.prems that sdiv_eq [of cs x a] a by auto
  hence "set (sdiv a cs) \<subseteq> {0}" using Cons by (intro Cons.IH) auto
  thus ?case using a by (rule sdiv_zeros)
qed simp

lemma peval_inj:
  fixes cs :: "'a::field list"
  assumes "distinct xs" "length cs = length ds" "length cs \<le> length xs"
    and "\<And>x. x \<in> set xs \<Longrightarrow> peval cs x = peval ds x"
  shows "cs = ds"
proof -
  have "set (map2 (-) cs ds) \<subseteq> {0}"
    using assms by (intro peval_roots [of xs]) (auto simp: peval_map2_diff)
  hence "cs ! i - ds ! i = 0" if "i < length cs" for i
    using that assms(2) nth_mem [of i "map2 (-) cs ds"] by auto
  thus ?thesis using assms(2) by (auto simp: list_eq_iff_nth_eq)
qed

section \<open>Polynomial functions\<close>

definition polyfun :: "nat \<Rightarrow> ('a::field \<Rightarrow> 'a) \<Rightarrow> bool" where
  "polyfun m f \<longleftrightarrow> (\<exists>cs. length cs = m \<and> f = peval cs)"

lemma polyfun_peval: "polyfun (length cs) (peval cs)"
  by (auto simp: polyfun_def)

lemma polyfun_Suc: "polyfun m f \<Longrightarrow> polyfun (Suc m) f"
  unfolding polyfun_def by (metis ext length_append_singleton peval_append_0)

lemma polyfun_mono: "polyfun m f \<Longrightarrow> m \<le> n \<Longrightarrow> polyfun n f"
  by (induction n) (auto simp: le_Suc_eq polyfun_Suc)

lemma polyfun_add:
  assumes "polyfun m f" "polyfun m g"
  shows "polyfun m (\<lambda>x. f x + g x)"
proof -
  obtain cs ds where "length cs = m" "f = peval cs" "length ds = m" "g = peval ds"
    using assms by (auto simp: polyfun_def)
  thus ?thesis
    unfolding polyfun_def by (intro exI [of _ "map2 (+) cs ds"]) (auto simp: peval_map2_add)
qed

lemma polyfun_cmult:
  assumes "polyfun m f"
  shows "polyfun m (\<lambda>x. a * f x)"
proof -
  obtain cs where "length cs = m" "f = peval cs" using assms by (auto simp: polyfun_def)
  thus ?thesis
    unfolding polyfun_def by (intro exI [of _ "map ((*) a) cs"]) (auto simp: peval_map_mult)
qed

lemma polyfun_shift:
  assumes "polyfun m f"
  shows "polyfun (Suc m) (\<lambda>x. x * f x)"
proof -
  obtain cs where "length cs = m" "f = peval cs" using assms by (auto simp: polyfun_def)
  thus ?thesis unfolding polyfun_def by (intro exI [of _ "0 # cs"]) auto
qed

lemma polyfun_linear:
  assumes "polyfun m f"
  shows "polyfun (Suc m) (\<lambda>x. (x - a) / d * f x)"
proof -
  have "polyfun (Suc m) (\<lambda>x. inverse d * (x * f x + (- a) * f x))"
    using assms by (intro polyfun_cmult polyfun_add polyfun_shift polyfun_Suc)
  thus ?thesis by (simp add: field_simps)
qed

lemma polyfun_prod:
  "finite A \<Longrightarrow> polyfun (Suc (card A)) (\<lambda>x. \<Prod>j\<in>A. (x - b j) / d j)"
proof (induction A rule: finite_induct)
  case empty
  show ?case by (auto simp: polyfun_def intro!: exI [of _ "[1]"])
next
  case (insert i A)
  thus ?case using polyfun_linear [of "Suc (card A)" _ "b i" "d i"] by simp
qed

lemma polyfun_sum:
  "finite A \<Longrightarrow> (\<And>i. i \<in> A \<Longrightarrow> polyfun m (f i)) \<Longrightarrow> polyfun m (\<lambda>x. \<Sum>i\<in>A. f i x)"
proof (induction A rule: finite_induct)
  case empty
  show ?case by (auto simp: polyfun_def intro!: exI [of _ "replicate m 0"])
next
  case (insert i A)
  thus ?case using polyfun_add [of m "f i"] by simp
qed

section \<open>Interpolation\<close>

lemma lagrange_at:
  fixes xs :: "'a::field list"
  assumes "distinct xs" "m < length xs"
  shows "(\<Sum>i<length xs. y i * (\<Prod>j\<in>{..<length xs} - {i}. (xs ! m - xs ! j) / (xs ! i - xs ! j))) = y m"
proof -
  have z: "(\<Prod>j\<in>{..<length xs} - {i}. (xs ! m - xs ! j) / (xs ! i - xs ! j)) = (if i = m then 1 else 0)"
    if "i < length xs" for i
    using assms that by (auto intro!: prod.neutral prod_zero simp: nth_eq_iff_index_eq)
  have "(\<Sum>i<length xs. y i * (\<Prod>j\<in>{..<length xs} - {i}. (xs ! m - xs ! j) / (xs ! i - xs ! j)))
      = (\<Sum>i<length xs. if i = m then y i else 0)"
    by (intro sum.cong) (auto simp: z)
  thus ?thesis using assms(2) by simp
qed

theorem lagrange_zero:
  fixes xs :: "'a::field list"
  assumes "distinct xs" "length cs \<le> length xs"
  shows "(\<Sum>i<length xs. peval cs (xs ! i) * (\<Prod>j\<in>{..<length xs} - {i}. (0 - xs ! j) / (xs ! i - xs ! j)))
         = peval cs 0"
proof -
  let ?n = "length xs"
  let ?L = "\<lambda>x. \<Sum>i<?n. peval cs (xs ! i) * (\<Prod>j\<in>{..<?n} - {i}. (x - xs ! j) / (xs ! i - xs ! j))"
  have "polyfun ?n (\<lambda>x. ?L x + (-1) * peval cs x)"
  proof (intro polyfun_add polyfun_sum polyfun_cmult)
    show "polyfun ?n (peval cs)" using polyfun_peval assms(2) by (rule polyfun_mono)
    fix i assume "i \<in> {..<?n}"
    thus "polyfun ?n (\<lambda>x. \<Prod>j\<in>{..<?n} - {i}. (x - xs ! j) / (xs ! i - xs ! j))"
      using polyfun_prod [of "{..<?n} - {i}" "\<lambda>j. xs ! j" "\<lambda>j. xs ! i - xs ! j"]
      by (cases xs) simp_all
  qed simp
  then obtain ds where ds1: "length ds = ?n" and L: "(\<lambda>x. ?L x + (-1) * peval cs x) = peval ds"
    unfolding polyfun_def by blast
  have ds: "?L x + (-1) * peval cs x = peval ds x" for x using L by (rule fun_cong)
  have "peval ds x = 0" if "x \<in> set xs" for x
  proof -
    obtain m where "m < ?n" "x = xs ! m" using \<open>x \<in> set xs\<close> by (metis in_set_conv_nth)
    thus ?thesis using lagrange_at [OF assms(1), of m "\<lambda>i. peval cs (xs ! i)"] ds [of x] by simp
  qed
  hence "set ds \<subseteq> {0}" using assms(1) ds1 by (intro peval_roots) auto
  hence "peval ds 0 = 0" by (rule peval_zeros)
  thus ?thesis using ds [of 0] by simp
qed

text \<open>Through \<open>n\<close> points with distinct abscissas goes exactly one polynomial
  with \<open>n\<close> coefficients; over a finite field this is a counting argument.\<close>

theorem unique_interpolant:
  fixes xs ys :: "'a::{field,finite} list"
  assumes "distinct xs" "length ys = length xs"
  shows "\<exists>!cs. length cs = length xs \<and> map (peval cs) xs = ys"
proof -
  let ?S = "{cs :: 'a list. length cs = length xs}"
  let ?f = "\<lambda>cs. map (peval cs) xs"
  have inj: "inj_on ?f ?S"
    using assms(1) by (auto intro!: inj_onI peval_inj [of xs])
  have "finite ?S" using finite_lists_length_eq [of "UNIV :: 'a set"] by simp
  hence "?f ` ?S = ?S" using inj by (intro endo_inj_surj) auto
  hence "ys \<in> ?f ` ?S" using assms(2) by auto
  then obtain cs where "length cs = length xs" "?f cs = ys" by auto
  thus ?thesis using inj by (auto intro!: ex1I [of _ cs] dest: inj_onD)
qed

end
