(* ===== verification/Namespace_Proxy.thy ===== *)
theory Namespace_Proxy
  imports Gateway_Identity Circuit_Breaker "HOL-Library.Product_Lexorder" "HOL-Library.Multiset"
begin

unbundle bit_operations_syntax

text \<open>
  The proxies of the main gateway (\<^verbatim>\<open>core/pkg/gateway/middleware.go\<close>): to the gateways of a
  namespace, and from the node that receives a request for a deployment to the
  nodes that run it.  Both choose among nodes by their circuit breakers.

  The answer of the database, the clock readings, whether the outgoing request
  could be built and what became of it are arguments.  The proxied bodies and
  the copying of response headers are not modelled.
\<close>

section \<open>The gateways of a namespace\<close>

definition namespace_targets :: "(string \<times> int) list \<Rightarrow> gatewayTarget list" where
  "namespace_targets rows =
     map (\<lambda>(ip, port). \<lparr>gt_ip = ip, gt_port = (if 0 < port then port else 10004)\<rparr>) (filter (\<lambda>(ip, port). ip \<noteq> []) rows)"

text \<open>The targets from the cache or from the answer \<open>rows\<close> of the database.\<close>

definition lookup_targets :: "time_ns \<Rightarrow> time_ns \<Rightarrow> (string \<times> int) list option \<Rightarrow> string \<Rightarrow> middlewareCache
    \<Rightarrow> (int, gatewayTarget list) result \<times> middlewareCache" where
  "lookup_targets asked stored rows namespaceName mc =
     (case GetNamespaceTargets asked namespaceName mc of
        Some (t # ts) \<Rightarrow> (Inr (t # ts), mc)
      | _ \<Rightarrow>
          (case rows of
             None \<Rightarrow> (Inl 404, mc)
           | Some rows \<Rightarrow>
               if rows = [] then (Inl 404, mc)
               else let targets = namespace_targets rows in
                 if targets = [] then (Inl 503, mc)
                 else (Inr targets, SetNamespaceTargets stored namespaceName targets mc)))"

definition sort_targets :: "gatewayTarget list \<Rightarrow> gatewayTarget list" where
  "sort_targets targets = sort_key (\<lambda>t. (gt_ip t, gt_port t)) targets"

fun find_target :: "string \<Rightarrow> gatewayTarget list \<Rightarrow> nat option" where
  "find_target ip [] = None"
| "find_target ip (t # ts) = (if gt_ip t = ip then Some 0 else map_option Suc (find_target ip ts))"

text \<open>FNV-1a on 32 bits, as \<^verbatim>\<open>hash/fnv\<close> computes it.\<close>

definition Sum32 :: "string \<Rightarrow> nat" where
  "Sum32 s = unat (fold (\<lambda>c h. (h XOR of_char c) * 16777619) s (2166136261 :: 32 word))"

definition affinityKey :: "string \<Rightarrow> http_request \<Rightarrow> string" where
  "affinityKey namespaceName r =
     (let apiKey = extractAPIKey r; authz = TrimSpace (rq_Header r ''Authorization'')
      in namespaceName @ ''|'' @ (if apiKey \<noteq> [] then apiKey else if authz \<noteq> [] then authz else getClientIP r))"

definition order_targets :: "string \<Rightarrow> nat \<Rightarrow> gatewayTarget list \<Rightarrow> gatewayTarget list" where
  "order_targets localIP sum32 targets0 =
     (let targets = sort_targets targets0;
          localIdx = (if localIP \<noteq> [] then find_target localIP targets else None);
          hashIdx = sum32 mod length targets
      in (case localIdx of None \<Rightarrow> [] | Some i \<Rightarrow> [targets ! i])
         @ (if Some hashIdx \<noteq> localIdx then [targets ! hashIdx] else [])
         @ map (\<lambda>i. targets ! i) (filter (\<lambda>i. Some i \<noteq> localIdx \<and> i \<noteq> hashIdx) [0..<length targets]))"

definition ns_key :: "gatewayTarget \<Rightarrow> string" where
  "ns_key t = ''ns:'' @ gt_ip t"

fun select_target :: "time_ns \<Rightarrow> gatewayTarget list \<Rightarrow> CircuitBreakerRegistry \<Rightarrow> gatewayTarget option \<times> CircuitBreakerRegistry" where
  "select_target now [] reg = (None, reg)"
| "select_target now (t # ts) reg =
     (let (ok, reg') = target_Allow now (ns_key t) reg in if ok then (Some t, reg') else select_target now ts reg')"

text \<open>The kinds of requests that the proxy tells apart once it has a target.\<close>

datatype request_kind = UpgradeRequest | InvalidRequest | PlainRequest

datatype admission = Refused int | Tunnel gatewayTarget | Dispatch gatewayTarget

definition ns_admit :: "time_ns \<Rightarrow> string \<Rightarrow> nat \<Rightarrow> gatewayTarget list \<Rightarrow> request_kind \<Rightarrow> CircuitBreakerRegistry
    \<Rightarrow> admission \<times> CircuitBreakerRegistry" where
  "ns_admit now localIP sum32 targets kind reg =
     (let (selected, reg') = select_target now (order_targets localIP sum32 targets) reg in
      case selected of
        None \<Rightarrow> (Refused 503, reg')
      | Some t \<Rightarrow>
          if gt_ip t = [] then (Refused 503, reg')
          else (case kind of UpgradeRequest \<Rightarrow> Tunnel t | InvalidRequest \<Rightarrow> Refused 500 | PlainRequest \<Rightarrow> Dispatch t, reg'))"

definition namespace_access :: "auth_env \<Rightarrow> middlewareCache \<Rightarrow> http_request \<Rightarrow> string
    \<Rightarrow> (int, string \<times> JWTClaims option \<times> string) result \<times> http_request \<times> middlewareCache" where
  "namespace_access e mc r namespaceName =
     (let ((ns, claims, scopes, invalid), r', mc') = validateAuthForNamespaceProxy e mc r; isPublic = isPublicPath (rq_Path r) in
      (if invalid \<and> \<not> isPublic then Inl 401
       else if ns = [] \<and> \<not> isPublic then Inl 401
       else if ns \<noteq> [] \<and> ns \<noteq> namespaceName then Inl 403
       else Inr (ns, claims, scopes), r', mc'))"

record proxy_env =
  px_auth :: auth_env
  px_marshal :: "(string \<times> string) list \<Rightarrow> byte list option"
  px_localWireGuardIP :: string
  px_host :: string
  px_address :: string
  px_rows :: "(string \<times> int) list option"
  px_asked :: time_ns
  px_stored :: time_ns
  px_admitted :: time_ns
  px_finished :: time_ns
  px_created :: bool
  px_exchange :: exchange
  px_timed_out :: bool

datatype proxy_response = ProxyError int | Tunnelled gatewayTarget http_request | Forwarded gatewayTarget http_request int

definition handleNamespaceGatewayRequest :: "proxy_env \<Rightarrow> string \<Rightarrow> http_request \<Rightarrow> middlewareCache \<Rightarrow> CircuitBreakerRegistry
    \<Rightarrow> proxy_response \<times> middlewareCache \<times> CircuitBreakerRegistry" where
  "handleNamespaceGatewayRequest px namespaceName r mc reg =
     (let (access, r', mc') = namespace_access (px_auth px) mc r namespaceName in
      case access of
        Inl status \<Rightarrow> (ProxyError status, mc', reg)
      | Inr identity \<Rightarrow>
          (let (looked, mc'') = lookup_targets (px_asked px) (px_stored px) (px_rows px) namespaceName mc' in
           case looked of
             Inl status \<Rightarrow> (ProxyError status, mc'', reg)
           | Inr targets \<Rightarrow>
               (let kind = (if isWebSocketUpgrade r' then UpgradeRequest else if px_created px then PlainRequest else InvalidRequest);
                    out = forwarded_request (px_marshal px) (px_host px) (px_address px) identity r';
                    (adm, reg') = ns_admit (px_admitted px) (px_localWireGuardIP px) (Sum32 (affinityKey namespaceName r')) targets kind reg
                in case adm of
                     Refused status \<Rightarrow> (ProxyError status, mc'', reg')
                   | Tunnel t \<Rightarrow> (Tunnelled t out, mc'', reg')
                   | Dispatch t \<Rightarrow>
                       (case px_exchange px of
                          TransportError \<Rightarrow> ProxyError (if px_timed_out px then 504 else 503)
                        | Response status \<Rightarrow> Forwarded t out status,
                        mc'', record_exchange (px_finished px) (px_exchange px) (ns_key t) reg'))))"

section \<open>The nodes of a deployment\<close>

text \<open>What one attempt to reach a node meets: \<open>at_tunnel\<close> is the result of \<^verbatim>\<open>proxyWebSocket\<close>,
  \<open>at_exchange\<close> what comes of sending the request in full.\<close>

record attempt =
  at_start :: time_ns
  at_end :: time_ns
  at_tunnel :: bool
  at_created :: bool
  at_exchange :: exchange

text \<open>The attempts share the body of the inbound request.  \<^verbatim>\<open>http.Client.Do\<close> closes the body of
  the request it sends, whatever comes of it, and reading the body of an inbound request after it
  was closed is an error, so a second attempt with the same body fails in the transport.\<close>

datatype request_body = NoBody | Unread | Closed

definition Do_exchange :: "request_body \<Rightarrow> attempt \<Rightarrow> exchange" where
  "Do_exchange body a = (if body = Closed then TransportError else at_exchange a)"

definition Do_body :: "request_body \<Rightarrow> request_body" where
  "Do_body body = (if body = NoBody then NoBody else Closed)"

definition node_key :: "string \<Rightarrow> string" where
  "node_key ip = ''node:'' @ ip"

definition proxyCrossNodeToIP :: "bool \<Rightarrow> attempt \<Rightarrow> string \<Rightarrow> request_body \<Rightarrow> CircuitBreakerRegistry
    \<Rightarrow> bool \<times> request_body \<times> CircuitBreakerRegistry" where
  "proxyCrossNodeToIP isWS a nodeIP body reg =
     (if isWS then (at_tunnel a, body, reg)
      else if \<not> at_created a then (False, body, reg)
      else let (ok, reg') = target_Allow (at_start a) (node_key nodeIP) reg in
        if \<not> ok then (False, body, reg')
        else (case Do_exchange body a of TransportError \<Rightarrow> False | Response status \<Rightarrow> \<not> IsResponseFailure status,
              Do_body body, record_exchange (at_end a) (Do_exchange body a) (node_key nodeIP) reg'))"

text \<open>The home node, whose error responses are passed on; \<open>homeIP\<close> is the answer of the database.\<close>

definition proxyCrossNode :: "bool \<Rightarrow> string option \<Rightarrow> attempt \<Rightarrow> request_body \<Rightarrow> CircuitBreakerRegistry \<Rightarrow> bool \<times> CircuitBreakerRegistry" where
  "proxyCrossNode isWS homeIP a body reg =
     (case homeIP of
        None \<Rightarrow> (False, reg)
      | Some ip \<Rightarrow>
          if ip = [] then (False, reg)
          else if isWS then (at_tunnel a, reg)
          else if \<not> at_created a then (False, reg)
          else let (ok, reg') = target_Allow (at_start a) (node_key ip) reg in
            if \<not> ok then (False, reg')
            else (case Do_exchange body a of TransportError \<Rightarrow> False | Response status \<Rightarrow> True,
                  record_exchange (at_end a) (Do_exchange body a) (node_key ip) reg'))"

text \<open>The replicas in order, each with its address, if that is known, and what the attempt meets.
  A tunnel that fails has already written an error response, which the model does not record.\<close>

fun try_replicas :: "string \<Rightarrow> bool \<Rightarrow> (string \<times> string option \<times> attempt) list \<Rightarrow> request_body \<Rightarrow> CircuitBreakerRegistry
    \<Rightarrow> bool \<times> CircuitBreakerRegistry" where
  "try_replicas self isWS [] body reg = (False, reg)"
| "try_replicas self isWS ((nodeID, nodeIP, a) # rest) body reg =
     (if nodeID = self then try_replicas self isWS rest body reg
      else case nodeIP of
        None \<Rightarrow> try_replicas self isWS rest body reg
      | Some ip \<Rightarrow>
          (let (proxied, body', reg') = proxyCrossNodeToIP isWS a ip body reg
           in if proxied then (True, reg') else try_replicas self isWS rest body' reg'))"

definition proxyCrossNodeWithReplicas :: "string \<Rightarrow> bool \<Rightarrow> string option \<Rightarrow> attempt
    \<Rightarrow> (string \<times> string option \<times> attempt) list option \<Rightarrow> request_body \<Rightarrow> CircuitBreakerRegistry \<Rightarrow> bool \<times> CircuitBreakerRegistry" where
  "proxyCrossNodeWithReplicas self isWS homeIP homeAttempt replicas body reg =
     (case replicas of
        None \<Rightarrow> proxyCrossNode isWS homeIP homeAttempt body reg
      | Some rs \<Rightarrow>
          if rs = [] then proxyCrossNode isWS homeIP homeAttempt body reg else try_replicas self isWS rs body reg)"


section \<open>Failover between the gateways of a namespace\<close>

lemma select_target_Cons:
  "select_target now (t # ts) reg =
     (if fst (target_Allow now (ns_key t) reg) then (Some t, snd (target_Allow now (ns_key t) reg))
      else select_target now ts (snd (target_Allow now (ns_key t) reg)))"
  by (simp add: split_beta Let_def del: target_Allow_breaker)

lemma target_Allow_Pair:
  "target_Allow now k reg = (ok, reg') \<Longrightarrow>
     ok = fst (breaker_Allow now (breaker_of reg k)) \<and>
     breaker_of reg' = (breaker_of reg)(k := snd (breaker_Allow now (breaker_of reg k)))"
  using target_Allow_breaker [of now k reg] by simp

interpretation ns: failover "target_Allow now" breaker_of
    "\<lambda>cb. fst (breaker_Allow now cb)" "\<lambda>cb. snd (breaker_Allow now cb)" ns_key "select_target now" for now
  by unfold_locales (simp_all add: breaker_refusal_keeps select_target_Cons del: select_target.simps(2))

lemma find_target_Some: "find_target ip ts = Some i \<Longrightarrow> i < length ts \<and> gt_ip (ts ! i) = ip"
  by (induction ts arbitrary: i) (auto split: if_splits)

lemma find_target_None: "find_target ip ts = None \<longleftrightarrow> ip \<notin> gt_ip ` set ts"
  by (induction ts) auto

lemma mset_sort_targets [simp]: "mset (sort_targets ts) = mset ts" "length (sort_targets ts) = length ts"
  by (simp_all add: sort_targets_def)

lemma set_sort_targets [simp]: "set (sort_targets ts) = set ts"
  by (simp add: sort_targets_def)

definition target_order :: "nat option \<Rightarrow> nat \<Rightarrow> nat \<Rightarrow> nat list" where
  "target_order localIdx hashIdx n =
     (case localIdx of None \<Rightarrow> [] | Some i \<Rightarrow> [i]) @ (if Some hashIdx \<noteq> localIdx then [hashIdx] else [])
     @ filter (\<lambda>i. Some i \<noteq> localIdx \<and> i \<noteq> hashIdx) [0..<n]"

lemma target_order_mset:
  assumes "h < n" "\<And>i. l = Some i \<Longrightarrow> i < n"
  shows "mset (target_order l h n) = mset [0..<n]"
proof (rule set_eq_iff_mset_eq_distinct [THEN iffD1])
  show "distinct (target_order l h n)" by (auto simp: target_order_def split: option.splits)
  show "set (target_order l h n) = set [0..<n]"
    using assms by (auto simp: target_order_def split: option.splits)
qed simp

lemma order_targets_indices:
  "order_targets localIP s ts =
     map ((!) (sort_targets ts))
       (target_order (if localIP \<noteq> [] then find_target localIP (sort_targets ts) else None) (s mod length ts) (length ts))"
  by (simp add: order_targets_def target_order_def Let_def split: option.split)

lemma mset_order_targets: "ts \<noteq> [] \<Longrightarrow> mset (order_targets localIP s ts) = mset ts"
proof -
  assume ts: "ts \<noteq> []"
  let ?l = "if localIP \<noteq> [] then find_target localIP (sort_targets ts) else None"
  have "mset (target_order ?l (s mod length ts) (length ts)) = mset [0..<length ts]"
    using ts by (intro target_order_mset) (auto dest!: find_target_Some split: if_splits)
  then have "mset (order_targets localIP s ts) = mset (map ((!) (sort_targets ts)) [0..<length (sort_targets ts)])"
    by (simp add: order_targets_indices mset_map)
  then show ?thesis using map_nth [of "sort_targets ts"] mset_sort_targets(1) by metis
qed

lemma hd_order_targets:
  "localIP \<noteq> [] \<Longrightarrow> localIP \<in> gt_ip ` set ts \<Longrightarrow> gt_ip (hd (order_targets localIP s ts)) = localIP"
  using find_target_None [of localIP "sort_targets ts"] find_target_Some [of localIP "sort_targets ts"]
  by (auto simp: order_targets_def Let_def split: option.splits)

lemma sort_targets_cong: "mset ts = mset ts' \<Longrightarrow> sort_targets ts = sort_targets ts'"
  unfolding sort_targets_def
  by (rule sort_key_inj_key_eq) (auto simp: inj_on_def)

text \<open>C17: The order in which the gateways of a namespace are tried is a permutation of them that
  does not depend on the order of the rows and starts with the gateway of the own node, if there
  is one.  The request goes to the first of them whose breaker lets it through, and no other
  breaker changes.\<close>

theorem namespace_failover:
  assumes "ts \<noteq> []"
  shows "mset (order_targets localIP s ts) = mset ts \<and>
         (mset ts' = mset ts \<longrightarrow> order_targets localIP s ts' = order_targets localIP s ts) \<and>
         (localIP \<noteq> [] \<longrightarrow> localIP \<in> gt_ip ` set ts \<longrightarrow> gt_ip (hd (order_targets localIP s ts)) = localIP) \<and>
         fst (select_target now (order_targets localIP s ts) reg) =
           find (\<lambda>t. fst (breaker_Allow now (breaker_of reg (ns_key t)))) (order_targets localIP s ts) \<and>
         (\<forall>k. (\<forall>t. fst (select_target now (order_targets localIP s ts) reg) = Some t \<longrightarrow> k \<noteq> ns_key t) \<longrightarrow>
            breaker_of (snd (select_target now (order_targets localIP s ts) reg)) k = breaker_of reg k)"
proof -
  have "order_targets localIP s ts' = order_targets localIP s ts" if "mset ts' = mset ts"
    using sort_targets_cong [OF that] mset_eq_length [OF that] by (simp add: order_targets_indices)
  then show ?thesis
    using mset_order_targets [OF assms] hd_order_targets [of localIP ts s]
      ns.select_first [of now "order_targets localIP s ts" reg] ns.select_view [of now "order_targets localIP s ts" reg]
    by (auto split: option.splits)
qed


section \<open>Traffic and the probe of a half-open breaker\<close>

text \<open>The requests and results of a running gateway as a sequence of steps, with the keys of the
  breakers of the requests in flight.  A tunnelled request is never in flight in this sense: no
  result of it is recorded.\<close>

datatype gw_action =
    NamespaceRequest time_ns string nat "(string \<times> int) list" request_kind
  | NodeRequest time_ns string
  | Finish time_ns exchange string

type_synonym gw_state = "CircuitBreakerRegistry \<times> string list"

fun gw_exec :: "gw_action \<Rightarrow> gw_state \<Rightarrow> gw_state" where
  "gw_exec (NamespaceRequest now localIP s rows kind) (reg, fl) =
     (if namespace_targets rows = [] then (reg, fl)
      else let (adm, reg') = ns_admit now localIP s (namespace_targets rows) kind reg
        in (reg', case adm of Dispatch t \<Rightarrow> ns_key t # fl | _ \<Rightarrow> fl))"
| "gw_exec (NodeRequest now ip) (reg, fl) =
     (let (ok, reg') = target_Allow now (node_key ip) reg in (reg', if ok then node_key ip # fl else fl))"
| "gw_exec (Finish now x k) (reg, fl) =
     (if k \<in> set fl then (record_exchange now x k reg, remove1 k fl) else (reg, fl))"

fun plain_action :: "gw_action \<Rightarrow> bool" where
  "plain_action (NamespaceRequest now localIP s rows kind) \<longleftrightarrow> kind = PlainRequest"
| "plain_action _ \<longleftrightarrow> True"

definition breaker_wf :: "CircuitBreaker \<Rightarrow> bool" where
  "breaker_wf cb \<longleftrightarrow> failureThreshold cb = 5 \<and> (cb_state cb \<noteq> CircuitClosed \<longrightarrow> 5 \<le> failures cb)"

definition result_of :: "time_ns \<Rightarrow> exchange \<Rightarrow> CircuitBreaker \<Rightarrow> CircuitBreaker" where
  "result_of now x cb =
     (case x of TransportError \<Rightarrow> RecordFailure now cb
      | Response status \<Rightarrow> if IsResponseFailure status then RecordFailure now cb else RecordSuccess cb)"

lemma breaker_wf_New [simp]: "breaker_wf NewCircuitBreaker" "cb_state NewCircuitBreaker = CircuitClosed"
  by (simp_all add: breaker_wf_def NewCircuitBreaker_def defaultFailureThreshold_def)

lemma breaker_wf_Allow: "breaker_wf cb \<Longrightarrow> breaker_wf (snd (breaker_Allow now cb))"
  by (auto simp: breaker_wf_def breaker_Allow_def split: CircuitState.splits)

lemma breaker_wf_result: "breaker_wf cb \<Longrightarrow> breaker_wf (result_of now x cb) \<and> cb_state (result_of now x cb) \<noteq> CircuitHalfOpen"
  by (auto simp: breaker_wf_def result_of_def RecordFailure_def RecordSuccess_def Let_def split: exchange.splits)

lemma half_open_refuses: "cb_state cb = CircuitHalfOpen \<Longrightarrow> breaker_Allow now cb = (False, cb)"
  by (simp add: breaker_Allow_def)

lemma Allow_half_open: "cb_state (snd (breaker_Allow now cb)) = CircuitHalfOpen \<Longrightarrow> cb_state cb = CircuitHalfOpen \<or> fst (breaker_Allow now cb)"
  by (auto simp: breaker_Allow_def split: CircuitState.splits if_splits)

lemma breaker_of_record: "breaker_of (record_exchange now x k reg) = (breaker_of reg)(k := result_of now x (breaker_of reg k))"
  by (simp add: result_of_def)

declare record_exchange_breaker [simp del] breaker_of_record [simp]

lemma namespace_targets_ip: "t \<in> set (namespace_targets rows) \<Longrightarrow> gt_ip t \<noteq> []"
  by (auto simp: namespace_targets_def)

text \<open>What an admission does to the breakers.\<close>

lemma ns_admit_cases:
  assumes "ns_admit now localIP s ts kind reg = (adm, reg')"
  obtains "breaker_of reg' = breaker_of reg" "adm = Refused 503"
  | t where "t \<in> set (order_targets localIP s ts)" "fst (breaker_Allow now (breaker_of reg (ns_key t)))"
      "breaker_of reg' = (breaker_of reg)(ns_key t := snd (breaker_Allow now (breaker_of reg (ns_key t))))"
      "gt_ip t \<noteq> [] \<longrightarrow> kind = PlainRequest \<longrightarrow> adm = Dispatch t" "\<And>t'. adm = Tunnel t' \<or> adm = Dispatch t' \<Longrightarrow> t' = t"
proof -
  let ?o = "order_targets localIP s ts"
  let ?f = "find (\<lambda>t. fst (breaker_Allow now (breaker_of reg (ns_key t)))) ?o"
  have sel: "fst (select_target now ?o reg) = ?f" by (rule ns.select_first)
  have view: "breaker_of (snd (select_target now ?o reg)) =
      (case ?f of None \<Rightarrow> breaker_of reg | Some t \<Rightarrow> (breaker_of reg)(ns_key t := snd (breaker_Allow now (breaker_of reg (ns_key t)))))"
    by (rule ns.select_view)
  show thesis
  proof (cases ?f)
    case None
    then have p: "select_target now ?o reg = (None, snd (select_target now ?o reg))" using sel by (simp add: prod_eq_iff)
    have "adm = Refused 503" "reg' = snd (select_target now ?o reg)"
      using assms unfolding ns_admit_def by (subst (asm) p, simp)+
    then show thesis using view None by (intro that(1)) simp_all
  next
    case (Some t)
    then have "t \<in> set ?o" "fst (breaker_Allow now (breaker_of reg (ns_key t)))"
      by (auto simp: find_Some_iff in_set_conv_nth)
    moreover have p: "select_target now ?o reg = (Some t, snd (select_target now ?o reg))" using sel Some by (simp add: prod_eq_iff)
    have "adm = (if gt_ip t = [] then Refused 503 else case kind of UpgradeRequest \<Rightarrow> Tunnel t | InvalidRequest \<Rightarrow> Refused 500 | PlainRequest \<Rightarrow> Dispatch t)"
      "reg' = snd (select_target now ?o reg)"
      using assms unfolding ns_admit_def by (subst (asm) p, simp split: if_splits)+
    moreover note view
    ultimately show thesis using Some by (intro that(2) [of t]) (auto split: if_splits request_kind.splits)
  qed
qed


definition probe_inv :: "gw_state \<Rightarrow> bool" where
  "probe_inv st \<longleftrightarrow>
     (\<forall>k. breaker_wf (breaker_of (fst st) k) \<and>
          (cb_state (breaker_of (fst st) k) = CircuitHalfOpen \<longrightarrow> k \<in> set (snd st)))"

lemma probe_inv_admitted:
  assumes "probe_inv (reg, fl)" "fst (breaker_Allow now (breaker_of reg k))"
    and "breaker_of reg' = (breaker_of reg)(k := snd (breaker_Allow now (breaker_of reg k)))"
  shows "probe_inv (reg', k # fl)"
  using assms by (auto simp: probe_inv_def breaker_wf_Allow)

lemma probe_inv_same: "probe_inv (reg, fl) \<Longrightarrow> breaker_of reg' = breaker_of reg \<Longrightarrow> probe_inv (reg', fl)"
  by (simp add: probe_inv_def)

lemma probe_inv_step: "plain_action a \<Longrightarrow> probe_inv st \<Longrightarrow> probe_inv (gw_exec a st)"
proof (induction a st rule: gw_exec.induct)
  case (1 now localIP s rows kind reg fl)
  show ?case
  proof (cases "namespace_targets rows = []")
    case False
    obtain adm reg' where a: "ns_admit now localIP s (namespace_targets rows) kind reg = (adm, reg')" by fastforce
    have ips: "gt_ip t \<noteq> []" if "t \<in> set (order_targets localIP s (namespace_targets rows))" for t
      using that mset_order_targets [OF False, of localIP s] namespace_targets_ip by (metis mset_eq_setD)
    from a have "probe_inv (reg', case adm of Dispatch t \<Rightarrow> ns_key t # fl | _ \<Rightarrow> fl)"
    proof (cases rule: ns_admit_cases)
      case 1
      then show ?thesis using probe_inv_same [OF \<open>probe_inv (reg, fl)\<close>] by simp
    next
      case (2 t)
      have "adm = Dispatch t" using 2(4) ips [OF 2(1)] \<open>plain_action _\<close> by simp
      then show ?thesis using probe_inv_admitted [OF \<open>probe_inv (reg, fl)\<close> 2(2,3)] by simp
    qed
    then show ?thesis using False a by simp
  qed (use 1 in simp)
next
  case (2 now ip reg fl)
  obtain ok reg' where a: "target_Allow now (node_key ip) reg = (ok, reg')" by fastforce
  have ok: "ok = fst (breaker_Allow now (breaker_of reg (node_key ip)))"
    "breaker_of reg' = (breaker_of reg)(node_key ip := snd (breaker_Allow now (breaker_of reg (node_key ip))))"
    using target_Allow_breaker [of now "node_key ip" reg] a by simp_all
  show ?case
  proof (cases ok)
    case True
    then show ?thesis using a ok probe_inv_admitted [OF 2(2)] by simp
  next
    case False
    then show ?thesis using a ok probe_inv_same [OF 2(2), of reg'] breaker_refusal_keeps by simp
  qed
next
  case (3 now x k reg fl)
  have "probe_inv (record_exchange now x k reg, remove1 k fl)"
    using 3(2) breaker_wf_result by (auto simp: probe_inv_def)
  then show ?case using 3 by simp
qed

lemma probe_inv_run: "list_all plain_action acts \<Longrightarrow> probe_inv st \<Longrightarrow> probe_inv (fold gw_exec acts st)"
  by (induction acts arbitrary: st) (simp_all add: probe_inv_step)

lemma probe_inv_New: "probe_inv (NewCircuitBreakerRegistry, [])"
  by (simp add: probe_inv_def NewCircuitBreakerRegistry_def breaker_of_def)

text \<open>C19: As long as all requests are plain ones that can be built, a target whose breaker is
  half-open has a request in flight, and the result of that request, whatever it is, ends the
  half-open state: no target stays out of use for want of a probe.\<close>

theorem plain_probe_resolves:
  assumes "list_all plain_action acts" "fold gw_exec acts (NewCircuitBreakerRegistry, []) = (reg, fl)"
    and "cb_state (breaker_of reg k) = CircuitHalfOpen"
  shows "k \<in> set fl \<and> (\<forall>now x. cb_state (breaker_of (fst (gw_exec (Finish now x k) (reg, fl))) k) \<noteq> CircuitHalfOpen)"
proof -
  have inv: "probe_inv (reg, fl)" using probe_inv_run [OF assms(1) probe_inv_New] assms(2) by simp
  then have k: "k \<in> set fl" using assms(3) by (simp add: probe_inv_def)
  then show ?thesis using inv breaker_wf_result by (simp add: probe_inv_def)
qed

text \<open>A half-open breaker with no request in flight stays half-open.\<close>

definition stuck :: "string \<Rightarrow> gw_state \<Rightarrow> bool" where
  "stuck k st \<longleftrightarrow> cb_state (breaker_of (fst st) k) = CircuitHalfOpen \<and> k \<notin> set (snd st)"

lemma stuck_step: "stuck k st \<Longrightarrow> stuck k (gw_exec a st)"
proof (induction a st rule: gw_exec.induct)
  case (1 now localIP s rows kind reg fl)
  then have refused: "breaker_Allow now (breaker_of reg k) = (False, breaker_of reg k)"
    by (simp add: stuck_def half_open_refuses)
  obtain adm reg' where a: "ns_admit now localIP s (namespace_targets rows) kind reg = (adm, reg')" by fastforce
  from a have "stuck k (reg', case adm of Dispatch t \<Rightarrow> ns_key t # fl | _ \<Rightarrow> fl)"
  proof (cases rule: ns_admit_cases)
    case 1
    then show ?thesis using \<open>stuck k (reg, fl)\<close> by (simp add: stuck_def)
  next
    case (2 t)
    have "ns_key t \<noteq> k" using 2(2) refused by (metis fst_conv)
    moreover have "k \<notin> set (case adm of Dispatch t' \<Rightarrow> ns_key t' # fl | _ \<Rightarrow> fl)"
    proof (cases adm)
      case (Dispatch t')
      have "t' = t" by (rule 2(5)) (simp add: Dispatch)
      then show ?thesis using \<open>stuck k (reg, fl)\<close> \<open>ns_key t \<noteq> k\<close> Dispatch by (simp add: stuck_def)
    qed (use \<open>stuck k (reg, fl)\<close> in \<open>simp_all add: stuck_def\<close>)
    ultimately show ?thesis using \<open>stuck k (reg, fl)\<close> 2(3) by (simp add: stuck_def)
  qed
  then show ?case using a 1 by simp
next
  case (2 now ip reg fl)
  then have refused: "breaker_Allow now (breaker_of reg k) = (False, breaker_of reg k)"
    by (simp add: stuck_def half_open_refuses)
  obtain ok reg' where a: "target_Allow now (node_key ip) reg = (ok, reg')" by fastforce
  have ok: "ok = fst (breaker_Allow now (breaker_of reg (node_key ip)))"
    "breaker_of reg' = (breaker_of reg)(node_key ip := snd (breaker_Allow now (breaker_of reg (node_key ip))))"
    using target_Allow_breaker [of now "node_key ip" reg] a by simp_all
  show ?case
  proof (cases "node_key ip = k")
    case True
    then show ?thesis using a ok refused 2 by (simp add: stuck_def)
  next
    case False
    then show ?thesis using a ok 2 by (simp add: stuck_def)
  qed
next
  case (3 now x k' reg fl)
  then show ?case using notin_set_remove1 [of k fl k'] by (auto simp: stuck_def)
qed

lemma stuck_run: "stuck k st \<Longrightarrow> stuck k (fold gw_exec acts st)"
  by (induction acts arbitrary: st) (simp_all add: stuck_step)

text \<open>C31: If the request that probes a gateway of a namespace after its breaker was open is a
  WebSocket upgrade and no earlier request to that gateway is still in flight, no result is
  recorded for it: the breaker stays half-open and refuses every later request to that gateway,
  at any time and whatever other traffic there is.\<close>

theorem websocket_probe_blocks_target:
  assumes "cb_state (breaker_of reg (ns_key t)) = CircuitOpen" "ns_key t \<notin> set fl"
    and "ns_admit now localIP s ts UpgradeRequest reg = (Tunnel t, reg')"
  shows "\<not> fst (target_Allow later (ns_key t) (fst (fold gw_exec acts (reg', fl))))"
proof -
  from assms(3) have "cb_state (breaker_of reg' (ns_key t)) = CircuitHalfOpen"
  proof (cases rule: ns_admit_cases)
    case (2 t')
    have t: "t' = t" using 2(5) [of t] by simp
    then have "fst (breaker_Allow now (breaker_of reg (ns_key t)))" using 2(2) by simp
    then show ?thesis using 2(3) assms(1) unfolding t by (auto simp: breaker_Allow_def split: if_splits)
  qed simp
  then have "stuck (ns_key t) (fold gw_exec acts (reg', fl))" using assms(2) by (intro stuck_run) (simp add: stuck_def)
  then show ?thesis by (simp add: stuck_def half_open_refuses)
qed


section \<open>Requests stay in their namespace\<close>

text \<open>C20: A request to the gateway of a namespace, on a route that is not public, is forwarded
  or tunnelled only with valid credentials of that very namespace, and what is sent on carries
  the identity of these credentials.\<close>

theorem proxied_request_stays_in_namespace:
  assumes "fst (handleNamespaceGatewayRequest px name r mc reg) = Forwarded t out status \<or>
           fst (handleNamespaceGatewayRequest px name r mc reg) = Tunnelled t out"
    and "\<not> isPublicPath (rq_Path r)"
  shows "\<exists>claims scopes r' mc'.
           validateAuthForNamespaceProxy (px_auth px) mc r = ((name, claims, scopes, False), r', mc') \<and> name \<noteq> [] \<and>
           out = forwarded_request (px_marshal px) (px_host px) (px_address px) (name, claims, scopes) r'"
proof -
  obtain ns claims scopes invalid r' mc' where v: "validateAuthForNamespaceProxy (px_auth px) mc r = ((ns, claims, scopes, invalid), r', mc')"
    by (metis surj_pair)
  have acc: "namespace_access (px_auth px) mc r name =
      (if invalid then Inl 401 else if ns = [] then Inl 401 else if ns \<noteq> name then Inl 403 else Inr (ns, claims, scopes), r', mc')"
    using assms(2) by (simp add: namespace_access_def v)
  have "\<not> invalid \<and> ns \<noteq> [] \<and> ns = name"
    using assms(1) by (rule contrapos_pp) (auto simp: handleNamespaceGatewayRequest_def acc)
  moreover from this have "out = forwarded_request (px_marshal px) (px_host px) (px_address px) (ns, claims, scopes) r'"
    using assms(1) by (auto simp: handleNamespaceGatewayRequest_def acc Let_def
        split: prod.splits sum.splits admission.splits exchange.splits)
  ultimately show ?thesis using v by auto
qed

section \<open>Failover between the replicas of a deployment\<close>

text \<open>A replica is tried if it is not this node, its address is known, the request can be built and
  its breaker lets the request through; it serves the request if it answers without a gateway
  error.\<close>

definition tried :: "string \<Rightarrow> CircuitBreakerRegistry \<Rightarrow> string \<times> string option \<times> attempt \<Rightarrow> bool" where
  "tried self reg rep =
     (case rep of (nodeID, nodeIP, a) \<Rightarrow>
        nodeID \<noteq> self \<and> at_created a \<and>
        (case nodeIP of None \<Rightarrow> False | Some ip \<Rightarrow> fst (breaker_Allow (at_start a) (breaker_of reg (node_key ip)))))"

definition serves :: "attempt \<Rightarrow> bool" where
  "serves a = (case at_exchange a of TransportError \<Rightarrow> False | Response status \<Rightarrow> \<not> IsResponseFailure status)"

definition rep_attempt :: "string \<times> string option \<times> attempt \<Rightarrow> attempt" where
  "rep_attempt rep = snd (snd rep)"

text \<open>A failure on the breaker of a replica that was tried.\<close>

definition blamed :: "CircuitBreakerRegistry \<Rightarrow> CircuitBreakerRegistry \<Rightarrow> string \<times> string option \<times> attempt \<Rightarrow> bool" where
  "blamed reg reg' rep =
     (case rep of (nodeID, nodeIP, a) \<Rightarrow>
        (case nodeIP of None \<Rightarrow> False | Some ip \<Rightarrow>
           breaker_of reg' (node_key ip) = RecordFailure (at_end a) (snd (breaker_Allow (at_start a) (breaker_of reg (node_key ip))))))"

lemma node_key_inj [simp]: "node_key ip = node_key ip' \<longleftrightarrow> ip = ip'"
  by (simp add: node_key_def)

lemma proxy_to_ip:
  assumes "proxyCrossNodeToIP False a ip body reg = (proxied, body', reg')" "nodeID \<noteq> self"
  shows "proxied = (tried self reg (nodeID, Some ip, a) \<and> body \<noteq> Closed \<and> serves a)"
    and "body' = (if tried self reg (nodeID, Some ip, a) then Do_body body else body)"
    and "tried self reg (nodeID, Some ip, a) \<Longrightarrow> \<not> proxied \<Longrightarrow> blamed reg reg' (nodeID, Some ip, a)"
    and "ip' \<noteq> ip \<Longrightarrow> breaker_of reg' (node_key ip') = breaker_of reg (node_key ip')"
proof -
  obtain ok reg1 where t: "target_Allow (at_start a) (node_key ip) reg = (ok, reg1)" by fastforce
  note t' = target_Allow_Pair [OF t]
  show "proxied = (tried self reg (nodeID, Some ip, a) \<and> body \<noteq> Closed \<and> serves a)"
    "body' = (if tried self reg (nodeID, Some ip, a) then Do_body body else body)"
    "tried self reg (nodeID, Some ip, a) \<Longrightarrow> \<not> proxied \<Longrightarrow> blamed reg reg' (nodeID, Some ip, a)"
    "ip' \<noteq> ip \<Longrightarrow> breaker_of reg' (node_key ip') = breaker_of reg (node_key ip')"
    using assms t t'
    by (auto simp: proxyCrossNodeToIP_def tried_def serves_def blamed_def Do_exchange_def result_of_def split: if_splits exchange.splits)
qed

definition replica_ips :: "(string \<times> string option \<times> attempt) list \<Rightarrow> string list" where
  "replica_ips reps = List.map_filter (\<lambda>rep. fst (snd rep)) reps"

lemma replica_ips_Cons [simp]:
  "replica_ips [] = []"
  "replica_ips ((n, None, a) # reps) = replica_ips reps"
  "replica_ips ((n, Some ip, a) # reps) = ip # replica_ips reps"
  by (simp_all add: replica_ips_def map_filter_simps)

lemma replica_ip_in: "(n, Some ip, a) \<in> set reps \<Longrightarrow> ip \<in> set (replica_ips reps)"
  by (induction reps) (auto simp: replica_ips_def map_filter_simps split: option.splits)

lemma tried_cong:
  assumes "\<And>ip. ip \<in> set (replica_ips reps) \<Longrightarrow> breaker_of reg' (node_key ip) = breaker_of reg (node_key ip)" "rep \<in> set reps"
  shows "tried self reg' rep = tried self reg rep" "blamed reg' reg'' rep = blamed reg reg'' rep"
proof -
  obtain n o' a where rep: "rep = (n, o', a)" by (cases rep)
  have "breaker_of reg' (node_key ip) = breaker_of reg (node_key ip)" if "o' = Some ip" for ip
    using assms replica_ip_in [of n ip a reps] rep that by simp
  thus "tried self reg' rep = tried self reg rep" "blamed reg' reg'' rep = blamed reg reg'' rep"
    by (cases o'; simp add: rep tried_def blamed_def)+
qed

lemma try_replicas_frame:
  "ip \<notin> set (replica_ips reps) \<Longrightarrow> breaker_of (snd (try_replicas self False reps body reg)) (node_key ip) = breaker_of reg (node_key ip)"
proof (induction reps arbitrary: body reg)
  case (Cons rep reps)
  obtain n o' a where rep: "rep = (n, o', a)" by (cases rep)
  show ?case
  proof (cases "n = self \<or> o' = None")
    case False
    then obtain ip' where ip': "o' = Some ip'" by auto
    obtain proxied body' reg' where p: "proxyCrossNodeToIP False a ip' body reg = (proxied, body', reg')" using prod_cases3 by blast
    show ?thesis using Cons proxy_to_ip(4) [OF p, of n self ip] False ip' p by (simp add: rep)
  qed (use Cons rep in \<open>cases o'; auto\<close>)
qed simp

text \<open>Without a body the replicas are tried until one serves the request; with a body only the
  first that is tried can serve it, and every replica that is tried in vain is blamed.\<close>

lemma try_replicas_result:
  assumes "distinct (replica_ips reps)"
  shows "fst (try_replicas self False reps body reg) \<longleftrightarrow>
      (let ts = filter (tried self reg) reps in
       case body of NoBody \<Rightarrow> (\<exists>rep \<in> set ts. serves (rep_attempt rep)) | Unread \<Rightarrow> ts \<noteq> [] \<and> serves (rep_attempt (hd ts)) | Closed \<Rightarrow> False)"
    and "\<not> fst (try_replicas self False reps body reg) \<Longrightarrow>
      \<forall>rep \<in> set (filter (tried self reg) reps). blamed reg (snd (try_replicas self False reps body reg)) rep"
  using assms
proof (induction reps arbitrary: body reg)
  case (Cons rep reps)
  obtain n o' a where rep: "rep = (n, o', a)" by (cases rep)
  { case 1
    then have dist: "distinct (replica_ips reps)" using rep by (cases o') simp_all
    show ?case
    proof (cases "n = self \<or> o' = None")
      case True
      then have "\<not> tried self reg rep" by (auto simp: rep tried_def)
      then show ?thesis using True Cons.IH(1) [OF dist, of body reg] by (auto simp: rep)
    next
      case False
      then obtain ip where ip: "o' = Some ip" and n: "n \<noteq> self" by auto
      obtain proxied body' reg' where p: "proxyCrossNodeToIP False a ip body reg = (proxied, body', reg')" using prod_cases3 by blast
      note pp = proxy_to_ip [OF p n]
      have "filter (tried self reg') reps = filter (tried self reg) reps"
        using 1 rep ip by (intro filter_cong refl tried_cong pp(4)) auto
      then show ?thesis using False ip p pp(1,2) Cons.IH(1) [OF dist, of body' reg']
        by (cases body) (auto simp: rep rep_attempt_def Do_body_def Let_def)
    qed
  next
    case 2
    then have dist: "distinct (replica_ips reps)" using rep by (cases o') simp_all
    show ?case
    proof (cases "n = self \<or> o' = None")
      case True
      then have "\<not> tried self reg rep" by (auto simp: rep tried_def)
      then show ?thesis using True 2(1) Cons.IH(2) [OF _ dist, of body reg] by (auto simp: rep)
    next
      case False
      then obtain ip where ip: "o' = Some ip" and n: "n \<noteq> self" by auto
      obtain proxied body' reg' where p: "proxyCrossNodeToIP False a ip body reg = (proxied, body', reg')" using prod_cases3 by blast
      note pp = proxy_to_ip [OF p n]
      let ?reg'' = "snd (try_replicas self False reps body' reg')"
      have no: "\<not> proxied" "\<not> fst (try_replicas self False reps body' reg')" using 2(1) False ip p by (auto simp: rep split: if_splits)
      have same: "breaker_of reg' (node_key ip') = breaker_of reg (node_key ip')" if "ip' \<in> set (replica_ips reps)" for ip'
        using 2(2) rep ip that by (intro pp(4)) auto
      have rest: "blamed reg ?reg'' r" if "r \<in> set reps" "tried self reg r" for r
      proof -
        have "r \<in> set (filter (tried self reg') reps)" using that tried_cong(1) [OF same that(1)] by simp
        from bspec [OF Cons.IH(2) [OF no(2) dist] this] show ?thesis by (simp only: tried_cong(2) [OF same that(1)])
      qed
      have "breaker_of ?reg'' (node_key ip) = breaker_of reg' (node_key ip)"
        using 2(2) rep ip by (intro try_replicas_frame) simp
      then have "tried self reg rep \<Longrightarrow> blamed reg ?reg'' rep" using pp(3) no(1) by (auto simp: rep ip blamed_def)
      then show ?thesis using rest False ip p no(1) by (auto simp: rep)
    qed
  }
qed (simp_all split: request_body.splits)

text \<open>C23: What becomes of a plain request for a deployment that runs on other nodes, whose known
  addresses are different.  Without replicas it is passed to the home node, if its address is
  known, the request can be built, its breaker lets it through and the exchange succeeds, whatever
  the status.  With replicas, a request without a body is served exactly if one of the replicas
  that are tried answers without a gateway error, and the failures of those before it do not
  matter.  A request with a body is served exactly if the first replica that is tried does so:
  the first attempt uses the body up, so the others fail without reaching their nodes.  In every
  case in which no replica serves the request, a failure is recorded on the breaker of each
  replica that was tried, also of those that a used-up body kept from being asked.\<close>

theorem replica_failover:
  assumes "distinct (replica_ips reps)"
  shows "case proxyCrossNodeWithReplicas self False homeIP home (Some reps) body reg of (proxied, reg') \<Rightarrow>
    (if reps = []
     then proxied \<longleftrightarrow> (\<exists>ip. homeIP = Some ip \<and> ip \<noteq> [] \<and> at_created home \<and> body \<noteq> Closed \<and>
            fst (breaker_Allow (at_start home) (breaker_of reg (node_key ip))) \<and> at_exchange home \<noteq> TransportError)
     else let ts = filter (tried self reg) reps in
       (proxied \<longleftrightarrow> (case body of
          NoBody \<Rightarrow> (\<exists>rep \<in> set ts. serves (rep_attempt rep))
        | Unread \<Rightarrow> ts \<noteq> [] \<and> serves (rep_attempt (hd ts))
        | Closed \<Rightarrow> False)) \<and>
       (\<not> proxied \<longrightarrow> (\<forall>rep \<in> set ts. blamed reg reg' rep)))"
proof (cases "reps = []")
  case True
  show ?thesis
    by (auto simp: True proxyCrossNodeWithReplicas_def proxyCrossNode_def Do_exchange_def dest: target_Allow_Pair
        split: option.splits prod.splits exchange.splits if_splits)
next
  case False
  obtain proxied reg' where p: "try_replicas self False reps body reg = (proxied, reg')" by fastforce
  have "proxyCrossNodeWithReplicas self False homeIP home (Some reps) body reg = (proxied, reg')"
    using False p by (simp add: proxyCrossNodeWithReplicas_def)
  then show ?thesis using try_replicas_result [OF assms, of self body reg] False unfolding p by (simp add: Let_def)
qed

section \<open>Examples\<close>

definition example_failures :: "gw_action list" where
  "example_failures =
     concat (replicate 5 [NamespaceRequest 0 [] 0 [(''10.0.0.5'', 0)] PlainRequest, Finish 0 TransportError ''ns:10.0.0.5''])"

theorem plain_probe_resolves_witness:
  "(let st = fold gw_exec (example_failures @ [NamespaceRequest 30000000000 [] 0 [(''10.0.0.5'', 0)] PlainRequest]) (NewCircuitBreakerRegistry, [])
    in cb_state (breaker_of (fst st) ''ns:10.0.0.5'') = CircuitHalfOpen \<and> ''ns:10.0.0.5'' \<in> set (snd st) \<and>
       cb_state (breaker_of (fst (gw_exec (Finish 31000000000 TransportError ''ns:10.0.0.5'') st)) ''ns:10.0.0.5'') \<noteq> CircuitHalfOpen)"
proof -
  let ?acts = "example_failures @ [NamespaceRequest 30000000000 [] 0 [(''10.0.0.5'', 0)] PlainRequest]"
  obtain reg fl where st: "fold gw_exec ?acts (NewCircuitBreakerRegistry, []) = (reg, fl)" by fastforce
  have "cb_state (breaker_of (fst (fold gw_exec ?acts (NewCircuitBreakerRegistry, []))) ''ns:10.0.0.5'') = CircuitHalfOpen" by code_simp
  then have h: "cb_state (breaker_of reg ''ns:10.0.0.5'') = CircuitHalfOpen" by (simp only: st fst_conv)
  have "list_all plain_action ?acts" by code_simp
  then show ?thesis using h plain_probe_resolves [OF _ st h] unfolding Let_def st by (simp del: gw_exec.simps)
qed

theorem websocket_probe_blocks_target_witness:
  "(let (reg, fl) = fold gw_exec example_failures (NewCircuitBreakerRegistry, []);
        t = \<lparr>gt_ip = ''10.0.0.5'', gt_port = 10004\<rparr>;
        (adm, reg') = ns_admit 30000000000 [] 0 [t] UpgradeRequest reg
    in adm = Tunnel t \<and> \<not> fst (target_Allow 999000000000 (ns_key t) reg'))"
proof -
  let ?t = "\<lparr>gt_ip = ''10.0.0.5'', gt_port = 10004\<rparr>"
  obtain reg fl where st: "fold gw_exec example_failures (NewCircuitBreakerRegistry, []) = (reg, fl)" by fastforce
  have "cb_state (breaker_of (fst (fold gw_exec example_failures (NewCircuitBreakerRegistry, []))) (ns_key ?t)) = CircuitOpen"
    "snd (fold gw_exec example_failures (NewCircuitBreakerRegistry, [])) = []"
    "fst (ns_admit 30000000000 [] 0 [?t] UpgradeRequest (fst (fold gw_exec example_failures (NewCircuitBreakerRegistry, [])))) = Tunnel ?t"
    by code_simp+
  then have f: "cb_state (breaker_of reg (ns_key ?t)) = CircuitOpen" "fl = []" "fst (ns_admit 30000000000 [] 0 [?t] UpgradeRequest reg) = Tunnel ?t"
    by (simp_all only: st fst_conv snd_conv)
  then obtain reg' where a: "ns_admit 30000000000 [] 0 [?t] UpgradeRequest reg = (Tunnel ?t, reg')" by (metis prod.collapse)
  show ?thesis using websocket_probe_blocks_target [OF f(1) _ a, of "[]" 999000000000 "[]"]
    by (simp only: st a Let_def split_conv fold_simps fst_conv) (simp del: target_Allow_breaker)
qed

theorem replica_failover_witness:
  "(let a = \<lparr>at_start = 0, at_end = 1, at_tunnel = False, at_created = True, at_exchange = TransportError\<rparr>;
        b = a\<lparr>at_exchange := Response 200\<rparr>;
        reps = [(''n0'', Some ''10.0.0.1'', a), (''n1'', Some ''10.0.0.2'', a), (''n2'', Some ''10.0.0.3'', b)]
    in fst (proxyCrossNodeWithReplicas ''n0'' False None a (Some reps) NoBody NewCircuitBreakerRegistry) \<and>
       \<not> fst (proxyCrossNodeWithReplicas ''n0'' False None a (Some reps) Unread NewCircuitBreakerRegistry) \<and>
       failures (breaker_of (snd (proxyCrossNodeWithReplicas ''n0'' False None a (Some reps) Unread NewCircuitBreakerRegistry))
         (node_key ''10.0.0.3'')) = 1)"
proof -
  let ?a = "\<lparr>at_start = 0, at_end = 1, at_tunnel = False, at_created = True, at_exchange = TransportError\<rparr>"
  let ?b = "?a\<lparr>at_exchange := Response 200\<rparr>"
  let ?reps = "[(''n0'', Some ''10.0.0.1'', ?a), (''n1'', Some ''10.0.0.2'', ?a), (''n2'', Some ''10.0.0.3'', ?b)]"
  let ?run = "\<lambda>body. proxyCrossNodeWithReplicas ''n0'' False None ?a (Some ?reps) body NewCircuitBreakerRegistry"
  define ts where "ts = filter (tried ''n0'' NewCircuitBreakerRegistry) ?reps"
  have ts: "ts = [(''n1'', Some ''10.0.0.2'', ?a), (''n2'', Some ''10.0.0.3'', ?b)]" unfolding ts_def by code_simp
  have dist: "distinct (replica_ips ?reps)" by code_simp
  have good: "serves ?b" "\<not> serves ?a" by code_simp+
  have one: "failures (RecordFailure 1 (snd (breaker_Allow 0 (breaker_of NewCircuitBreakerRegistry (node_key ''10.0.0.3''))))) = 1"
    by code_simp
  note res = replica_failover [OF dist, where self = "''n0''" and homeIP = None and home = ?a and reg = NewCircuitBreakerRegistry, folded ts_def]
  have "fst (?run NoBody)" using res [where body = NoBody] good by (simp add: ts rep_attempt_def split: prod.splits)
  moreover have "\<not> fst (?run Unread)" "blamed NewCircuitBreakerRegistry (snd (?run Unread)) (''n2'', Some ''10.0.0.3'', ?b)"
    using res [where body = Unread] good by (auto simp: ts rep_attempt_def split: prod.splits)
  ultimately show ?thesis unfolding Let_def using one by (simp add: blamed_def)
qed


theorem namespace_failover_witness:
  "(let ts = [\<lparr>gt_ip = ''10.0.0.9'', gt_port = 10004\<rparr>, \<lparr>gt_ip = ''10.0.0.5'', gt_port = 10004\<rparr>] in
    gt_ip (hd (order_targets ''10.0.0.9'' 7 ts)) = ''10.0.0.9'' \<and> mset (order_targets ''10.0.0.9'' 7 ts) = mset ts)"
proof -
  let ?ts = "[\<lparr>gt_ip = ''10.0.0.9'', gt_port = 10004\<rparr>, \<lparr>gt_ip = ''10.0.0.5'', gt_port = 10004\<rparr>]"
  have ts: "?ts \<noteq> []" "''10.0.0.9'' \<in> gt_ip ` set ?ts" "''10.0.0.9'' \<noteq> []" by simp_all
  show ?thesis unfolding Let_def using namespace_failover [OF ts(1), of "''10.0.0.9''" 7 undefined 0 undefined] ts(2,3) by blast
qed

theorem proxied_request_stays_in_namespace_witness:
  "(let px = \<lparr>px_auth = example_env, px_marshal = (\<lambda>_. None), px_localWireGuardIP = [], px_host = ''ns-acme.dbrs.space'',
              px_address = ''10.0.0.1:40000'', px_rows = Some [(''10.0.0.5'', 10004)], px_asked = 0, px_stored = 0, px_admitted = 0,
              px_finished = 1, px_created = True, px_exchange = Response 200, px_timed_out = False\<rparr>;
        r = example_request ((\<lambda>_. [])(''X-API-Key'' := ''ak_1:acme''))
    in \<exists>t out status claims scopes r' mc'.
         fst (handleNamespaceGatewayRequest px ''acme'' r (newMiddlewareCache 60) NewCircuitBreakerRegistry) = Forwarded t out status \<and>
         validateAuthForNamespaceProxy (px_auth px) (newMiddlewareCache 60) r = ((''acme'', claims, scopes, False), r', mc') \<and>
         out = forwarded_request (px_marshal px) (px_host px) (px_address px) (''acme'', claims, scopes) r')"
proof -
  let ?px = "\<lparr>px_auth = example_env, px_marshal = (\<lambda>_. None), px_localWireGuardIP = [], px_host = ''ns-acme.dbrs.space'',
              px_address = ''10.0.0.1:40000'', px_rows = Some [(''10.0.0.5'', 10004)], px_asked = 0, px_stored = 0, px_admitted = 0,
              px_finished = 1, px_created = True, px_exchange = Response 200, px_timed_out = False\<rparr>"
  let ?r = "example_request ((\<lambda>_. [])(''X-API-Key'' := ''ak_1:acme''))"
  let ?h = "fst (handleNamespaceGatewayRequest ?px ''acme'' ?r (newMiddlewareCache 60) NewCircuitBreakerRegistry)"
  let ?t = "\<lparr>gt_ip = ''10.0.0.5'', gt_port = 10004\<rparr>"
  have r: "bearer_jwt ?r = None" "query_jwt ?r = None" "extractAPIKey ?r = ''ak_1:acme''" "\<not> isWebSocketUpgrade ?r"
    "\<not> isPublicPath (rq_Path ?r)" by code_simp+
  obtain mc' where v: "validateAuthForNamespaceProxy example_env (newMiddlewareCache 60) ?r = ((''acme'', None, ''admin'', False), ?r, mc')"
    "mc_nsTargets mc' = Map.empty" using example_validated [OF r(1-3)] by blast
  have acc: "namespace_access example_env (newMiddlewareCache 60) ?r ''acme'' = (Inr (''acme'', None, ''admin''), ?r, mc')"
    by (simp add: namespace_access_def v(1) r(5))
  have "fst (lookup_targets 0 0 (Some [(''10.0.0.5'', 10004)]) ''acme'' mc') = Inr [?t]"
    by (simp add: lookup_targets_def GetNamespaceTargets_def v(2) namespace_targets_def Let_def)
  then obtain mc'' where l: "lookup_targets 0 0 (Some [(''10.0.0.5'', 10004)]) ''acme'' mc' = (Inr [?t], mc'')" by (metis prod.collapse)
  have "fst (ns_admit 0 [] s [?t] PlainRequest NewCircuitBreakerRegistry) = Dispatch ?t" for s
    by (simp add: ns_admit_def order_targets_def sort_targets_def NewCircuitBreakerRegistry_def target_Allow_def registry_Get_def
        breaker_Allow_def NewCircuitBreaker_def)
  then obtain reg' where a: "ns_admit 0 [] (Sum32 (affinityKey ''acme'' ?r)) [?t] PlainRequest NewCircuitBreakerRegistry = (Dispatch ?t, reg')"
    by (metis prod.collapse)
  obtain t out status where f: "?h = Forwarded t out status"
    by (simp add: handleNamespaceGatewayRequest_def acc l a r(4))
  have "\<not> isPublicPath (rq_Path ?r)" by (rule r(5))
  then show ?thesis unfolding Let_def using f proxied_request_stays_in_namespace [OF disjI1 [OF f]] by blast
qed

end
