(* ===== verification/Node_Lifecycle.thy ===== *)
theory Node_Lifecycle
  imports Token_Bucket
begin

text \<open>
  The lifecycle state machine of a node
  (\<^verbatim>\<open>core/pkg/node/lifecycle/manager.go\<close>).  The zero \<^verbatim>\<open>time.Time\<close> is
  \<^term>\<open>None\<close>.  A transition returns the notifications it delivers: one pair of
  old and new state for each registered callback.
\<close>

datatype State = StateJoining | StateActive | StateDraining | StateMaintenance

definition MaxMaintenanceTTL :: int where "MaxMaintenanceTTL = 15 * 60 * 1000000000"

fun validTransitions :: "State \<Rightarrow> State \<Rightarrow> bool" where
  "validTransitions StateJoining s = (s = StateActive)"
| "validTransitions StateActive s = (s = StateDraining \<or> s = StateMaintenance)"
| "validTransitions StateDraining s = (s = StateMaintenance)"
| "validTransitions StateMaintenance s = (s = StateActive)"

record LifecycleManager =
  lm_state :: State
  lm_maintenanceTTL :: "time_ns option"
  lm_enterTime :: time_ns
  lm_callbacks :: nat

datatype lifecycle_error = InvalidTransition State State

definition NewLifecycleManager :: "time_ns \<Rightarrow> LifecycleManager" where
  "NewLifecycleManager now =
     \<lparr>lm_state = StateJoining, lm_maintenanceTTL = None, lm_enterTime = now, lm_callbacks = 0\<rparr>"

definition OnStateChange :: "LifecycleManager \<Rightarrow> LifecycleManager" where
  "OnStateChange m = m\<lparr>lm_callbacks := lm_callbacks m + 1\<rparr>"

definition TransitionTo :: "time_ns \<Rightarrow> State \<Rightarrow> LifecycleManager
    \<Rightarrow> (lifecycle_error, (State \<times> State) list) result \<times> LifecycleManager" where
  "TransitionTo now newState m =
     (let old = lm_state m
      in if \<not> validTransitions old newState then (Inl (InvalidTransition old newState), m)
         else (Inr (replicate (lm_callbacks m) (old, newState)),
               m\<lparr>lm_state := newState, lm_enterTime := now,
                 lm_maintenanceTTL := (if newState \<noteq> StateMaintenance then None else lm_maintenanceTTL m)\<rparr>))"

definition capped_ttl :: "int \<Rightarrow> int" where
  "capped_ttl ttl =
     (let ttl = (if ttl \<le> 0 then MaxMaintenanceTTL else ttl) in if ttl > MaxMaintenanceTTL then MaxMaintenanceTTL else ttl)"

text \<open>The two clock readings of \<^verbatim>\<open>EnterMaintenance\<close> are two arguments.\<close>

definition EnterMaintenance :: "time_ns \<Rightarrow> time_ns \<Rightarrow> int \<Rightarrow> LifecycleManager
    \<Rightarrow> (lifecycle_error, (State \<times> State) list) result \<times> LifecycleManager" where
  "EnterMaintenance now now' ttl m =
     (let old = lm_state m
      in if \<not> validTransitions old StateMaintenance then (Inl (InvalidTransition old StateMaintenance), m)
         else (Inr (replicate (lm_callbacks m) (old, StateMaintenance)),
               m\<lparr>lm_state := StateMaintenance, lm_maintenanceTTL := Some (now + capped_ttl ttl), lm_enterTime := now'\<rparr>))"

definition IsMaintenanceExpired :: "time_ns \<Rightarrow> LifecycleManager \<Rightarrow> bool" where
  "IsMaintenanceExpired now m =
     (if lm_state m \<noteq> StateMaintenance then False
      else case lm_maintenanceTTL m of None \<Rightarrow> False | Some t \<Rightarrow> t < now)"

definition IsAvailable :: "LifecycleManager \<Rightarrow> bool" where
  "IsAvailable m \<longleftrightarrow> lm_state m = StateActive"

definition IsInMaintenance :: "LifecycleManager \<Rightarrow> bool" where
  "IsInMaintenance m \<longleftrightarrow> lm_state m = StateMaintenance"

definition Snapshot :: "LifecycleManager \<Rightarrow> State \<times> time_ns option" where
  "Snapshot m = (lm_state m, lm_maintenanceTTL m)"

section \<open>Steps\<close>

text \<open>One step of a node: a registration, a transition, or an entry into
  maintenance.  The clock does not run backwards between two readings.\<close>

inductive lifecycle_step :: "LifecycleManager \<Rightarrow> LifecycleManager \<Rightarrow> bool" where
  register: "lifecycle_step m (OnStateChange m)"
| transition: "newState \<noteq> StateMaintenance \<Longrightarrow> lifecycle_step m (snd (TransitionTo now newState m))"
| maintenance: "now \<le> now' \<Longrightarrow> lifecycle_step m (snd (EnterMaintenance now now' ttl m))"

inductive_cases lifecycle_stepE: "lifecycle_step m m'"

definition lifecycle_inv :: "LifecycleManager \<Rightarrow> bool" where
  "lifecycle_inv m \<longleftrightarrow>
     (case lm_maintenanceTTL m of
        None \<Rightarrow> lm_state m \<noteq> StateMaintenance
      | Some t \<Rightarrow> lm_state m = StateMaintenance \<and> t \<le> lm_enterTime m + MaxMaintenanceTTL)"

lemma capped_ttl_bounds: "0 < capped_ttl ttl" "capped_ttl ttl \<le> MaxMaintenanceTTL"
  by (simp_all add: capped_ttl_def MaxMaintenanceTTL_def Let_def)

lemma lifecycle_step_inv [inv_intros]: "lifecycle_step m m' \<Longrightarrow> lifecycle_inv m \<Longrightarrow> lifecycle_inv m'"
proof (induction rule: lifecycle_step.induct)
  case (register m)
  thus ?case by (auto simp: OnStateChange_def lifecycle_inv_def split: option.splits)
next
  case (transition newState m now)
  thus ?case by (auto simp: TransitionTo_def lifecycle_inv_def Let_def split: option.splits)
next
  case (maintenance now now' m ttl)
  thus ?case using capped_ttl_bounds(2) [of ttl]
    by (auto simp: EnterMaintenance_def lifecycle_inv_def Let_def split: option.splits)
qed

lemma lifecycle_reachable_inv:
  "lifecycle_step\<^sup>*\<^sup>* (NewLifecycleManager now) m \<Longrightarrow> lifecycle_inv m"
proof (induction rule: rtranclp_induct)
  case base
  show ?case by (simp add: lifecycle_inv_def NewLifecycleManager_def)
qed (rule lifecycle_step_inv)

section \<open>Properties\<close>

text \<open>A node cannot stay in maintenance unnoticed.  However the lifecycle got
  there through \<^verbatim>\<open>EnterMaintenance\<close>, a node in maintenance counts as expired
  at every time later than fifteen minutes after it entered, and a node in
  another state never does.\<close>

lemma maintenance_expires:
  assumes "lifecycle_step\<^sup>*\<^sup>* (NewLifecycleManager start) m"
  shows "(lm_state m = StateMaintenance \<and> lm_enterTime m + MaxMaintenanceTTL < now \<longrightarrow> IsMaintenanceExpired now m)
    \<and> (IsMaintenanceExpired now m \<longrightarrow> IsInMaintenance m \<and> \<not> IsAvailable m)"
  using lifecycle_reachable_inv [OF assms]
  by (auto simp: lifecycle_inv_def IsMaintenanceExpired_def IsInMaintenance_def IsAvailable_def split: option.splits if_splits)

lemma maintenance_expires_example:
  "IsMaintenanceExpired 1000000000000 (snd (EnterMaintenance 20 30 0 (snd (TransitionTo 10 StateActive (NewLifecycleManager 0)))))"
proof -
  let ?m1 = "snd (TransitionTo 10 StateActive (NewLifecycleManager 0))"
  let ?m2 = "snd (EnterMaintenance 20 30 0 ?m1)"
  have "lifecycle_step (NewLifecycleManager 0) ?m1" "lifecycle_step ?m1 ?m2"
    by (rule lifecycle_step.intros, simp)+
  hence "lifecycle_step\<^sup>*\<^sup>* (NewLifecycleManager 0) ?m2" by (rule converse_rtranclp_into_rtranclp [OF _ r_into_rtranclp])
  thus ?thesis using maintenance_expires [of 0 ?m2 1000000000000]
    by (simp add: EnterMaintenance_def TransitionTo_def NewLifecycleManager_def MaxMaintenanceTTL_def Let_def)
qed

text \<open>\<^verbatim>\<open>TransitionTo\<close> also accepts the maintenance state, and then sets no
  expiry: a node that enters maintenance this way is never reported as expired,
  whatever the time.\<close>

lemma transition_to_maintenance_never_expires:
  "let m = snd (TransitionTo t2 StateMaintenance (snd (TransitionTo t1 StateActive (NewLifecycleManager t0))))
   in IsInMaintenance m \<and> \<not> IsMaintenanceExpired now m"
  by (simp add: TransitionTo_def NewLifecycleManager_def IsInMaintenance_def IsMaintenanceExpired_def Let_def)

end
