(* ===== verification/Node_Health.thy ===== *)
theory Node_Health
  imports Node_Lifecycle "HOL-Library.Char_ord" "HOL-Library.List_Lexorder"
begin

text \<open>
  The ring-based failure detector
  (\<^verbatim>\<open>core/pkg/node/health/monitor.go\<close>).

  The table \<^verbatim>\<open>node_health_events\<close> is shared by all observers: a list of rows
  that \<^verbatim>\<open>writeEvent\<close> extends and \<^verbatim>\<open>checkQuorum\<close> queries.  Database failures
  are an argument; timestamps are compared in whole seconds, as their textual
  form is.  A callback is recorded as an output of the operation that fires it.
\<close>

section \<open>Data\<close>

definition DefaultNeighbors :: int where "DefaultNeighbors = 3"
definition DefaultSuspectAfter :: nat where "DefaultSuspectAfter = 3"
definition DefaultDeadAfter :: nat where "DefaultDeadAfter = 12"
definition DefaultQuorumWindow :: int where "DefaultQuorumWindow = 5 * 60 * 1000000000"
definition DefaultMinQuorum :: nat where "DefaultMinQuorum = 2"
definition DefaultStartupGracePeriod :: int where "DefaultStartupGracePeriod = 5 * 60 * 1000000000"

datatype health_status = Healthy | Suspect | Dead
datatype event_status = EvSuspect | EvDead | EvRecovered

record nodeInfo =
  ID :: string
  InternalIP :: string

record peerState =
  missCount :: nat
  ps_status :: health_status
  suspectAt :: time_ns
  reportedDead :: bool

record health_row =
  observer_id :: string
  target_id :: string
  hr_status :: event_status
  created_at :: int

record Monitor =
  mon_NodeID :: string
  mon_hasDB :: bool
  mon_Neighbors :: int
  mon_Grace :: int
  mon_startTime :: time_ns
  mon_peers :: "string \<Rightarrow> peerState option"
  mon_onDead :: bool
  mon_onRecovered :: bool
  mon_onSuspect :: bool

datatype callback = OnDead string | OnRecovered string | OnSuspect string

datatype db_call = InsertEvent | CountObservers | MinObserver | SelectNodes

definition NewMonitor :: "string \<Rightarrow> bool \<Rightarrow> int \<Rightarrow> int \<Rightarrow> time_ns \<Rightarrow> Monitor" where
  "NewMonitor nodeID hasDB neighbors grace now =
     \<lparr>mon_NodeID = nodeID, mon_hasDB = hasDB,
      mon_Neighbors = (if neighbors = 0 then DefaultNeighbors else neighbors),
      mon_Grace = (if grace = 0 then DefaultStartupGracePeriod else grace),
      mon_startTime = now, mon_peers = Map.empty, mon_onDead = False, mon_onRecovered = False, mon_onSuspect = False\<rparr>"

definition OnNodeDead :: "Monitor \<Rightarrow> Monitor" where "OnNodeDead m = m\<lparr>mon_onDead := True\<rparr>"
definition OnNodeRecovered :: "Monitor \<Rightarrow> Monitor" where "OnNodeRecovered m = m\<lparr>mon_onRecovered := True\<rparr>"
definition OnNodeSuspect :: "Monitor \<Rightarrow> Monitor" where "OnNodeSuspect m = m\<lparr>mon_onSuspect := True\<rparr>"

definition isInStartupGrace :: "time_ns \<Rightarrow> Monitor \<Rightarrow> bool" where
  "isInStartupGrace now m \<longleftrightarrow> now - mon_startTime m < mon_Grace m"

section \<open>Probing\<close>

definition probeNode :: "(string \<Rightarrow> (string \<times> time_ns) option) option \<Rightarrow> (nodeInfo \<Rightarrow> bool) \<Rightarrow> time_ns \<Rightarrow> nodeInfo \<Rightarrow> bool" where
  "probeNode reader probe now node =
     (case reader of
        None \<Rightarrow> probe node
      | Some get \<Rightarrow>
          (case get (ID node) of
             None \<Rightarrow> probe node
           | Some (state, lastSeen) \<Rightarrow>
               if state = ''maintenance'' \<and> now - lastSeen < 2 * 60 * 1000000000 then True
               else if state = ''active'' \<and> now - lastSeen < 30 * 1000000000 then True
               else probe node))"

definition writeEvent :: "(db_call \<Rightarrow> bool) \<Rightarrow> time_ns \<Rightarrow> Monitor \<Rightarrow> string \<Rightarrow> event_status \<Rightarrow> health_row list \<Rightarrow> health_row list" where
  "writeEvent db now m target status rows =
     (if \<not> mon_hasDB m then rows
      else if db InsertEvent
           then rows @ [\<lparr>observer_id = mon_NodeID m, target_id = target, hr_status = status, created_at = now div 1000000000\<rparr>]
           else rows)"

text \<open>The time of the observer, from which the cutoff is computed, and the time of the
  database, which stamps the events, are one clock here.\<close>

definition dead_observers :: "time_ns \<Rightarrow> string \<Rightarrow> health_row list \<Rightarrow> string set" where
  "dead_observers now target rows =
     (let cutoff = (now - DefaultQuorumWindow) div 1000000000
      in observer_id ` set (filter (\<lambda>r. target_id r = target \<and> hr_status r = EvDead \<and> cutoff < created_at r) rows))"

definition checkQuorum :: "(db_call \<Rightarrow> bool) \<Rightarrow> time_ns \<Rightarrow> Monitor \<Rightarrow> string \<Rightarrow> health_row list \<Rightarrow> callback list" where
  "checkQuorum db now m target rows =
     (if \<not> mon_hasDB m \<or> \<not> mon_onDead m then []
      else if \<not> db CountObservers then []
      else let obs = dead_observers now target rows
           in if card obs < DefaultMinQuorum then []
              else if \<not> db MinObserver then []
              else if Min obs \<noteq> mon_NodeID m then []
              else [OnDead target])"

definition updateState :: "(db_call \<Rightarrow> bool) \<Rightarrow> time_ns \<Rightarrow> string \<Rightarrow> bool \<Rightarrow> Monitor \<Rightarrow> health_row list
    \<Rightarrow> Monitor \<times> health_row list \<times> callback list" where
  "updateState db now nodeID healthy m rows =
     (let ps = (case mon_peers m nodeID of
                  None \<Rightarrow> \<lparr>missCount = 0, ps_status = Healthy, suspectAt = 0, reportedDead = False\<rparr>
                | Some ps \<Rightarrow> ps);
          put = (\<lambda>ps. m\<lparr>mon_peers := (mon_peers m)(nodeID \<mapsto> ps)\<rparr>)
      in if healthy
         then (put (ps\<lparr>missCount := 0, ps_status := Healthy, reportedDead := False\<rparr>),
               if ps_status ps \<noteq> Healthy then writeEvent db now m nodeID EvRecovered rows else rows,
               if (ps_status ps = Suspect \<or> ps_status ps = Dead) \<and> mon_onRecovered m then [OnRecovered nodeID] else [])
         else let ps = ps\<lparr>missCount := missCount ps + 1\<rparr>
              in if DefaultDeadAfter \<le> missCount ps \<and> \<not> reportedDead ps
                 then (if isInStartupGrace now m
                       then (if ps_status ps \<noteq> Suspect
                             then (put (ps\<lparr>ps_status := Suspect, suspectAt := now\<rparr>),
                                   writeEvent db now m nodeID EvSuspect rows, [])
                             else (put ps, rows, []))
                       else let rows' = writeEvent db now m nodeID EvDead rows
                            in (put (ps\<lparr>ps_status := Dead, reportedDead := True\<rparr>), rows',
                                if mon_hasDB m \<and> mon_onDead m then checkQuorum db now m nodeID rows' else []))
                 else if DefaultSuspectAfter \<le> missCount ps \<and> ps_status ps = Healthy
                 then (put (ps\<lparr>ps_status := Suspect, suspectAt := now\<rparr>),
                       writeEvent db now m nodeID EvSuspect rows,
                       if mon_onSuspect m then [OnSuspect nodeID] else [])
                 else (put ps, rows, []))"

section \<open>The ring\<close>

fun find_index :: "string \<Rightarrow> nodeInfo list \<Rightarrow> nat \<Rightarrow> nat option" where
  "find_index selfID [] i = None"
| "find_index selfID (n # ns) i = (if ID n = selfID then Some i else find_index selfID ns (i + 1))"

text \<open>\<^verbatim>\<open>NewMonitor\<close> replaces the number 0 of neighbours by the default.  For a negative
  number, with which \<^verbatim>\<open>make\<close> would panic, the list is empty here, so what is said of
  the ring is meant for numbers that are not negative.\<close>

definition RingNeighbors :: "nodeInfo list \<Rightarrow> string \<Rightarrow> int \<Rightarrow> nodeInfo list" where
  "RingNeighbors nodes selfID k =
     (if length nodes \<le> 1 then []
      else let ring = sort_key ID nodes
           in case find_index selfID ring 0 of
                None \<Rightarrow> []
              | Some selfIdx \<Rightarrow>
                  (let count = (if k > int (length ring) - 1 then int (length ring) - 1 else k)
                   in map (\<lambda>i. ring ! ((selfIdx + i) mod length ring)) [1..<nat count + 1]))"

definition getRingNeighbors :: "(db_call \<Rightarrow> bool) \<Rightarrow> nodeInfo list \<Rightarrow> Monitor \<Rightarrow> nodeInfo list option" where
  "getRingNeighbors db active m =
     (if \<not> mon_hasDB m then None
      else if \<not> db SelectNodes then None
      else Some (RingNeighbors active (mon_NodeID m) (mon_Neighbors m)))"

definition pruneStaleState :: "nodeInfo list \<Rightarrow> Monitor \<Rightarrow> Monitor" where
  "pruneStaleState current m =
     m\<lparr>mon_peers := (\<lambda>id. if id \<in> ID ` set current then mon_peers m id else None)\<rparr>"

text \<open>One round.  The probes run concurrently and each takes the lock for its own
  update; \<open>order\<close> is the order in which the updates take place.\<close>

fun apply_probes :: "(db_call \<Rightarrow> bool) \<Rightarrow> time_ns \<Rightarrow> (nodeInfo \<Rightarrow> bool) \<Rightarrow> nodeInfo list \<Rightarrow> Monitor \<Rightarrow> health_row list
    \<Rightarrow> Monitor \<times> health_row list \<times> callback list" where
  "apply_probes db now ok [] m rows = (m, rows, [])"
| "apply_probes db now ok (n # ns) m rows =
     (let (m1, rows1, cb1) = updateState db now (ID n) (ok n) m rows;
          (m2, rows2, cb2) = apply_probes db now ok ns m1 rows1
      in (m2, rows2, cb1 @ cb2))"

definition probeRound :: "(db_call \<Rightarrow> bool) \<Rightarrow> time_ns \<Rightarrow> nodeInfo list \<Rightarrow> (nodeInfo \<Rightarrow> bool) \<Rightarrow> (nodeInfo list \<Rightarrow> nodeInfo list)
    \<Rightarrow> Monitor \<Rightarrow> health_row list \<Rightarrow> Monitor \<times> health_row list \<times> callback list" where
  "probeRound db now active ok order m rows =
     (case getRingNeighbors db active m of
        None \<Rightarrow> (m, rows, [])
      | Some neighbors \<Rightarrow>
          if neighbors = [] then (m, rows, [])
          else let (m', rows', cbs) = apply_probes db now ok (order neighbors) m rows
               in (pruneStaleState neighbors m', rows', cbs))"

section \<open>The state of a peer is the number of its trailing misses\<close>

definition classify :: "nat \<Rightarrow> health_status" where
  "classify k = (if k < 3 then Healthy else if k < 12 then Suspect else Dead)"

definition trailing_misses :: "bool list \<Rightarrow> nat" where
  "trailing_misses results = length (takeWhile Not (rev results))"

lemma trailing_misses_snoc: "trailing_misses (rs @ [ok]) = (if ok then 0 else trailing_misses rs + 1)"
  by (simp add: trailing_misses_def)

fun probe_run :: "(db_call \<Rightarrow> bool) \<Rightarrow> string \<Rightarrow> (time_ns \<times> bool) list \<Rightarrow> Monitor \<Rightarrow> health_row list
    \<Rightarrow> Monitor \<times> health_row list \<times> callback list" where
  "probe_run db nid [] m rows = (m, rows, [])"
| "probe_run db nid ((now, ok) # rs) m rows =
     (let (m1, rows1, cb1) = updateState db now nid ok m rows;
          (m2, rows2, cb2) = probe_run db nid rs m1 rows1
      in (m2, rows2, cb1 @ cb2))"

lemma probe_run_snoc:
  "fst (probe_run db nid (rs @ [(now, ok)]) m rows) =
     fst (updateState db now nid ok (fst (probe_run db nid rs m rows)) (fst (snd (probe_run db nid rs m rows))))"
  by (induction db nid rs m rows rule: probe_run.induct) (auto simp: Let_def split: prod.splits)

definition matches :: "peerState option \<Rightarrow> nat \<Rightarrow> bool" where
  "matches p k = (case p of
       None \<Rightarrow> k = 0
     | Some ps \<Rightarrow> missCount ps = k \<and> ps_status ps = classify k \<and> (reportedDead ps \<longleftrightarrow> 12 \<le> k))"

lemma updateState_matches:
  assumes "matches (mon_peers m nid) k" "\<not> isInStartupGrace now m"
  shows "matches (mon_peers (fst (updateState db now nid ok m rows)) nid) (if ok then 0 else k + 1)
    \<and> mon_peers (fst (updateState db now nid ok m rows)) nid \<noteq> None"
  using assms
  by (auto simp: updateState_def matches_def classify_def Let_def DefaultDeadAfter_def DefaultSuspectAfter_def split: option.splits)

lemma updateState_frame:
  "mon_startTime (fst (updateState db now nid ok m rows)) = mon_startTime m
   \<and> mon_Grace (fst (updateState db now nid ok m rows)) = mon_Grace m"
  by (auto simp: updateState_def Let_def)

lemma probe_run_matches:
  assumes "mon_peers m nid = None" "\<forall>p \<in> set rs. mon_startTime m + mon_Grace m \<le> fst p"
  shows "matches (mon_peers (fst (probe_run db nid rs m rows)) nid) (trailing_misses (map snd rs))
    \<and> mon_startTime (fst (probe_run db nid rs m rows)) = mon_startTime m
    \<and> mon_Grace (fst (probe_run db nid rs m rows)) = mon_Grace m
    \<and> (rs \<noteq> [] \<longrightarrow> mon_peers (fst (probe_run db nid rs m rows)) nid \<noteq> None)"
  using assms(2)
proof (induction rs rule: rev_induct)
  case Nil
  show ?case using assms(1) by (simp add: matches_def trailing_misses_def)
next
  case (snoc p rs)
  obtain now ok where p: "p = (now, ok)" by fastforce
  let ?m = "fst (probe_run db nid rs m rows)"
  have "matches (mon_peers ?m nid) (trailing_misses (map snd rs))" "mon_startTime ?m = mon_startTime m" "mon_Grace ?m = mon_Grace m"
    using snoc.IH snoc.prems by simp_all
  moreover from this have "\<not> isInStartupGrace now ?m" using snoc.prems by (simp add: p isInStartupGrace_def)
  ultimately show ?case
    using updateState_matches [of ?m nid "trailing_misses (map snd rs)" now db ok] updateState_frame [of db now nid ok ?m]
    by (auto simp: p probe_run_snoc trailing_misses_snoc)
qed

section \<open>The quorum\<close>

text \<open>An observer that has missed a peer eleven times and has not reported it.\<close>

definition about_to_report :: "string \<Rightarrow> string \<Rightarrow> Monitor" where
  "about_to_report observer target =
     \<lparr>mon_NodeID = observer, mon_hasDB = True, mon_Neighbors = 3, mon_Grace = 0, mon_startTime = 0,
      mon_peers = [target \<mapsto> \<lparr>missCount = 11, ps_status = Suspect, suspectAt = 0, reportedDead = False\<rparr>],
      mon_onDead = True, mon_onRecovered = True, mon_onSuspect = True\<rparr>"

text \<open>The observers see their twelfth miss one after the other.\<close>

fun reports :: "time_ns \<Rightarrow> string \<Rightarrow> string list \<Rightarrow> health_row list \<Rightarrow> callback list list" where
  "reports now target [] rows = []"
| "reports now target (obs # os) rows =
     (let (m', rows', cbs) = updateState (\<lambda>_. True) now target False (about_to_report obs target) rows
      in cbs # reports now target os rows')"

definition dead_rows :: "time_ns \<Rightarrow> string \<Rightarrow> string list \<Rightarrow> health_row list" where
  "dead_rows now target os =
     map (\<lambda>obs. \<lparr>observer_id = obs, target_id = target, hr_status = EvDead, created_at = now div 1000000000\<rparr>) os"

lemma dead_observers_rows: "dead_observers now target (dead_rows now target os) = set os"
proof -
  have "(now - DefaultQuorumWindow) div 1000000000 < now div 1000000000"
    by (simp add: DefaultQuorumWindow_def)
  hence "filter (\<lambda>r. target_id r = target \<and> hr_status r = EvDead \<and> (now - DefaultQuorumWindow) div 1000000000 < created_at r)
      (dead_rows now target os) = dead_rows now target os"
    by (intro filter_True) (auto simp: dead_rows_def)
  hence "dead_observers now target (dead_rows now target os) = observer_id ` set (dead_rows now target os)"
    by (simp only: dead_observers_def Let_def)
  thus ?thesis by (simp add: dead_rows_def image_image)
qed

lemma report_step:
  assumes "0 \<le> now"
  shows "updateState (\<lambda>_. True) now target False (about_to_report obs target) (dead_rows now target os) =
    (fst (updateState (\<lambda>_. True) now target False (about_to_report obs target) (dead_rows now target os)),
     dead_rows now target (os @ [obs]),
     if 2 \<le> card (set (os @ [obs])) \<and> Min (set (os @ [obs])) = obs then [OnDead target] else [])"
proof -
  have rows: "writeEvent (\<lambda>_. True) now (about_to_report obs target) target EvDead (dead_rows now target os)
      = dead_rows now target (os @ [obs])"
    by (simp add: writeEvent_def about_to_report_def dead_rows_def)
  have "checkQuorum (\<lambda>_. True) now (about_to_report obs target) target (dead_rows now target (os @ [obs]))
      = (if 2 \<le> card (set (os @ [obs])) \<and> Min (set (os @ [obs])) = obs then [OnDead target] else [])"
    unfolding checkQuorum_def dead_observers_rows Let_def by (auto simp: about_to_report_def DefaultMinQuorum_def)
  moreover have "\<not> isInStartupGrace now (about_to_report obs target)"
    using assms by (simp add: isInStartupGrace_def about_to_report_def)
  ultimately show ?thesis
    using rows by (simp add: updateState_def Let_def about_to_report_def DefaultDeadAfter_def)
qed

lemma reports_result:
  assumes "0 \<le> now"
  shows "reports now target os (dead_rows now target prior) =
    map (\<lambda>i. if 2 \<le> card (set (prior @ take (Suc i) os)) \<and> Min (set (prior @ take (Suc i) os)) = os ! i
              then [OnDead target] else []) [0..<length os]"
proof (induction os arbitrary: prior)
  case (Cons obs os)
  have "reports now target (obs # os) (dead_rows now target prior) =
      (if 2 \<le> card (set (prior @ [obs])) \<and> Min (set (prior @ [obs])) = obs then [OnDead target] else [])
      # reports now target os (dead_rows now target (prior @ [obs]))"
    using report_step [OF assms, of target obs prior] by (auto split: prod.splits)
  also have "\<dots> = map (\<lambda>i. if 2 \<le> card (set (prior @ take (Suc i) (obs # os))) \<and> Min (set (prior @ take (Suc i) (obs # os))) = (obs # os) ! i
              then [OnDead target] else []) (0 # map Suc [0..<length os])"
    unfolding Cons.IH by simp
  also have "0 # map Suc [0..<length os] = [0..<length (obs # os)]" by (simp add: map_Suc_upt upt_conv_Cons del: upt_Suc)
  finally show ?case .
qed simp


section \<open>The ring covers every node\<close>

lemma ring_mod: "i < n \<Longrightarrow> d < n \<Longrightarrow> (i + d) mod n = (if i + d < n then i + d else i + d - (n :: nat))"
  by (simp add: mod_if)

lemma ring_mod_inverse:
  "i < n \<Longrightarrow> j < n \<Longrightarrow> d < n \<Longrightarrow> (i + d) mod n = j \<longleftrightarrow> i = (j + (n - d)) mod (n :: nat)"
  using ring_mod [of i n d] ring_mod [of j n "n - d"] by (cases "d = 0") (auto split: if_splits)

lemma ring_mod_inj:
  assumes "j < n" "0 < d" "d < n" "0 < d'" "d' < n" "(j + (n - d)) mod n = (j + (n - d')) mod (n :: nat)"
  shows "d = d'"
proof -
  have "(j + (n - e)) mod n = (if j < e then j + (n - e) else j - e)" if "0 < e" "e < n" for e
    using that assms(1) ring_mod [of j n "n - e"] by auto
  thus ?thesis using assms by (simp split: if_splits)
qed

lemma find_index_nth:
  "distinct (map ID ring) \<Longrightarrow> i < length ring \<Longrightarrow> find_index (ID (ring ! i)) ring b = Some (b + i)"
proof (induction ring arbitrary: b i)
  case (Cons n ns)
  thus ?case by (cases i) (auto simp: image_iff)
qed simp

definition ring_count :: "nat \<Rightarrow> int \<Rightarrow> nat" where
  "ring_count n k = min (nat k) (n - 1)"

lemma RingNeighbors_ring:
  assumes "distinct (map ID nodes)" "2 \<le> length nodes" "i < length nodes" "ring = sort_key ID nodes"
  shows "RingNeighbors nodes (ID (ring ! i)) k
    = map (\<lambda>d. ring ! ((i + d) mod length nodes)) [1..<ring_count (length nodes) k + 1]"
proof -
  have ring: "distinct (map ID ring)" "length ring = length nodes"
    using assms(1,4) by (auto simp: distinct_map)
  have "nat (if k > int (length ring) - 1 then int (length ring) - 1 else k) = ring_count (length nodes) k"
    using assms(2) ring(2) by (auto simp: ring_count_def min_def)
  thus ?thesis using find_index_nth [OF ring(1), of i 0] assms(2,3) ring(2)
    by (simp add: RingNeighbors_def Let_def assms(4) [symmetric] del: upt_Suc)
qed

lemma ring_observers:
  assumes "distinct (map ID nodes)" "2 \<le> length nodes" "j < length nodes" "ring = sort_key ID nodes"
  shows "card {obs \<in> set nodes. ring ! j \<in> set (RingNeighbors nodes (ID obs) k)} = ring_count (length nodes) k"
proof -
  let ?n = "length nodes" and ?c = "ring_count (length nodes) k"
  have ring: "distinct ring" "length ring = ?n" "set ring = set nodes"
    using assms(1,4) by (auto simp: distinct_map)
  have c: "?c < ?n" using assms(2) by (auto simp: ring_count_def)
  have mem: "ring ! j \<in> set (RingNeighbors nodes (ID (ring ! i)) k) \<longleftrightarrow> (\<exists>d \<in> {1..?c}. i = (j + (?n - d)) mod ?n)"
    if "i < ?n" for i
  proof -
    have lt: "(i + d) mod ?n < ?n" for d using assms(2) by (intro mod_less_divisor) linarith
    have "ring ! j \<in> set (RingNeighbors nodes (ID (ring ! i)) k) \<longleftrightarrow> (\<exists>d \<in> {1..?c}. ring ! j = ring ! ((i + d) mod ?n))"
      unfolding RingNeighbors_ring [OF assms(1,2) that assms(4)]
      by (simp add: image_iff atLeastLessThanSuc_atLeastAtMost del: upt_Suc)
    also have "\<dots> \<longleftrightarrow> (\<exists>d \<in> {1..?c}. j = (i + d) mod ?n)"
      using ring(1,2) assms(3) lt by (intro bex_cong refl) (simp add: nth_eq_iff_index_eq)
    also have "\<dots> \<longleftrightarrow> (\<exists>d \<in> {1..?c}. i = (j + (?n - d)) mod ?n)"
    proof (intro bex_cong refl)
      fix d assume "d \<in> {1..?c}"
      hence "d < ?n" using c by simp
      thus "j = (i + d) mod ?n \<longleftrightarrow> i = (j + (?n - d)) mod ?n"
        using ring_mod_inverse [OF that assms(3)] by metis
    qed
    finally show ?thesis .
  qed
  let ?I = "(\<lambda>d. (j + (?n - d)) mod ?n) ` {1..?c}"
  have "{obs \<in> set nodes. ring ! j \<in> set (RingNeighbors nodes (ID obs) k)} = (!) ring ` ?I"
    (is "?L = ?R")
  proof
    show "?R \<subseteq> ?L"
    proof
      fix obs assume "obs \<in> ?R"
      then obtain d where d: "d \<in> {1..?c}" "obs = ring ! ((j + (?n - d)) mod ?n)" by blast
      have lt: "(j + (?n - d)) mod ?n < ?n" using assms(2) by (intro mod_less_divisor) linarith
      hence "obs \<in> set nodes" using ring(2,3) nth_mem [of "(j + (?n - d)) mod ?n" ring] d(2) by simp
      thus "obs \<in> ?L" using mem [OF lt] d by blast
    qed
    show "?L \<subseteq> ?R"
    proof
      fix obs assume obs: "obs \<in> ?L"
      then obtain i where "i < ?n" "obs = ring ! i" using ring(2,3) by (metis (no_types, lifting) in_set_conv_nth mem_Collect_eq)
      thus "obs \<in> ?R" using obs mem [of i] by blast
    qed
  qed
  moreover have "inj_on ((!) ring) ?I"
  proof (intro inj_on_nth ring(1) ballI)
    fix i assume "i \<in> ?I"
    then obtain d where "i = (j + (?n - d)) mod ?n" by blast
    moreover have "0 < ?n" using assms(2) by linarith
    ultimately show "i < length ring" unfolding ring(2) using mod_less_divisor by blast
  qed
  moreover have "inj_on (\<lambda>d. (j + (?n - d)) mod ?n) {1..?c}"
  proof (rule inj_onI)
    fix d d' assume "d \<in> {1..?c}" "d' \<in> {1..?c}" "(j + (?n - d)) mod ?n = (j + (?n - d')) mod ?n"
    thus "d = d'" using ring_mod_inj [of j ?n d d'] c assms(3) by simp
  qed
  ultimately show ?thesis by (simp add: card_image)
qed

section \<open>Properties\<close>

text \<open>C18: After the startup grace period the in-memory verdict on a peer is a
  function of the number of misses since its last successful probe: below three
  it is healthy, from three suspect, from twelve dead and reported, whatever the
  probes before that success gave.  The peer is first probed after the grace
  period.\<close>

theorem verdict_is_trailing_misses:
  assumes "mon_peers m nid = None" "rs \<noteq> []" "\<forall>p \<in> set rs. mon_startTime m + mon_Grace m \<le> fst p"
  shows "\<exists>ps. mon_peers (fst (probe_run db nid rs m rows)) nid = Some ps
    \<and> missCount ps = trailing_misses (map snd rs)
    \<and> ps_status ps = (if trailing_misses (map snd rs) < 3 then Healthy else if trailing_misses (map snd rs) < 12 then Suspect else Dead)
    \<and> (reportedDead ps \<longleftrightarrow> 12 \<le> trailing_misses (map snd rs))"
  using probe_run_matches [OF assms(1,3), of db rows] assms(2) by (auto simp: matches_def classify_def)

theorem verdict_is_trailing_misses_witness:
  "\<exists>ps. mon_peers (fst (probe_run (\<lambda>_. True) ''n2'' (replicate 3 (400000000000, False)) (NewMonitor ''n1'' True 0 0 0) [])) ''n2'' = Some ps
    \<and> ps_status ps = Suspect"
  using verdict_is_trailing_misses [of "NewMonitor ''n1'' True 0 0 0" "''n2''" "replicate 3 (400000000000, False)" "\<lambda>_. True" "[]"]
  by (auto simp: NewMonitor_def DefaultStartupGracePeriod_def trailing_misses_def numeral_3_eq_3)

text \<open>Which observer triggers the recovery of a dead node.  When observers
  report it dead one after the other within the window, the callback fires at
  the second and each later report exactly if that observer's id is lower than
  those of all earlier ones.\<close>

lemma recovery_fires_at_new_minimum:
  assumes "distinct os" "0 \<le> now" "i < length os"
  shows "reports now target os [] ! i = (if 0 < i \<and> (\<forall>j < i. os ! i < os ! j) then [OnDead target] else [])"
proof -
  have set: "set (take (Suc i) os) = insert (os ! i) (set (take i os))"
    using assms(3) by (simp add: take_Suc_conv_app_nth)
  have "os ! i \<notin> set (take i os)"
    using assms(1,3) by (auto simp: in_set_conv_nth nth_eq_iff_index_eq)
  moreover have "card (set (take i os)) = i" using assms(1,3) by (simp add: distinct_card)
  ultimately have card: "2 \<le> card (set (take (Suc i) os)) \<longleftrightarrow> 0 < i" unfolding set by auto
  have "Min (set (take (Suc i) os)) = os ! i \<longleftrightarrow> (\<forall>x \<in> set (take i os). os ! i \<le> x)"
    unfolding set by (auto simp: Min_eq_iff min_def)
  also have "\<dots> \<longleftrightarrow> (\<forall>j < i. os ! i < os ! j)"
  proof -
    have take: "set (take i os) = (!) os ` {..<i}" using assms(3) by (simp add: nth_image [symmetric] lessThan_atLeast0)
    show ?thesis using \<open>os ! i \<notin> set (take i os)\<close> unfolding take by (force simp: order_le_less)
  qed
  finally show ?thesis
    using reports_result [OF assms(2), of target os "[]"] assms(3) card by (simp add: dead_rows_def)
qed

lemma recovery_fires_at_new_minimum_example:
  "reports 0 ''n9'' [''n2'', ''n1''] [] ! 1 = [OnDead ''n9'']"
proof -
  have "''n1'' < ''n2''" by (simp add: less_char_def)
  thus ?thesis using recovery_fires_at_new_minimum [of "[''n2'', ''n1'']" 0 1 "''n9''"] by simp
qed

text \<open>C37: The rule misses its purpose.  However many observers of a dead node report
  it within the window, when they report in ascending order of their ids none of
  them triggers the recovery, and when they report in descending order all of
  them but the first do.\<close>

theorem recovery_missed_or_duplicated:
  assumes "0 \<le> now" "distinct os" "sorted os"
  shows "reports now target os [] = replicate (length os) []
    \<and> reports now target (rev os) [] = take (length os) ([] # replicate (length os - 1) [OnDead target])"
proof -
  have len: "length (reports now target os' []) = length os'" for os'
    using reports_result [OF assms(1), of target os' "[]"] by (simp add: dead_rows_def)
  have less: "os ! i < os ! j" if "i < j" "j < length os" for i j
    using that assms(2,3) by (simp add: sorted_nth_mono order_less_le nth_eq_iff_index_eq)
  have asc: "reports now target os [] ! i = []" if "i < length os" for i
    using that recovery_fires_at_new_minimum [OF assms(2,1) that, of target] less [of 0 i] by (auto dest: less_asym)
  have desc: "reports now target (rev os) [] ! i = (if 0 < i then [OnDead target] else [])" if "i < length os" for i
    using that recovery_fires_at_new_minimum [of "rev os" now i target] assms(1,2) by (simp add: rev_nth less)
  show ?thesis
  proof
    show "reports now target os [] = replicate (length os) []"
      by (rule nth_equalityI) (simp_all add: len asc)
    show "reports now target (rev os) [] = take (length os) ([] # replicate (length os - 1) [OnDead target])"
      by (rule nth_equalityI) (auto simp: len desc nth_Cons' min_def)
  qed
qed

theorem recovery_missed_or_duplicated_witness:
  "reports 0 ''n9'' [''n1'', ''n2'', ''n3''] [] = [[], [], []]
   \<and> reports 0 ''n9'' [''n3'', ''n2'', ''n1''] [] = [[], [OnDead ''n9''], [OnDead ''n9'']]"
proof -
  have "''n1'' < ''n2''" "''n2'' < ''n3''" "''n1'' < ''n3''" by (simp_all add: less_char_def)
  thus ?thesis using recovery_missed_or_duplicated [of 0 "[''n1'', ''n2'', ''n3'']" "''n9''"]
    by (simp add: numeral_3_eq_3 less_imp_le)
qed

text \<open>C21: The ring spreads the probing evenly: with distinct ids and \<open>k\<close> neighbours,
  \<open>k\<close> not negative, every node is
  probed by exactly \<open>min k (n - 1)\<close> others, no node probes itself, and a node
  probes distinct peers.\<close>

theorem ring_coverage:
  assumes "distinct (map ID nodes)" "x \<in> set nodes"
  shows "card {obs \<in> set nodes. x \<in> set (RingNeighbors nodes (ID obs) k)} = min (nat k) (length nodes - 1)
    \<and> x \<notin> set (RingNeighbors nodes (ID x) k) \<and> distinct (RingNeighbors nodes (ID x) k)"
proof (cases "2 \<le> length nodes")
  case True
  define ring where "ring = sort_key ID nodes"
  have ring: "distinct ring" "length ring = length nodes" "x \<in> set ring"
    using assms by (auto simp: distinct_map ring_def)
  then obtain j where j: "j < length nodes" "x = ring ! j" by (metis in_set_conv_nth)
  have c: "ring_count (length nodes) k < length nodes" using True by (auto simp: ring_count_def)
  note nb = RingNeighbors_ring [OF assms(1) True j(1) ring_def, of k]
  have "(j + d) mod length nodes \<noteq> j" if "1 \<le> d" "d \<le> ring_count (length nodes) k" for d
    using that c j(1) by (auto simp: ring_mod)
  moreover have "(j + d) mod length nodes < length nodes" for d using True by (intro mod_less_divisor) linarith
  ultimately have "ring ! ((j + d) mod length nodes) \<noteq> ring ! j" if "d \<in> {1..<ring_count (length nodes) k + 1}" for d
    using that ring(1,2) j(1) nth_eq_iff_index_eq [of ring "(j + d) mod length nodes" j] by simp
  hence "ring ! j \<notin> (\<lambda>d. ring ! ((j + d) mod length nodes)) ` {1..<ring_count (length nodes) k + 1}" by force
  hence "x \<notin> set (RingNeighbors nodes (ID x) k)" unfolding j(2) nb by (simp only: set_map set_upt) simp
  moreover have "inj_on (\<lambda>d. ring ! ((j + d) mod length nodes)) {1..<ring_count (length nodes) k + 1}"
    using ring(1,2) c j(1) by (intro inj_onI) (auto simp: nth_eq_iff_index_eq ring_mod split: if_splits)
  hence "distinct (RingNeighbors nodes (ID x) k)" unfolding j(2) nb by (simp add: distinct_map del: upt_Suc)
  ultimately show ?thesis
    using ring_observers [OF assms(1) True j(1) ring_def, of k] by (simp add: j(2) ring_count_def)
next
  case False
  thus ?thesis by (simp add: RingNeighbors_def)
qed

theorem ring_coverage_witness:
  "card {obs \<in> set [\<lparr>ID = ''a'', InternalIP = ''''\<rparr>, \<lparr>ID = ''b'', InternalIP = ''''\<rparr>, \<lparr>ID = ''c'', InternalIP = ''''\<rparr>].
     \<lparr>ID = ''b'', InternalIP = ''''\<rparr>
       \<in> set (RingNeighbors [\<lparr>ID = ''a'', InternalIP = ''''\<rparr>, \<lparr>ID = ''b'', InternalIP = ''''\<rparr>, \<lparr>ID = ''c'', InternalIP = ''''\<rparr>] (ID obs) 3)} = 2"
  using ring_coverage [of "[\<lparr>ID = ''a'', InternalIP = ''''\<rparr>, \<lparr>ID = ''b'', InternalIP = ''''\<rparr>, \<lparr>ID = ''c'', InternalIP = ''''\<rparr>]"
      "\<lparr>ID = ''b'', InternalIP = ''''\<rparr>" 3] by simp

end
