(* ===== verification/Port_Allocation.thy ===== *)
theory Port_Allocation
  imports Go_Strings
begin

text \<open>
  Allocation of ports on nodes: the five-port blocks of namespace services
  (\<^verbatim>\<open>core/pkg/namespace/port_allocator.go\<close>) and the single ports of
  deployments (\<^verbatim>\<open>core/pkg/deployments/port_allocator.go\<close>).

  A table is a list of rows.  An insertion is refused when it violates a
  \<^verbatim>\<open>UNIQUE\<close> constraint of the schema (\<^verbatim>\<open>core/migrations\<close>), with an error text
  that contains \<^verbatim>\<open>UNIQUE\<close>.  Whether the database answers a query, and other
  insertion failures, are arguments.  An attempt is split at the database into
  reading the allocated ports and inserting the chosen ones, as other nodes may
  write to the table in between.
\<close>

section \<open>Errors\<close>

record ClusterError =
  Message :: string
  Cause :: "string option"

definition Error_text :: "ClusterError \<Rightarrow> string" where
  "Error_text e = (case Cause e of None \<Rightarrow> Message e | Some c \<Rightarrow> Message e @ '': '' @ c)"

definition ErrNoPortsAvailable :: ClusterError where
  "ErrNoPortsAvailable = \<lparr>Message = ''no ports available on node'', Cause = None\<rparr>"

definition ErrNodeAtCapacity :: ClusterError where
  "ErrNodeAtCapacity = \<lparr>Message = ''node has reached maximum namespace instances'', Cause = None\<rparr>"

definition isConflictError :: "ClusterError \<Rightarrow> bool" where
  "isConflictError e \<longleftrightarrow> contains_str (Error_text e) ''UNIQUE'' \<or> contains_str (Error_text e) ''constraint''
     \<or> contains_str (Error_text e) ''conflict''"

definition unique_violation :: string where
  "unique_violation = ''UNIQUE constraint failed''"

section \<open>Scanning a range for a free port\<close>

function scan_ports :: "int \<Rightarrow> int \<Rightarrow> int \<Rightarrow> int list \<Rightarrow> int option" where
  "scan_ports start upper step used =
     (if start \<le> upper \<and> 0 < step
      then if start \<notin> set used then Some start else scan_ports (start + step) upper step used
      else None)"
  by pat_completeness auto
termination
  by (relation "measure (\<lambda>(start, upper, step, used). nat (upper - start + 1))") auto

declare scan_ports.simps [simp del]

lemma scan_ports_Some:
  assumes "scan_ports start upper step used = Some p"
  shows "p \<notin> set used \<and> start \<le> p \<and> p \<le> upper \<and> (p - start) mod step = 0"
  using assms
proof (induction start upper step used rule: scan_ports.induct)
  case (1 start upper step used)
  show ?case
  proof (cases "start \<in> set used")
    case True
    hence "scan_ports (start + step) upper step used = Some p" "start \<le> upper" "0 < step"
      using "1.prems" by (simp_all add: scan_ports.simps [of start] split: if_splits)
    hence ih: "p \<notin> set used \<and> start + step \<le> p \<and> p \<le> upper \<and> (p - (start + step)) mod step = 0"
      using "1.IH" True by blast
    moreover have "(p - (start + step)) mod step = (p - start) mod step"
      by (metis add_diff_cancel_right' diff_diff_eq mod_add_self2 diff_add_cancel)
    ultimately show ?thesis using \<open>0 < step\<close> by auto
  next
    case False
    thus ?thesis using "1.prems" by (simp add: scan_ports.simps [of start] split: if_splits)
  qed
qed

lemma scan_ports_None:
  assumes "scan_ports start upper step used = None" "0 < step" "start + int i * step \<le> upper"
  shows "start + int i * step \<in> set used"
  using assms
proof (induction start upper step used arbitrary: i rule: scan_ports.induct)
  case (1 start upper step used)
  have le: "start \<le> upper" using "1.prems" mult_nonneg_nonneg [of "int i" step] by linarith
  hence used: "start \<in> set used" "scan_ports (start + step) upper step used = None"
    using "1.prems" by (simp_all add: scan_ports.simps [of start] split: if_splits)
  show ?case
  proof (cases i)
    case 0
    thus ?thesis using used(1) by simp
  next
    case (Suc j)
    have eq: "start + step + int j * step = start + int i * step" by (simp add: Suc algebra_simps)
    have "start + step + int j * step \<le> upper" unfolding eq by (rule "1.prems"(3))
    hence "start + step + int j * step \<in> set used" using "1.IH" [of j] le used "1.prems"(2) by blast
    thus ?thesis unfolding eq .
  qed
qed

text \<open>A range with room for more blocks than are used has a free one.\<close>

lemma scan_ports_finds:
  assumes "0 < step" "length used < n" "start + (int n - 1) * step \<le> upper"
  shows "\<exists>p. scan_ports start upper step used = Some p"
proof (rule ccontr)
  assume "\<not> ?thesis"
  hence none: "scan_ports start upper step used = None" by simp
  have "start + int i * step \<le> upper" if "i < n" for i
    using assms(1,3) that mult_right_mono [of "int i" "int n - 1" step] by linarith
  hence "(\<lambda>i. start + int i * step) ` {..<n} \<subseteq> set used"
    using scan_ports_None [OF none assms(1)] by auto
  moreover have "card ((\<lambda>i. start + int i * step) ` {..<n}) = n"
    using assms(1) by (subst card_image) (auto simp: inj_on_def)
  ultimately have "n \<le> card (set used)" by (metis List.finite_set card_mono)
  thus False using assms(2) card_length [of used] by linarith
qed

section \<open>namespace/port\_allocator.go\<close>

definition NamespacePortRangeStart :: int where "NamespacePortRangeStart = 10000"
definition NamespacePortRangeEnd :: int where "NamespacePortRangeEnd = 10099"
definition PortsPerNamespace :: int where "PortsPerNamespace = 5"
definition MaxNamespacesPerNode :: int where
  "MaxNamespacesPerNode = (NamespacePortRangeEnd - NamespacePortRangeStart + 1) div PortsPerNamespace"

record PortBlock =
  pb_NodeID :: string
  pb_ClusterID :: string
  PortStart :: int
  PortEnd :: int
  RQLiteHTTPPort :: int
  RQLiteRaftPort :: int
  OlricHTTPPort :: int
  OlricMemberlistPort :: int
  GatewayHTTPPort :: int

record dns_node =
  dn_id :: string
  dn_ip :: string

record ns_db =
  db_nodes :: "dns_node list"
  db_blocks :: "PortBlock list"

datatype ns_query = QueryNodeIP | QueryIPCount | QueryAllocated | QueryBlock | QueryCount | ExecDelete

definition GetPortBlock :: "(ns_query \<Rightarrow> bool) \<Rightarrow> ns_db \<Rightarrow> string \<Rightarrow> string \<Rightarrow> (ClusterError, PortBlock option) result" where
  "GetPortBlock answers db clusterID nodeID =
     (if \<not> answers QueryBlock then Inl \<lparr>Message = ''failed to query port block'', Cause = Some ''query failed''\<rparr>
      else Inr (find (\<lambda>b. pb_ClusterID b = clusterID \<and> pb_NodeID b = nodeID) (db_blocks db)))"

definition GetAllPortBlocks :: "(ns_query \<Rightarrow> bool) \<Rightarrow> ns_db \<Rightarrow> string \<Rightarrow> (ClusterError, PortBlock list) result" where
  "GetAllPortBlocks answers db clusterID =
     (if \<not> answers QueryBlock then Inl \<lparr>Message = ''failed to query port blocks'', Cause = Some ''query failed''\<rparr>
      else Inr (sort_key PortStart (filter (\<lambda>b. pb_ClusterID b = clusterID) (db_blocks db))))"

text \<open>The starts of the blocks that are taken on the node, or on all nodes with
  its address if several nodes share it.\<close>

definition node_ip :: "(ns_query \<Rightarrow> bool) \<Rightarrow> ns_db \<Rightarrow> string \<Rightarrow> string" where
  "node_ip answers db nodeID =
     (if \<not> answers QueryNodeIP then ''''
      else case find (\<lambda>n. dn_id n = nodeID) (db_nodes db) of None \<Rightarrow> '''' | Some n \<Rightarrow> dn_ip n)"

definition shares_ip :: "ns_db \<Rightarrow> string \<Rightarrow> PortBlock \<Rightarrow> bool" where
  "shares_ip db ip b \<longleftrightarrow> (\<exists>n \<in> set (db_nodes db). dn_id n = pb_NodeID b \<and> dn_ip n = ip)"

definition allocated_starts :: "(ns_query \<Rightarrow> bool) \<Rightarrow> ns_db \<Rightarrow> string \<Rightarrow> int list" where
  "allocated_starts answers db nodeID =
     (let ip = node_ip answers db nodeID
      in if ip \<noteq> '''' \<and> answers QueryIPCount \<and> 1 < card (dn_id ` {n \<in> set (db_nodes db). dn_ip n = ip})
         then map PortStart (filter (shares_ip db ip) (db_blocks db))
         else map PortStart (filter (\<lambda>b. pb_NodeID b = nodeID) (db_blocks db)))"

definition choose_block :: "(ns_query \<Rightarrow> bool) \<Rightarrow> ns_db \<Rightarrow> string \<Rightarrow> (ClusterError, int) result" where
  "choose_block answers db nodeID =
     (if \<not> answers QueryAllocated then Inl \<lparr>Message = ''failed to query allocated ports'', Cause = Some ''query failed''\<rparr>
      else let used = allocated_starts answers db nodeID
           in if MaxNamespacesPerNode \<le> int (length used) then Inl ErrNodeAtCapacity
              else case scan_ports NamespacePortRangeStart (NamespacePortRangeEnd - PortsPerNamespace + 1) PortsPerNamespace used of
                     None \<Rightarrow> Inl ErrNoPortsAvailable
                   | Some start \<Rightarrow> Inr start)"

definition block_at :: "string \<Rightarrow> string \<Rightarrow> int \<Rightarrow> PortBlock" where
  "block_at nodeID clusterID portStart =
     \<lparr>pb_NodeID = nodeID, pb_ClusterID = clusterID, PortStart = portStart, PortEnd = portStart + PortsPerNamespace - 1,
      RQLiteHTTPPort = portStart + 0, RQLiteRaftPort = portStart + 1, OlricHTTPPort = portStart + 2,
      OlricMemberlistPort = portStart + 3, GatewayHTTPPort = portStart + 4\<rparr>"

text \<open>The insertion, with the two \<^verbatim>\<open>UNIQUE\<close> constraints of
  \<^verbatim>\<open>namespace_port_allocations\<close>.\<close>

definition insert_block :: "string option \<Rightarrow> PortBlock \<Rightarrow> ns_db \<Rightarrow> (ClusterError, ns_db) result" where
  "insert_block failure b db =
     (case failure of
        Some cause \<Rightarrow> Inl \<lparr>Message = ''failed to insert port allocation'', Cause = Some cause\<rparr>
      | None \<Rightarrow>
          if (pb_NodeID b, PortStart b) \<in> set (map (\<lambda>r. (pb_NodeID r, PortStart r)) (db_blocks db))
             \<or> (pb_ClusterID b, pb_NodeID b) \<in> set (map (\<lambda>r. (pb_ClusterID r, pb_NodeID r)) (db_blocks db))
          then Inl \<lparr>Message = ''failed to insert port allocation'', Cause = Some unique_violation\<rparr>
          else Inr (db\<lparr>db_blocks := db_blocks db @ [b]\<rparr>))"

text \<open>One attempt, with the tables as they are when it reads and when it writes.\<close>

definition tryAllocatePortBlock :: "(ns_query \<Rightarrow> bool) \<Rightarrow> string option \<Rightarrow> string \<Rightarrow> string \<Rightarrow> ns_db \<Rightarrow> ns_db
    \<Rightarrow> (ClusterError, PortBlock \<times> ns_db) result" where
  "tryAllocatePortBlock answers failure nodeID clusterID db_read db_write =
     result_bind (choose_block answers db_read nodeID)
       (\<lambda>start. result_bind (insert_block failure (block_at nodeID clusterID start) db_write)
          (\<lambda>db'. Inr (block_at nodeID clusterID start, db')))"

text \<open>The retry loop.  \<open>world i\<close> gives the tables the \<open>i\<close>-th attempt reads and writes,
  and the failures of the database it meets.\<close>

type_synonym ns_world = "nat \<Rightarrow> (ns_query \<Rightarrow> bool) \<times> string option \<times> ns_db \<times> ns_db"

fun allocate_retries :: "nat \<Rightarrow> nat \<Rightarrow> ns_world \<Rightarrow> string \<Rightarrow> string \<Rightarrow> (ClusterError, PortBlock \<times> ns_db option) result" where
  "allocate_retries 0 attempt world nodeID clusterID =
     Inl \<lparr>Message = ''failed to allocate port block after 10 retries'', Cause = None\<rparr>"
| "allocate_retries (Suc fuel) attempt world nodeID clusterID =
     (case world attempt of (answers, failure, db_read, db_write) \<Rightarrow>
        (case tryAllocatePortBlock answers failure nodeID clusterID db_read db_write of
           Inr (b, db') \<Rightarrow> Inr (b, Some db')
         | Inl e \<Rightarrow> if isConflictError e then allocate_retries fuel (attempt + 1) world nodeID clusterID else Inl e))"

definition AllocatePortBlock :: "(ns_query \<Rightarrow> bool) \<Rightarrow> ns_db \<Rightarrow> ns_world \<Rightarrow> string \<Rightarrow> string
    \<Rightarrow> (ClusterError, PortBlock \<times> ns_db option) result" where
  "AllocatePortBlock answers db world nodeID clusterID =
     (case GetPortBlock answers db clusterID nodeID of
        Inr (Some b) \<Rightarrow> Inr (b, None)
      | _ \<Rightarrow> allocate_retries 10 0 world nodeID clusterID)"

definition DeallocatePortBlock :: "(ns_query \<Rightarrow> bool) \<Rightarrow> string \<Rightarrow> string \<Rightarrow> ns_db \<Rightarrow> (ClusterError, ns_db) result" where
  "DeallocatePortBlock answers clusterID nodeID db =
     (if \<not> answers ExecDelete then Inl \<lparr>Message = ''failed to deallocate port block'', Cause = Some ''exec failed''\<rparr>
      else Inr (db\<lparr>db_blocks := filter (\<lambda>b. \<not> (pb_ClusterID b = clusterID \<and> pb_NodeID b = nodeID)) (db_blocks db)\<rparr>))"

definition DeallocateAllPortBlocks :: "(ns_query \<Rightarrow> bool) \<Rightarrow> string \<Rightarrow> ns_db \<Rightarrow> (ClusterError, ns_db) result" where
  "DeallocateAllPortBlocks answers clusterID db =
     (if \<not> answers ExecDelete then Inl \<lparr>Message = ''failed to deallocate all port blocks'', Cause = Some ''exec failed''\<rparr>
      else Inr (db\<lparr>db_blocks := filter (\<lambda>b. pb_ClusterID b \<noteq> clusterID) (db_blocks db)\<rparr>))"

definition GetNodeAllocationCount :: "(ns_query \<Rightarrow> bool) \<Rightarrow> ns_db \<Rightarrow> string \<Rightarrow> (ClusterError, int) result" where
  "GetNodeAllocationCount answers db nodeID =
     (if \<not> answers QueryCount then Inl \<lparr>Message = ''failed to count allocated port blocks'', Cause = Some ''query failed''\<rparr>
      else Inr (int (length (filter (\<lambda>b. pb_NodeID b = nodeID) (db_blocks db)))))"

definition GetNodeCapacity :: "(ns_query \<Rightarrow> bool) \<Rightarrow> ns_db \<Rightarrow> string \<Rightarrow> (ClusterError, int) result" where
  "GetNodeCapacity answers db nodeID =
     result_bind (GetNodeAllocationCount answers db nodeID)
       (\<lambda>allocated. let available = MaxNamespacesPerNode - allocated in Inr (if available < 0 then 0 else available))"

section \<open>deployments/port\_allocator.go\<close>

definition UserMinPort :: int where "UserMinPort = 10100"
definition MaxPort :: int where "MaxPort = 19999"

record port_row =
  pr_node :: string
  pr_port :: int
  pr_deployment :: string

definition choose_port :: "bool \<Rightarrow> port_row list \<Rightarrow> string \<Rightarrow> (ClusterError, int) result" where
  "choose_port answers rows nodeID =
     (if \<not> answers then Inl \<lparr>Message = ''failed to query allocated ports'', Cause = Some ''query failed''\<rparr>
      else case scan_ports UserMinPort MaxPort 1 (map pr_port (filter (\<lambda>r. pr_node r = nodeID) rows)) of
             None \<Rightarrow> Inl ErrNoPortsAvailable
           | Some port \<Rightarrow> Inr port)"

text \<open>The insertion, with the primary key of \<^verbatim>\<open>port_allocations\<close>.\<close>

definition insert_port :: "string option \<Rightarrow> port_row \<Rightarrow> port_row list \<Rightarrow> (ClusterError, port_row list) result" where
  "insert_port failure r rows =
     (case failure of
        Some cause \<Rightarrow> Inl \<lparr>Message = ''failed to insert port allocation'', Cause = Some cause\<rparr>
      | None \<Rightarrow>
          if (pr_node r, pr_port r) \<in> set (map (\<lambda>r. (pr_node r, pr_port r)) rows)
          then Inl \<lparr>Message = ''failed to insert port allocation'', Cause = Some unique_violation\<rparr>
          else Inr (rows @ [r]))"

definition tryAllocatePort :: "bool \<Rightarrow> string option \<Rightarrow> string \<Rightarrow> string \<Rightarrow> port_row list \<Rightarrow> port_row list
    \<Rightarrow> (ClusterError, int \<times> port_row list) result" where
  "tryAllocatePort answers failure nodeID deploymentID read_rows write_rows =
     result_bind (choose_port answers read_rows nodeID)
       (\<lambda>port. result_bind (insert_port failure \<lparr>pr_node = nodeID, pr_port = port, pr_deployment = deploymentID\<rparr> write_rows)
          (\<lambda>rows'. Inr (port, rows')))"

fun AllocatePort_loop :: "nat \<Rightarrow> nat \<Rightarrow> (nat \<Rightarrow> bool \<times> string option \<times> port_row list \<times> port_row list) \<Rightarrow> string \<Rightarrow> string
    \<Rightarrow> (ClusterError, int \<times> port_row list) result" where
  "AllocatePort_loop 0 attempt world nodeID deploymentID =
     Inl \<lparr>Message = ''failed to allocate port after 10 retries'', Cause = None\<rparr>"
| "AllocatePort_loop (Suc fuel) attempt world nodeID deploymentID =
     (case world attempt of (answers, failure, read_rows, write_rows) \<Rightarrow>
        (case tryAllocatePort answers failure nodeID deploymentID read_rows write_rows of
           Inr r \<Rightarrow> Inr r
         | Inl e \<Rightarrow> if isConflictError e then AllocatePort_loop fuel (attempt + 1) world nodeID deploymentID else Inl e))"

definition AllocatePort :: "(nat \<Rightarrow> bool \<times> string option \<times> port_row list \<times> port_row list) \<Rightarrow> string \<Rightarrow> string
    \<Rightarrow> (ClusterError, int \<times> port_row list) result" where
  "AllocatePort world nodeID deploymentID = AllocatePort_loop 10 0 world nodeID deploymentID"

definition DeallocatePort :: "bool \<Rightarrow> string \<Rightarrow> port_row list \<Rightarrow> (ClusterError, port_row list) result" where
  "DeallocatePort answers deploymentID rows =
     (if \<not> answers then Inl \<lparr>Message = ''failed to deallocate port'', Cause = Some ''exec failed''\<rparr>
      else Inr (filter (\<lambda>r. pr_deployment r \<noteq> deploymentID) rows))"

definition GetAllocatedPort :: "bool \<Rightarrow> string \<Rightarrow> port_row list \<Rightarrow> (ClusterError, int \<times> string) result" where
  "GetAllocatedPort answers deploymentID rows =
     (if \<not> answers then Inl \<lparr>Message = ''failed to query allocated port'', Cause = Some ''query failed''\<rparr>
      else case find (\<lambda>r. pr_deployment r = deploymentID) rows of
             None \<Rightarrow> Inl \<lparr>Message = ''no port allocated for deployment'', Cause = None\<rparr>
           | Some r \<Rightarrow> Inr (pr_port r, pr_node r))"

definition GetNodePortCount :: "bool \<Rightarrow> string \<Rightarrow> port_row list \<Rightarrow> (ClusterError, int) result" where
  "GetNodePortCount answers nodeID rows =
     (if \<not> answers then Inl \<lparr>Message = ''failed to count allocated ports'', Cause = Some ''query failed''\<rparr>
      else Inr (int (length (filter (\<lambda>r. pr_node r = nodeID) rows))))"

definition GetAvailablePortCount :: "bool \<Rightarrow> string \<Rightarrow> port_row list \<Rightarrow> (ClusterError, int) result" where
  "GetAvailablePortCount answers nodeID rows =
     result_bind (GetNodePortCount answers nodeID rows)
       (\<lambda>allocated. let available = MaxPort - UserMinPort + 1 - allocated in Inr (if available < 0 then 0 else available))"

section \<open>Interleavings\<close>

text \<open>The contract of a table with a unique key: what the allocators rely on when
  their attempts interleave.\<close>

locale keyed_table =
  fixes key :: "'r \<Rightarrow> 'k"
    and put :: "'r \<Rightarrow> 'r list \<Rightarrow> ('e, 'r list) result"
  assumes put_appends: "put r rows = Inr rows' \<Longrightarrow> rows' = rows @ [r]"
    and put_fresh: "put r rows = Inr rows' \<Longrightarrow> key r \<notin> key ` set rows"
begin

lemma put_distinct: "put r rows = Inr rows' \<Longrightarrow> distinct (map key rows) \<Longrightarrow> distinct (map key rows')"
  using put_appends [of r rows rows'] put_fresh [of r rows rows'] by auto

lemma delete_distinct: "distinct (map key rows) \<Longrightarrow> distinct (map key (filter P rows))"
  by (simp add: distinct_map_filter)

lemma put_all:
  "put r rows = Inr rows' \<Longrightarrow> (\<And>x. x \<in> set rows \<Longrightarrow> Q x) \<Longrightarrow> Q r \<Longrightarrow> x \<in> set rows' \<Longrightarrow> Q x"
  using put_appends [of r rows rows'] by auto

lemma keys_identify:
  "distinct (map key rows) \<Longrightarrow> x \<in> set rows \<Longrightarrow> y \<in> set rows \<Longrightarrow> key x = key y \<Longrightarrow> x = y"
  by (simp add: distinct_map inj_on_def)

end

interpretation deployment_ports: keyed_table "\<lambda>r. (pr_node r, pr_port r)" "insert_port None"
  by unfold_locales (auto simp: insert_port_def split: if_splits)

definition insert_block_rows :: "ns_db \<Rightarrow> PortBlock \<Rightarrow> PortBlock list \<Rightarrow> (ClusterError, PortBlock list) result" where
  "insert_block_rows db b rows = result_bind (insert_block None b (db\<lparr>db_blocks := rows\<rparr>)) (\<lambda>db'. Inr (db_blocks db'))"

interpretation ns_blocks: keyed_table "\<lambda>b. (pb_NodeID b, PortStart b)" "insert_block_rows db" for db
  by unfold_locales (auto simp: insert_block_rows_def insert_block_def split: if_splits)

interpretation ns_clusters: keyed_table "\<lambda>b. (pb_ClusterID b, pb_NodeID b)" "insert_block_rows db" for db
  by unfold_locales (auto simp: insert_block_rows_def insert_block_def split: if_splits)

text \<open>Steps of any number of concurrent allocations of deployment ports: a state
  is the table and the ports chosen but not yet inserted.\<close>

inductive port_step :: "port_row list \<times> port_row set \<Rightarrow> port_row list \<times> port_row set \<Rightarrow> bool" where
  choose: "choose_port True rows nodeID = Inr port
    \<Longrightarrow> port_step (rows, pend) (rows, insert \<lparr>pr_node = nodeID, pr_port = port, pr_deployment = deploymentID\<rparr> pend)"
| inserted: "r \<in> pend \<Longrightarrow> insert_port None r rows = Inr rows' \<Longrightarrow> port_step (rows, pend) (rows', pend - {r})"
| refused: "r \<in> pend \<Longrightarrow> insert_port failure r rows = Inl e \<Longrightarrow> port_step (rows, pend) (rows, pend - {r})"
| deallocate: "DeallocatePort True deploymentID rows = Inr rows' \<Longrightarrow> port_step (rows, pend) (rows', pend)"

inductive block_step :: "ns_db \<times> PortBlock set \<Rightarrow> ns_db \<times> PortBlock set \<Rightarrow> bool" where
  choose: "choose_block answers db nodeID = Inr start
    \<Longrightarrow> block_step (db, pend) (db, insert (block_at nodeID clusterID start) pend)"
| inserted: "b \<in> pend \<Longrightarrow> insert_block None b db = Inr db' \<Longrightarrow> block_step (db, pend) (db', pend - {b})"
| refused: "b \<in> pend \<Longrightarrow> insert_block failure b db = Inl e \<Longrightarrow> block_step (db, pend) (db, pend - {b})"
| deallocate: "DeallocatePortBlock answers clusterID nodeID db = Inr db' \<Longrightarrow> block_step (db, pend) (db', pend)"
| deallocate_all: "DeallocateAllPortBlocks answers clusterID db = Inr db' \<Longrightarrow> block_step (db, pend) (db', pend)"
| nodes_change: "block_step (db, pend) (db\<lparr>db_nodes := ns\<rparr>, pend)"


section \<open>Invariants\<close>

definition block_start_ok :: "int \<Rightarrow> bool" where
  "block_start_ok s \<longleftrightarrow> 10000 \<le> s \<and> s \<le> 10095 \<and> (s - 10000) mod 5 = 0"

definition block_ok :: "PortBlock \<Rightarrow> bool" where
  "block_ok b \<longleftrightarrow> (\<exists>n c s. b = block_at n c s \<and> block_start_ok s)"

lemmas ns_constants = NamespacePortRangeStart_def NamespacePortRangeEnd_def PortsPerNamespace_def MaxNamespacesPerNode_def

lemma choose_block_ok: "choose_block answers db nodeID = Inr start \<Longrightarrow> block_start_ok start"
  using scan_ports_Some [of 10000 10095 5]
  by (auto simp: choose_block_def ns_constants block_start_ok_def Let_def split: if_splits option.splits)

lemma block_at_ok: "block_start_ok s \<Longrightarrow> block_ok (block_at n c s)"
  by (auto simp: block_ok_def)

lemma block_ok_start: "block_ok b \<Longrightarrow> block_start_ok (PortStart b)"
  by (auto simp: block_ok_def block_at_def)

definition blocks_inv :: "ns_db \<times> PortBlock set \<Rightarrow> bool" where
  "blocks_inv st \<longleftrightarrow> (\<forall>b \<in> set (db_blocks (fst st)) \<union> snd st. block_ok b)
     \<and> distinct (map (\<lambda>b. (pb_NodeID b, PortStart b)) (db_blocks (fst st)))
     \<and> distinct (map (\<lambda>b. (pb_ClusterID b, pb_NodeID b)) (db_blocks (fst st)))"

lemma insert_block_via_rows:
  "insert_block None b db = Inr db' \<Longrightarrow> insert_block_rows db b (db_blocks db) = Inr (db_blocks db')"
  by (auto simp: insert_block_rows_def insert_block_def split: if_splits)

lemma block_step_inv [inv_intros]: "block_step st st' \<Longrightarrow> blocks_inv st \<Longrightarrow> blocks_inv st'"
proof (induction rule: block_step.induct)
  case (choose answers db nodeID start pend clusterID)
  thus ?case using choose_block_ok block_at_ok by (auto simp: blocks_inv_def)
next
  case (inserted b pend db db')
  note put = insert_block_via_rows [OF inserted.hyps(2)]
  show ?case using inserted ns_blocks.put_distinct [OF put] ns_clusters.put_distinct [OF put] ns_blocks.put_all [OF put, of block_ok]
    by (auto simp: blocks_inv_def)
next
  case (deallocate answers clusterID nodeID db db' pend)
  thus ?case using ns_blocks.delete_distinct ns_clusters.delete_distinct
    by (auto simp: blocks_inv_def DeallocatePortBlock_def split: if_splits)
next
  case (deallocate_all answers clusterID db db' pend)
  thus ?case using ns_blocks.delete_distinct ns_clusters.delete_distinct
    by (auto simp: blocks_inv_def DeallocateAllPortBlocks_def split: if_splits)
qed (auto simp: blocks_inv_def)

lemma blocks_reachable_inv:
  assumes "block_step\<^sup>*\<^sup>* (\<lparr>db_nodes = ns, db_blocks = []\<rparr>, {}) st"
  shows "blocks_inv st"
  using assms by (induction rule: rtranclp_induct) (auto simp: blocks_inv_def [of "(\<lparr>db_nodes = ns, db_blocks = []\<rparr>, {})"] intro: block_step_inv)

text \<open>Aligned blocks with different starts do not overlap.\<close>

lemma aligned_ranges_disjoint:
  fixes s t base k :: int
  assumes "(s - base) mod k = 0" "(t - base) mod k = 0" "s \<noteq> t" "0 < k"
  shows "{s..s + k - 1} \<inter> {t..t + k - 1} = {}"
proof -
  obtain i j where ij: "s = base + k * i" "t = base + k * j"
    using assms(1,2) by (metis diff_add_cancel add.commute mod_0_imp_dvd dvdE)
  hence "i + 1 \<le> j \<or> j + 1 \<le> i" using assms(3) by auto
  hence "k * i + k \<le> k * j \<or> k * j + k \<le> k * i"
    using mult_left_mono [of "i + 1" j k] mult_left_mono [of "j + 1" i k] assms(4) by (auto simp: algebra_simps)
  thus ?thesis using ij by auto
qed

lemma aligned_blocks_disjoint:
  "block_start_ok s \<Longrightarrow> block_start_ok t \<Longrightarrow> s \<noteq> t \<Longrightarrow> {s..s + 4} \<inter> {t..t + 4} = {}"
  using aligned_ranges_disjoint [of s 10000 5 t] by (auto simp: block_start_ok_def)

lemma block_starts_finite: "{s. block_start_ok s} = (\<lambda>i. 10000 + 5 * int i) ` {..<20}"
proof
  show "{s. block_start_ok s} \<subseteq> (\<lambda>i. 10000 + 5 * int i) ` {..<20}"
  proof
    fix s assume s: "s \<in> {s. block_start_ok s}"
    hence "s = 10000 + 5 * int (nat ((s - 10000) div 5))" by (auto simp: block_start_ok_def)
    moreover have "nat ((s - 10000) div 5) < 20" using s by (auto simp: block_start_ok_def)
    ultimately show "s \<in> (\<lambda>i. 10000 + 5 * int i) ` {..<20}" by blast
  qed
qed (auto simp: block_start_ok_def)

lemma blocks_per_node:
  assumes "blocks_inv st"
  shows "length (filter (\<lambda>b. pb_NodeID b = n) (db_blocks (fst st))) \<le> 20"
proof -
  let ?bs = "filter (\<lambda>b. pb_NodeID b = n) (db_blocks (fst st))"
  have "distinct (map (\<lambda>b. (pb_NodeID b, PortStart b)) ?bs)"
    using assms by (intro ns_blocks.delete_distinct) (simp add: blocks_inv_def)
  hence "distinct (map PortStart ?bs)" by (auto simp: distinct_map inj_on_def)
  hence "length ?bs = card (set (map PortStart ?bs))" by (metis distinct_card length_map)
  also have "\<dots> \<le> card {s. block_start_ok s}"
  proof (rule card_mono)
    show "finite {s. block_start_ok s}" by (simp add: block_starts_finite)
    show "set (map PortStart ?bs) \<subseteq> {s. block_start_ok s}" using assms block_ok_start by (auto simp: blocks_inv_def)
  qed
  also have "\<dots> \<le> 20" unfolding block_starts_finite using card_image_le [of "{..<20 :: nat}"] by auto
  finally show ?thesis .
qed

definition ports_inv :: "port_row list \<times> port_row set \<Rightarrow> bool" where
  "ports_inv st \<longleftrightarrow> (\<forall>r \<in> set (fst st) \<union> snd st. 10100 \<le> pr_port r \<and> pr_port r \<le> 19999)
     \<and> distinct (map (\<lambda>r. (pr_node r, pr_port r)) (fst st))"

lemma choose_port_ok: "choose_port answers rows n = Inr p \<Longrightarrow> 10100 \<le> p \<and> p \<le> 19999"
  using scan_ports_Some [of 10100 19999 1] by (auto simp: choose_port_def UserMinPort_def MaxPort_def split: if_splits option.splits)

lemma port_step_inv [inv_intros]: "port_step st st' \<Longrightarrow> ports_inv st \<Longrightarrow> ports_inv st'"
proof (induction rule: port_step.induct)
  case (choose rows nodeID port pend deploymentID)
  thus ?case using choose_port_ok by (auto simp: ports_inv_def)
next
  case (inserted r pend rows rows')
  thus ?case using deployment_ports.put_distinct [OF inserted.hyps(2)] deployment_ports.put_appends [OF inserted.hyps(2)]
    by (auto simp: ports_inv_def)
next
  case (deallocate deploymentID rows rows' pend)
  thus ?case using deployment_ports.delete_distinct by (auto simp: ports_inv_def DeallocatePort_def)
qed (auto simp: ports_inv_def)

section \<open>Properties\<close>

text \<open>C4: Port blocks never overlap.  In every interleaving of any number of
  allocations, deallocations and changes of the node table, two blocks on the
  same node have disjoint port ranges, every block lies within 10000 to 10099
  with its five service ports in order, a node has at most twenty blocks, and a
  namespace at most one per node.\<close>

theorem namespace_blocks_disjoint:
  assumes "block_step\<^sup>*\<^sup>* (\<lparr>db_nodes = ns, db_blocks = []\<rparr>, {}) (db, pend)" "b \<in> set (db_blocks db)"
  shows "(\<forall>c \<in> set (db_blocks db). c \<noteq> b \<and> pb_NodeID c = pb_NodeID b \<longrightarrow>
        {PortStart b..PortEnd b} \<inter> {PortStart c..PortEnd c} = {} \<and> pb_ClusterID c \<noteq> pb_ClusterID b)
    \<and> 10000 \<le> PortStart b \<and> PortEnd b \<le> 10099
    \<and> [RQLiteHTTPPort b, RQLiteRaftPort b, OlricHTTPPort b, OlricMemberlistPort b, GatewayHTTPPort b] = [PortStart b..PortEnd b]
    \<and> length (filter (\<lambda>c. pb_NodeID c = pb_NodeID b) (db_blocks db)) \<le> 20"
proof -
  have inv: "blocks_inv (db, pend)" by (rule blocks_reachable_inv [OF assms(1)])
  hence ok: "block_ok c" if "c \<in> set (db_blocks db)" for c using that by (auto simp: blocks_inv_def)
  have ends: "PortEnd c = PortStart c + 4" if "c \<in> set (db_blocks db)" for c
    using ok [OF that] by (auto simp: block_ok_def block_at_def PortsPerNamespace_def)
  have other: "{PortStart b..PortEnd b} \<inter> {PortStart c..PortEnd c} = {} \<and> pb_ClusterID c \<noteq> pb_ClusterID b"
    if c: "c \<in> set (db_blocks db)" "c \<noteq> b" "pb_NodeID c = pb_NodeID b" for c
  proof -
    have "PortStart b \<noteq> PortStart c" "pb_ClusterID c \<noteq> pb_ClusterID b"
      using c assms(2) inv ns_blocks.keys_identify [of "db_blocks db" c b] ns_clusters.keys_identify [of "db_blocks db" c b]
      by (auto simp: blocks_inv_def)
    thus ?thesis
      using aligned_blocks_disjoint [OF block_ok_start [OF ok [OF assms(2)]] block_ok_start [OF ok [OF c(1)]]] ends [OF assms(2)] ends [OF c(1)]
      by simp
  qed
  have "[s..s + 4] = [s, s + 1, s + 2, s + 3, s + 4]" for s :: int by (simp add: upto.simps)
  hence "[RQLiteHTTPPort b, RQLiteRaftPort b, OlricHTTPPort b, OlricMemberlistPort b, GatewayHTTPPort b] = [PortStart b..PortEnd b]"
    unfolding ends [OF assms(2)] using ok [OF assms(2)] by (auto simp: block_ok_def block_at_def)
  moreover have "10000 \<le> PortStart b" "PortEnd b \<le> 10099"
    using block_ok_start [OF ok [OF assms(2)]] ends [OF assms(2)] by (simp_all add: block_start_ok_def)
  ultimately show ?thesis using blocks_per_node [OF inv, of "pb_NodeID b"] other by simp
qed


theorem namespace_blocks_disjoint_witness:
  "\<exists>db. block_step\<^sup>*\<^sup>* (\<lparr>db_nodes = [], db_blocks = []\<rparr>, {}) (db, {}) \<and> db_blocks db = [block_at ''n1'' ''ns1'' 10000]
    \<and> length (filter (\<lambda>c. pb_NodeID c = ''n1'') (db_blocks db)) \<le> 20"
proof -
  let ?db = "\<lparr>db_nodes = [], db_blocks = []\<rparr>" and ?b = "block_at ''n1'' ''ns1'' 10000"
  let ?db' = "\<lparr>db_nodes = [], db_blocks = [?b]\<rparr>"
  have "choose_block (\<lambda>_. True) ?db ''n1'' = Inr 10000"
    by (simp add: choose_block_def allocated_starts_def node_ip_def scan_ports.simps ns_constants)
  hence "block_step (?db, {}) (?db, {?b})" by (rule block_step.choose)
  moreover have "insert_block None ?b ?db = Inr ?db'" by (simp add: insert_block_def)
  hence "block_step (?db, {?b}) (?db', {})" using block_step.inserted [of ?b "{?b}" ?db ?db'] by simp
  ultimately have reach: "block_step\<^sup>*\<^sup>* (?db, {}) (?db', {})" by (rule converse_rtranclp_into_rtranclp [OF _ r_into_rtranclp])
  have "length (filter (\<lambda>c. pb_NodeID c = pb_NodeID ?b) (db_blocks ?db')) \<le> 20"
    using namespace_blocks_disjoint [OF reach, of ?b] by simp
  thus ?thesis using reach by (intro exI [of _ ?db']) (simp add: block_at_def)
qed

text \<open>C29: Deployment ports are unique per node in every interleaving of
  allocations and deallocations, and lie in the user range, so that no
  deployment gets a port of a namespace block.\<close>

theorem deployment_ports_unique:
  assumes "port_step\<^sup>*\<^sup>* ([], {}) (rows, pend)"
  shows "distinct (map (\<lambda>r. (pr_node r, pr_port r)) rows)
    \<and> (\<forall>r \<in> set rows. 10100 \<le> pr_port r \<and> pr_port r \<le> 19999)
    \<and> (\<forall>r \<in> set rows. \<forall>n c s. block_start_ok s \<longrightarrow> pr_port r \<notin> {PortStart (block_at n c s)..PortEnd (block_at n c s)})"
proof -
  have "ports_inv (rows, pend)"
    using assms by (induction rule: rtranclp_induct) (auto simp: ports_inv_def [of "([], {})"] intro: port_step_inv)
  thus ?thesis by (force simp: ports_inv_def block_at_def block_start_ok_def PortsPerNamespace_def)
qed

theorem deployment_ports_unique_witness:
  "\<exists>rows. port_step\<^sup>*\<^sup>* ([], {}) (rows, {}) \<and> rows \<noteq> [] \<and> distinct (map (\<lambda>r. (pr_node r, pr_port r)) rows)"
proof -
  let ?r = "\<lparr>pr_node = ''n1'', pr_port = 10100, pr_deployment = ''d1''\<rparr>"
  have "choose_port True [] ''n1'' = Inr 10100" by (simp add: choose_port_def scan_ports.simps UserMinPort_def MaxPort_def)
  hence "port_step ([], {}) ([], {?r})" by (rule port_step.choose)
  moreover have "insert_port None ?r [] = Inr [?r]" by (simp add: insert_port_def)
  hence "port_step ([], {?r}) ([?r], {})" using port_step.inserted [of ?r "{?r}" "[]" "[?r]"] by simp
  ultimately have reach: "port_step\<^sup>*\<^sup>* ([], {}) ([?r], {})" by (rule converse_rtranclp_into_rtranclp [OF _ r_into_rtranclp])
  thus ?thesis using deployment_ports_unique [OF reach] by blast
qed

lemma own_starts_allocated:
  assumes "pb_NodeID b = nodeID" "b \<in> set (db_blocks db)"
  shows "PortStart b \<in> set (allocated_starts answers db nodeID)"
proof -
  have "shares_ip db (node_ip answers db nodeID) b" if ip: "node_ip answers db nodeID \<noteq> ''''"
  proof -
    obtain n where n: "find (\<lambda>n. dn_id n = nodeID) (db_nodes db) = Some n" "node_ip answers db nodeID = dn_ip n"
      using ip by (auto simp: node_ip_def split: if_splits option.splits)
    hence "n \<in> set (db_nodes db)" "dn_id n = nodeID" by (auto simp: find_Some_iff)
    thus ?thesis using n(2) assms(1) by (auto simp: shares_ip_def)
  qed
  thus ?thesis using assms by (auto simp: allocated_starts_def Let_def)
qed

lemma undisturbed_attempt:
  assumes "length (allocated_starts (\<lambda>_. True) db nodeID) < 20"
    and "\<And>b. b \<in> set (db_blocks db) \<Longrightarrow> \<not> (pb_ClusterID b = clusterID \<and> pb_NodeID b = nodeID)"
  shows "\<exists>start. tryAllocatePortBlock (\<lambda>_. True) None nodeID clusterID db db
    = Inr (block_at nodeID clusterID start, db\<lparr>db_blocks := db_blocks db @ [block_at nodeID clusterID start]\<rparr>)"
proof -
  obtain s where s: "scan_ports 10000 10095 5 (allocated_starts (\<lambda>_. True) db nodeID) = Some s"
    using scan_ports_finds [of 5 "allocated_starts (\<lambda>_. True) db nodeID" 20 10000 10095] assms(1) by auto
  have "choose_block (\<lambda>_. True) db nodeID = Inr s" using s assms(1) by (simp add: choose_block_def ns_constants Let_def)
  moreover have "PortStart b \<noteq> s" if "b \<in> set (db_blocks db)" "pb_NodeID b = nodeID" for b
    using own_starts_allocated [OF that(2,1)] scan_ports_Some [OF s] by metis
  hence "insert_block None (block_at nodeID clusterID s) db = Inr (db\<lparr>db_blocks := db_blocks db @ [block_at nodeID clusterID s]\<rparr>)"
    using assms(2) by (auto simp: insert_block_def block_at_def)
  ultimately show ?thesis by (intro exI [of _ s]) (simp add: tryAllocatePortBlock_def)
qed

text \<open>C22: An allocation gets through conflicts.  If the first attempts, fewer than
  ten, fail on a conflict with other writers, and the next attempt is
  undisturbed on a node with a free block, then \<^verbatim>\<open>AllocatePortBlock\<close> returns a
  block and has inserted it.\<close>

theorem allocation_survives_conflicts:
  assumes "m < 10" "find (\<lambda>b. pb_ClusterID b = clusterID \<and> pb_NodeID b = nodeID) (db_blocks db0) = None"
    and "\<And>i. i < m \<Longrightarrow> \<exists>e. isConflictError e \<and>
      (case world i of (answers, failure, db_read, db_write) \<Rightarrow>
         tryAllocatePortBlock answers failure nodeID clusterID db_read db_write) = Inl e"
    and "world m = (\<lambda>_. True, None, db, db)" "length (allocated_starts (\<lambda>_. True) db nodeID) < 20"
    and "\<And>b. b \<in> set (db_blocks db) \<Longrightarrow> \<not> (pb_ClusterID b = clusterID \<and> pb_NodeID b = nodeID)"
  shows "\<exists>start. AllocatePortBlock (\<lambda>_. True) db0 world nodeID clusterID
    = Inr (block_at nodeID clusterID start, Some (db\<lparr>db_blocks := db_blocks db @ [block_at nodeID clusterID start]\<rparr>))"
proof -
  obtain s where s: "tryAllocatePortBlock (\<lambda>_. True) None nodeID clusterID db db
      = Inr (block_at nodeID clusterID s, db\<lparr>db_blocks := db_blocks db @ [block_at nodeID clusterID s]\<rparr>)"
    using undisturbed_attempt [OF assms(5,6)] by blast
  have "allocate_retries fuel i world nodeID clusterID
      = Inr (block_at nodeID clusterID s, Some (db\<lparr>db_blocks := db_blocks db @ [block_at nodeID clusterID s]\<rparr>))"
    if "i \<le> m" "m - i < fuel" for fuel i
    using that
  proof (induction fuel arbitrary: i)
    case (Suc fuel)
    show ?case
    proof (cases "i = m")
      case True
      thus ?thesis using s assms(4) by simp
    next
      case False
      then obtain e where "isConflictError e" "(case world i of (answers, failure, db_read, db_write) \<Rightarrow>
         tryAllocatePortBlock answers failure nodeID clusterID db_read db_write) = Inl e"
        using assms(3) [of i] Suc.prems by auto
      thus ?thesis using Suc.IH [of "i + 1"] Suc.prems False by (auto split: prod.splits)
    qed
  qed simp
  from this [of 0 10] show ?thesis
    using assms(1,2) by (intro exI [of _ s]) (simp add: AllocatePortBlock_def GetPortBlock_def)
qed

lemma conflicting_attempt:
  "isConflictError \<lparr>Message = ''failed to insert port allocation'', Cause = Some unique_violation\<rparr>"
  "tryAllocatePortBlock (\<lambda>_. True) None ''n1'' ''ns1'' \<lparr>db_nodes = [], db_blocks = []\<rparr>
     \<lparr>db_nodes = [], db_blocks = [block_at ''n1'' ''ns2'' 10000]\<rparr>
   = Inl \<lparr>Message = ''failed to insert port allocation'', Cause = Some unique_violation\<rparr>"
  by (simp_all add: isConflictError_def Error_text_def unique_violation_def is_prefix_def tryAllocatePortBlock_def choose_block_def
      allocated_starts_def node_ip_def scan_ports.simps ns_constants insert_block_def block_at_def)

theorem allocation_survives_conflicts_witness:
  "\<exists>start. AllocatePortBlock (\<lambda>_. True) \<lparr>db_nodes = [], db_blocks = []\<rparr>
     (\<lambda>i. if i = 0 then (\<lambda>_. True, None, \<lparr>db_nodes = [], db_blocks = []\<rparr>, \<lparr>db_nodes = [], db_blocks = [block_at ''n1'' ''ns2'' 10000]\<rparr>)
          else (\<lambda>_. True, None, \<lparr>db_nodes = [], db_blocks = [block_at ''n1'' ''ns2'' 10000]\<rparr>, \<lparr>db_nodes = [], db_blocks = [block_at ''n1'' ''ns2'' 10000]\<rparr>))
     ''n1'' ''ns1''
   = Inr (block_at ''n1'' ''ns1'' start,
       Some \<lparr>db_nodes = [], db_blocks = [block_at ''n1'' ''ns2'' 10000, block_at ''n1'' ''ns1'' start]\<rparr>)"
proof -
  let ?empty = "\<lparr>db_nodes = [], db_blocks = []\<rparr>" and ?db = "\<lparr>db_nodes = [], db_blocks = [block_at ''n1'' ''ns2'' 10000]\<rparr>"
  let ?w = "\<lambda>i :: nat. if i = 0 then (\<lambda>_ :: ns_query. True, None :: string option, ?empty, ?db) else (\<lambda>_. True, None, ?db, ?db)"
  have "\<exists>e. isConflictError e \<and> (case ?w i of (answers, failure, db_read, db_write) \<Rightarrow>
      tryAllocatePortBlock answers failure ''n1'' ''ns1'' db_read db_write) = Inl e" if "i < 1" for i
    using that conflicting_attempt by auto
  thus ?thesis
    using allocation_survives_conflicts [of 1 "''ns1''" "''n1''" ?empty ?w ?db]
    by (simp add: allocated_starts_def node_ip_def block_at_def)
qed

end
