(* ===== verification/Secret_Sharing.thy ===== *)
theory Secret_Sharing
  imports Galois_Field Interpolation
begin

text \<open>
  Shamir secret sharing.

  \<^item> \<^verbatim>\<open>core/pkg/shamir/shamir.go\<close>: \<^verbatim>\<open>Split\<close>, \<^verbatim>\<open>Combine\<close>,
    \<^verbatim>\<open>evaluatePolynomial\<close> and the quorum functions;
  \<^item> \<^verbatim>\<open>os/agent/internal/boot/luks.go\<close>: \<^verbatim>\<open>shamirSplit\<close>,
    \<^verbatim>\<open>shamirCombine\<close>, \<^verbatim>\<open>evalPolynomial\<close>, and the distribution and
    reconstruction of a disk key over the peers.

  The randomness of \<^verbatim>\<open>crypto/rand\<close> is an argument: for every byte of the
  secret either the bytes read, or a failure.  The answers of the peers'
  vault services are arguments too.
\<close>

section \<open>shamir.go\<close>

record share =
  X :: byte
  Y :: "byte list"

definition evaluatePolynomial :: "byte list \<Rightarrow> byte \<Rightarrow> byte" where
  "evaluatePolynomial coeffs x = foldl (\<lambda>result c. Add (Mul result x) c) 0 (rev coeffs)"

type_synonym rand_source = "nat \<Rightarrow> (nat \<Rightarrow> byte) option"

fun split_bytes :: "rand_source \<Rightarrow> byte list \<Rightarrow> nat \<Rightarrow> nat list \<Rightarrow> share list
    \<Rightarrow> (shamir_error, share list) result" where
  "split_bytes rnd secret k [] shares = Inr shares"
| "split_bytes rnd secret k (byteIdx # rest) shares =
     (case rnd byteIdx of
        None \<Rightarrow> Inl ErrRandomGeneration
      | Some r \<Rightarrow>
          (let coeffs = (secret ! byteIdx) # map r [0..<k - 1]
           in split_bytes rnd secret k rest
                (map (\<lambda>s. s\<lparr>Y := (Y s)[byteIdx := evaluatePolynomial coeffs (X s)]\<rparr>) shares)))"

definition Split :: "rand_source \<Rightarrow> byte list \<Rightarrow> int \<Rightarrow> int \<Rightarrow> (shamir_error, share list) result" where
  "Split rnd secret n k =
     (if k < 2 then Inl ErrThresholdTooSmall
      else if n < k then Inl ErrShareCountTooSmall
      else if n > 255 then Inl ErrTooManyShares
      else if length secret = 0 then Inl ErrEmptySecret
      else split_bytes rnd secret (nat k) [0..<length secret]
             (map (\<lambda>i. \<lparr>X = word_of_nat (i + 1), Y = replicate (length secret) 0\<rparr>) [0..<nat n]))"

fun check_shares :: "nat \<Rightarrow> byte list \<Rightarrow> share list \<Rightarrow> (shamir_error, unit) result" where
  "check_shares secretLen seen [] = Inr ()"
| "check_shares secretLen seen (s # rest) =
     (if X s = 0 then Inl ErrZeroShareIndex
      else if length (Y s) \<noteq> secretLen then Inl ErrMismatchedShareLen
      else if X s \<in> set seen then Inl ErrDuplicateShareIndex
      else check_shares secretLen (X s # seen) rest)"

fun basis_loop :: "nat \<Rightarrow> byte \<Rightarrow> (nat \<times> share) list \<Rightarrow> byte \<Rightarrow> (shamir_error, byte) result" where
  "basis_loop i xi [] basis = Inr basis"
| "basis_loop i xi ((j, sj) # rest) basis =
     (if i = j then basis_loop i xi rest basis
      else case Div (X sj) (Add xi (X sj)) of
             Inl e \<Rightarrow> Inl e
           | Inr d \<Rightarrow> basis_loop i xi rest (Mul basis d))"

fun value_loop :: "share list \<Rightarrow> nat \<Rightarrow> (nat \<times> share) list \<Rightarrow> byte \<Rightarrow> (shamir_error, byte) result" where
  "value_loop shares byteIdx [] value = Inr value"
| "value_loop shares byteIdx ((i, si) # rest) value =
     (case basis_loop i (X si) (enumerate 0 shares) 1 of
        Inl e \<Rightarrow> Inl e
      | Inr basis \<Rightarrow> value_loop shares byteIdx rest (Add value (Mul (Y si ! byteIdx) basis)))"

definition Combine :: "share list \<Rightarrow> (shamir_error, byte list) result" where
  "Combine shares =
     (if length shares < 2 then Inl ErrNotEnoughShares
      else let secretLen = length (Y (shares ! 0))
           in result_bind (check_shares secretLen [] shares)
                (\<lambda>_. result_map_list (\<lambda>byteIdx. value_loop shares byteIdx (enumerate 0 shares) 0)
                       [0..<secretLen]))"

text \<open>Go's integer division truncates towards zero; the counts of nodes are
  non-negative, and a negative count is below 3 on either reading.\<close>

definition AdaptiveThreshold :: "int \<Rightarrow> int" where
  "AdaptiveThreshold n = (let t = n div 3 in if t < 3 then 3 else t)"

definition WriteQuorum :: "int \<Rightarrow> int" where
  "WriteQuorum n = (if n = 0 then 0 else if n \<le> 2 then n else (2 * n + 2) div 3)"

section \<open>luks.go\<close>

datatype luks_error =
    ErrNotEnoughPeers
  | ErrThreshold
  | ErrNeedTwoShares
  | ErrRand
  | ErrAuth
  | ErrStore
  | ErrTooFewFetched
  | PanicIndexOutOfRange

definition evalPolynomial :: "byte list \<Rightarrow> byte \<Rightarrow> byte" where
  "evalPolynomial coeffs x =
     foldl (\<lambda>result c. gf256Mul result x XOR c) (last coeffs) (rev (butlast coeffs))"

fun shamirSplit_bytes :: "rand_source \<Rightarrow> byte list \<Rightarrow> nat \<Rightarrow> nat list \<Rightarrow> byte list list
    \<Rightarrow> (luks_error, byte list list) result" where
  "shamirSplit_bytes rnd secret k [] shares = Inr shares"
| "shamirSplit_bytes rnd secret k (byteIdx # rest) shares =
     (case rnd byteIdx of
        None \<Rightarrow> Inl ErrRand
      | Some r \<Rightarrow>
          (let coeffs = (secret ! byteIdx) # map r [0..<k - 1]
           in shamirSplit_bytes rnd secret k rest
                (map (\<lambda>(i, s). s[byteIdx := evalPolynomial coeffs (word_of_nat (i + 1))])
                   (enumerate 0 shares))))"

definition shamirSplit :: "rand_source \<Rightarrow> byte list \<Rightarrow> nat \<Rightarrow> nat \<Rightarrow> (luks_error, byte list list) result" where
  "shamirSplit rnd secret n k =
     (if n < k then Inl ErrNotEnoughPeers
      else if k < 2 then Inl ErrThreshold
      else shamirSplit_bytes rnd secret k [0..<length secret]
             (replicate n (replicate (length secret) 0)))"

fun num_den_loop :: "nat \<Rightarrow> byte \<Rightarrow> (nat \<times> byte) list \<Rightarrow> byte \<times> byte \<Rightarrow> byte \<times> byte" where
  "num_den_loop i xi [] nd = nd"
| "num_den_loop i xi ((j, xj) # rest) nd =
     (if i = j then num_den_loop i xi rest nd
      else num_den_loop i xi rest (gf256Mul (fst nd) xj, gf256Mul (snd nd) (xi XOR xj)))"

fun val_loop :: "byte list list \<Rightarrow> byte list \<Rightarrow> nat \<Rightarrow> (nat \<times> byte) list \<Rightarrow> byte
    \<Rightarrow> (luks_error, byte) result" where
  "val_loop shares xs byteIdx [] val = Inr val"
| "val_loop shares xs byteIdx ((i, xi) # rest) val =
     (if byteIdx < length (shares ! i)
      then let nd = num_den_loop i xi (enumerate 0 xs) (1, 1);
               lagrange = gf256Mul (fst nd) (gf256Inv (snd nd))
           in val_loop shares xs byteIdx rest (val XOR gf256Mul (shares ! i ! byteIdx) lagrange)
      else Inl PanicIndexOutOfRange)"

definition shamirCombine :: "byte list list \<Rightarrow> (luks_error, byte list) result" where
  "shamirCombine shares =
     (if length shares < 2 then Inl ErrNeedTwoShares
      else let secretLen = length (shares ! 0);
               xs = map (\<lambda>i. word_of_nat (i + 1)) [0..<length shares]
           in result_map_list (\<lambda>byteIdx. val_loop shares xs byteIdx (enumerate 0 xs) 0)
                [0..<secretLen])"

definition luks_threshold :: "nat \<Rightarrow> nat" where
  "luks_threshold n = (let k = max 3 (n div 3) in if k > n then n else k)"

fun store_shares :: "(string \<Rightarrow> bool) \<Rightarrow> (string \<Rightarrow> byte list \<Rightarrow> bool) \<Rightarrow> (string \<times> byte list) list
    \<Rightarrow> (string \<times> byte list) list \<Rightarrow> luks_error option \<times> (string \<times> byte list) list" where
  "store_shares vaultAuth vaultPut [] stored = (None, stored)"
| "store_shares vaultAuth vaultPut ((peer, sh) # rest) stored =
     (if \<not> vaultAuth peer then (Some ErrAuth, stored)
      else if \<not> vaultPut peer sh then (Some ErrStore, stored)
      else store_shares vaultAuth vaultPut rest (stored @ [(peer, sh)]))"

text \<open>Loading the node's identity and the cluster's configuration, which precedes both operations
  and can fail, is not modelled: they start with the key or the peers at hand.\<close>

definition DistributeKeyShares :: "rand_source \<Rightarrow> (string \<Rightarrow> bool) \<Rightarrow> (string \<Rightarrow> byte list \<Rightarrow> bool)
    \<Rightarrow> byte list \<Rightarrow> string list \<Rightarrow> luks_error option \<times> (string \<times> byte list) list" where
  "DistributeKeyShares rnd vaultAuth vaultPut key peers =
     (let n = length peers; k = luks_threshold n
      in if n = 0 then (Some ErrNotEnoughPeers, [])
         else case shamirSplit rnd key n k of
                Inl e \<Rightarrow> (Some e, [])
              | Inr shares \<Rightarrow> store_shares vaultAuth vaultPut (zip peers shares) [])"

fun fetch_round :: "(string \<Rightarrow> byte list option) \<Rightarrow> nat \<Rightarrow> string list \<Rightarrow> byte list list \<Rightarrow> byte list list" where
  "fetch_round fetch k [] shares = shares"
| "fetch_round fetch k (peer # peers) shares =
     (case fetch peer of
        None \<Rightarrow> fetch_round fetch k peers shares
      | Some sh \<Rightarrow>
          (let shares' = shares @ [sh]
           in if length shares' \<ge> k + 1 then shares' else fetch_round fetch k peers shares'))"

fun fetch_attempts :: "(nat \<Rightarrow> string \<Rightarrow> byte list option) \<Rightarrow> nat \<Rightarrow> string list \<Rightarrow> nat list
    \<Rightarrow> byte list list \<Rightarrow> byte list list" where
  "fetch_attempts fetch k peers [] shares = shares"
| "fetch_attempts fetch k peers (attempt # rest) shares =
     (let shares' = fetch_round (fetch attempt) k peers []
      in if length shares' \<ge> k then shares' else fetch_attempts fetch k peers rest shares')"

text \<open>The result carries the key and whether the malicious share warning was logged.\<close>

definition FetchAndReconstruct :: "(nat \<Rightarrow> string \<Rightarrow> byte list option) \<Rightarrow> string list
    \<Rightarrow> (luks_error, byte list \<times> bool) result" where
  "FetchAndReconstruct fetch peers =
     (let k = luks_threshold (length peers);
          shares = fetch_attempts fetch k peers [0..<6] []
      in if length shares < k then Inl ErrTooFewFetched
         else result_bind (shamirCombine (take k shares)) (\<lambda>key.
           if length shares > k
           then (case shamirCombine (take k (drop 1 shares)) of
                   Inl PanicIndexOutOfRange \<Rightarrow> Inl PanicIndexOutOfRange
                 | Inl e \<Rightarrow> Inr (key, False)
                 | Inr altKey \<Rightarrow> Inr (key, key \<noteq> altKey))
           else Inr (key, False)))"

section \<open>Secret sharing over the field interface\<close>

lemma gf256_minus: "(a :: gf256) - b = a + b"
  by transfer simp

context byte_field
begin

lemma horner_foldr:
  "Abs_gf256 (foldr (\<lambda>c r. add (mul r x) c) cs r)
     = peval (map Abs_gf256 cs) (Abs_gf256 x) + Abs_gf256 x ^ length cs * Abs_gf256 r"
  by (induction cs) (simp_all add: field_ops algebra_simps)

lemma weighted_sum:
  "Abs_gf256 (foldl (\<lambda>v i. add v (mul (ys i) (basis i))) v0 [0..<n])
     = Abs_gf256 v0 + (\<Sum>i<n. Abs_gf256 (ys i) * Abs_gf256 (basis i))"
  by (induction n) (simp_all add: field_ops algebra_simps)

text \<open>Reconstruction: \<open>n\<close> evaluations of a polynomial with at most \<open>n\<close>
  coefficients, weighted with the Lagrange basis at zero, sum to its constant
  coefficient.\<close>

lemma interpolate_at_zero:
  fixes xs :: "byte list"
  defines "n \<equiv> length xs"
  assumes "distinct xs" "length cs \<le> n" "cs \<noteq> []"
    and ys: "\<And>i. i < n \<Longrightarrow> Abs_gf256 (ys i) = peval (map Abs_gf256 cs) (Abs_gf256 (xs ! i))"
    and basis: "\<And>i. i < n \<Longrightarrow> Abs_gf256 (basis i)
      = (\<Prod>j\<in>{..<n} - {i}. Abs_gf256 (xs ! j) / (Abs_gf256 (xs ! i) + Abs_gf256 (xs ! j)))"
  shows "foldl (\<lambda>v i. add v (mul (ys i) (basis i))) 0 [0..<n] = hd cs"
proof -
  let ?xs = "map Abs_gf256 xs" and ?cs = "map Abs_gf256 cs"
  have "distinct ?xs" using assms(2) by (simp add: distinct_map inj_on_def)
  hence "(\<Sum>i<n. peval ?cs (?xs ! i) * (\<Prod>j\<in>{..<n} - {i}. (0 - ?xs ! j) / (?xs ! i - ?xs ! j)))
      = peval ?cs 0"
    using lagrange_zero [of ?xs ?cs] assms(3) by (simp add: n_def)
  moreover have "(\<Sum>i<n. peval ?cs (?xs ! i) * (\<Prod>j\<in>{..<n} - {i}. (0 - ?xs ! j) / (?xs ! i - ?xs ! j)))
      = (\<Sum>i<n. Abs_gf256 (ys i) * Abs_gf256 (basis i))"
    by (intro sum.cong refl) (simp add: ys basis gf256_minus n_def)
  ultimately have "Abs_gf256 (foldl (\<lambda>v i. add v (mul (ys i) (basis i))) 0 [0..<n]) = peval ?cs 0"
    by (simp add: weighted_sum)
  also have "\<dots> = Abs_gf256 (hd cs)" using assms(4) by (cases cs) simp_all
  finally show ?thesis by simp
qed

end

section \<open>Correctness of shamir.go\<close>

lemma evaluatePolynomial_peval:
  "Abs_gf256 (evaluatePolynomial cs x) = peval (map Abs_gf256 cs) (Abs_gf256 x)"
  using core_field.horner_foldr [of x cs 0]
  by (simp add: evaluatePolynomial_def foldl_conv_foldr)

text \<open>The polynomial of one secret byte, and what \<^const>\<open>split_bytes\<close> leaves in the shares.\<close>

definition byte_poly :: "rand_source \<Rightarrow> byte list \<Rightarrow> nat \<Rightarrow> nat \<Rightarrow> byte list" where
  "byte_poly rnd secret k b = (secret ! b) # map (the (rnd b)) [0..<k - 1]"

lemma split_bytes_result:
  assumes "split_bytes rnd secret k bs shares = Inr shares'" "distinct bs"
    "\<And>s. s \<in> set shares \<Longrightarrow> set bs \<subseteq> {..<length (Y s)}"
  shows "shares' = map (\<lambda>s. s\<lparr>Y := map (\<lambda>b. if b \<in> set bs
             then evaluatePolynomial (byte_poly rnd secret k b) (X s) else Y s ! b)
             [0..<length (Y s)]\<rparr>) shares"
  using assms
proof (induction rnd secret k bs shares rule: split_bytes.induct)
  case (1 rnd secret k shares)
  thus ?case by (auto simp: map_idI map_nth)
next
  case (2 rnd secret k b rest shares)
  obtain r where r: "rnd b = Some r" using "2.prems"(1) by (auto split: option.splits)
  let ?s = "\<lambda>s. s\<lparr>Y := (Y s)[b := evaluatePolynomial (secret ! b # map r [0..<k - 1]) (X s)]\<rparr>"
  have "split_bytes rnd secret k rest (map ?s shares) = Inr shares'"
    using "2.prems"(1) by (simp add: r)
  from "2.IH" [OF r refl this] "2.prems"(2,3)
  show ?case by (fastforce simp: r byte_poly_def nth_list_update)
qed

lemma enumerate_0_map: "enumerate 0 xs = map (\<lambda>i. (i, xs ! i)) [0..<length xs]"
  by (rule nth_equalityI) (simp_all add: nth_enumerate_eq)

lemma prod_list_except:
  fixes f :: "nat \<Rightarrow> 'a::comm_monoid_mult"
  shows "prod_list (map f (filter (\<lambda>j. j \<noteq> i) [0..<n])) = (\<Prod>j\<in>{..<n} - {i}. f j)"
proof -
  have "set (filter (\<lambda>j. j \<noteq> i) [0..<n]) = {..<n} - {i}" by auto
  thus ?thesis by (metis distinct_filter distinct_upt prod.distinct_set_conv_list)
qed

lemma basis_loop_result:
  assumes "\<And>j s. (j, s) \<in> set l \<Longrightarrow> j \<noteq> i \<Longrightarrow> X s \<noteq> xi"
  shows "\<exists>b. basis_loop i xi l acc = Inr b \<and>
    Abs_gf256 b = Abs_gf256 acc * prod_list (map (\<lambda>(j, s). Abs_gf256 (X s) / (Abs_gf256 xi + Abs_gf256 (X s)))
      (filter (\<lambda>(j, s). j \<noteq> i) l))"
  using assms
proof (induction i xi l acc rule: basis_loop.induct)
  case (2 i xi j sj rest acc)
  show ?case
  proof (cases "i = j")
    case True
    thus ?thesis using "2.IH"(1) "2.prems" by simp
  next
    case False
    hence ne: "Add xi (X sj) \<noteq> 0" using "2.prems" [of j sj] by (auto simp: Add_def word_xor_eq_0)
    hence "Div (X sj) (Add xi (X sj)) = Inr (Mul (X sj) (inv_or_0 (Add xi (X sj))))" by (rule Div_eq)
    thus ?thesis
      using "2.IH"(2) [OF False] "2.prems" False
      by (auto simp: core_field.mul_field core_field.add_field divide_inverse mult.assoc
          inverse_gf256.abs_eq [symmetric])
  qed
qed simp

lemma basis_loop_distinct:
  assumes "distinct (map X shares)" "i < length shares"
  obtains b where "basis_loop i (X (shares ! i)) (enumerate 0 shares) 1 = Inr b"
    "Abs_gf256 b = (\<Prod>j\<in>{..<length shares} - {i}.
       Abs_gf256 (X (shares ! j)) / (Abs_gf256 (X (shares ! i)) + Abs_gf256 (X (shares ! j))))"
proof -
  have ne: "X s \<noteq> X (shares ! i)" if "(j, s) \<in> set (enumerate 0 shares)" "j \<noteq> i" for j s
    using that assms nth_eq_iff_index_eq [OF assms(1), of j i] by (auto simp: enumerate_0_map)
  obtain b where "basis_loop i (X (shares ! i)) (enumerate 0 shares) 1 = Inr b"
    "Abs_gf256 b = prod_list (map (\<lambda>(j, s). Abs_gf256 (X s) / (Abs_gf256 (X (shares ! i)) + Abs_gf256 (X s)))
      (filter (\<lambda>(j, s). j \<noteq> i) (enumerate 0 shares)))"
    using basis_loop_result [of "enumerate 0 shares" i "X (shares ! i)" 1] ne by auto
  thus ?thesis
    by (intro that) (simp_all add: enumerate_0_map filter_map comp_def prod_list_except)
qed

lemma value_loop_result:
  assumes "\<And>i s. (i, s) \<in> set l \<Longrightarrow> basis_loop i (X s) (enumerate 0 shares) 1 = Inr (basis i)"
  shows "value_loop shares b l v = Inr (foldl (\<lambda>v (i, s). Add v (Mul (Y s ! b) (basis i))) v l)"
  using assms by (induction shares b l v rule: value_loop.induct) auto

text \<open>Shares that lie on one polynomial per byte recombine to the constant coefficients.\<close>

lemma value_loop_interpolates:
  assumes "distinct (map X shares)" "length cs \<le> length shares" "cs \<noteq> []"
    and "\<And>s. s \<in> set shares \<Longrightarrow> Y s ! b = evaluatePolynomial cs (X s)"
  shows "value_loop shares b (enumerate 0 shares) 0 = Inr (hd cs)"
proof -
  let ?n = "length shares"
  define basis where "basis i = (SOME c. basis_loop i (X (shares ! i)) (enumerate 0 shares) 1 = Inr c)" for i
  have basis: "basis_loop i (X (shares ! i)) (enumerate 0 shares) 1 = Inr (basis i)"
    "Abs_gf256 (basis i) = (\<Prod>j\<in>{..<?n} - {i}.
       Abs_gf256 (X (shares ! j)) / (Abs_gf256 (X (shares ! i)) + Abs_gf256 (X (shares ! j))))"
    if "i < ?n" for i
    by (rule basis_loop_distinct [OF assms(1) that]; simp add: basis_def)+
  have "value_loop shares b (enumerate 0 shares) 0
      = Inr (foldl (\<lambda>v (i, s). Add v (Mul (Y s ! b) (basis i))) 0 (enumerate 0 shares))"
    by (rule value_loop_result) (use basis(1) in \<open>auto simp: enumerate_0_map\<close>)
  also have "\<dots> = Inr (foldl (\<lambda>v i. Add v (Mul (Y (shares ! i) ! b) (basis i))) 0 [0..<?n])"
    by (simp add: enumerate_0_map foldl_map)
  also have "\<dots> = Inr (hd cs)"
    using core_field.interpolate_at_zero [of "map X shares" cs "\<lambda>i. Y (shares ! i) ! b" basis] assms basis(2)
    by (simp add: evaluatePolynomial_peval)
  finally show ?thesis .
qed

lemma check_shares_ok:
  assumes "\<And>s. s \<in> set shares \<Longrightarrow> X s \<noteq> 0 \<and> length (Y s) = l"
    "distinct (map X shares)" "set (map X shares) \<inter> set seen = {}"
  shows "check_shares l seen shares = Inr ()"
  using assms by (induction shares arbitrary: seen) auto

text \<open>The invariant of the shares of one split.\<close>

definition shares_of :: "byte list list \<Rightarrow> nat \<Rightarrow> share list \<Rightarrow> bool" where
  "shares_of polys k shares \<longleftrightarrow>
     distinct (map X shares)
     \<and> (\<forall>s\<in>set shares. X s \<noteq> 0 \<and> Y s = map (\<lambda>cs. evaluatePolynomial cs (X s)) polys)
     \<and> (\<forall>cs\<in>set polys. length cs = k)"

lemma Split_shares_of:
  assumes "Split rnd secret n k = Inr shares"
  shows "shares_of (map (byte_poly rnd secret (nat k)) [0..<length secret]) (nat k) shares"
    "length shares = nat n" "2 \<le> k" "k \<le> n" "n \<le> 255" "secret \<noteq> []"
    "\<And>i. i < nat n \<Longrightarrow> shares ! i = \<lparr>X = word_of_nat (i + 1),
       Y = map (\<lambda>b. evaluatePolynomial (byte_poly rnd secret (nat k) b) (word_of_nat (i + 1))) [0..<length secret]\<rparr>"
proof -
  let ?init = "map (\<lambda>i. \<lparr>X = word_of_nat (i + 1), Y = replicate (length secret) 0\<rparr>) [0..<nat n] :: share list"
  show b: "2 \<le> k" "k \<le> n" "n \<le> 255" "secret \<noteq> []"
    using assms by (auto simp: Split_def split: if_splits)
  hence "split_bytes rnd secret (nat k) [0..<length secret] ?init = Inr shares"
    using assms by (simp add: Split_def)
  hence sh: "shares = map (\<lambda>s. s\<lparr>Y := map (\<lambda>b. evaluatePolynomial (byte_poly rnd secret (nat k) b) (X s))
      [0..<length secret]\<rparr>) ?init"
    by (subst split_bytes_result) (auto simp: comp_def)
  thus "length shares = nat n" by simp
  show "shares ! i = \<lparr>X = word_of_nat (i + 1),
       Y = map (\<lambda>b. evaluatePolynomial (byte_poly rnd secret (nat k) b) (word_of_nat (i + 1))) [0..<length secret]\<rparr>"
    if "i < nat n" for i using that by (simp add: sh)
  have "inj_on (\<lambda>i. word_of_nat (i + 1) :: byte) {0..<nat n}"
    using b by (auto intro!: inj_onI simp: byte_of_nat_inj simp del: of_nat_Suc of_nat_add)
  hence "distinct (map X shares)" by (simp add: sh comp_def distinct_map)
  moreover have "word_of_nat (i + 1) \<noteq> (0 :: byte)" if "i < nat n" for i
    using that b byte_of_nat_inj [of "i + 1" 0] by auto
  ultimately show "shares_of (map (byte_poly rnd secret (nat k)) [0..<length secret]) (nat k) shares"
    using b by (auto simp: shares_of_def sh byte_poly_def comp_def)
qed

lemma Combine_shares_of:
  assumes "shares_of polys k shares" "k \<le> length shares" "2 \<le> k"
  shows "Combine shares = Inr (map hd polys)"
proof -
  have len: "length (Y s) = length polys" if "s \<in> set shares" for s
    using assms(1) that by (simp add: shares_of_def)
  have l0: "length (Y (shares ! 0)) = length polys" using assms(2,3) by (intro len nth_mem) linarith
  have "check_shares (length polys) [] shares = Inr ()"
    using assms(1) len by (intro check_shares_ok) (auto simp: shares_of_def)
  moreover have "value_loop shares b (enumerate 0 shares) 0 = Inr (hd (polys ! b))"
    if "b < length polys" for b
  proof -
    have k: "length (polys ! b) = k" using assms(1) that by (auto simp: shares_of_def)
    hence "polys ! b \<noteq> []" using assms(3) by auto
    moreover have "Y s ! b = evaluatePolynomial (polys ! b) (X s)" if "s \<in> set shares" for s
      using assms(1) that \<open>b < length polys\<close> by (simp add: shares_of_def)
    ultimately show ?thesis
      using k assms by (intro value_loop_interpolates) (simp_all add: shares_of_def)
  qed
  hence "result_map_list (\<lambda>b. value_loop shares b (enumerate 0 shares) 0) [0..<length polys]
      = Inr (map (\<lambda>b. hd (polys ! b)) [0..<length polys])"
    by (intro result_map_list_Inr) simp
  moreover have "map (\<lambda>b. hd (polys ! b)) [0..<length polys] = map hd polys"
    by (rule nth_equalityI) simp_all
  ultimately show ?thesis using assms(2,3) by (simp add: Combine_def l0)
qed

lemma shares_of_subset:
  "shares_of polys k shares \<Longrightarrow> set sub \<subseteq> set shares \<Longrightarrow> distinct sub \<Longrightarrow> shares_of polys k sub"
  unfolding shares_of_def by (auto simp: distinct_map inj_on_subset)

section \<open>Correctness of the agent's sharing\<close>

lemma evalPolynomial_evaluatePolynomial:
  assumes "cs \<noteq> []"
  shows "evalPolynomial cs x = evaluatePolynomial cs x"
proof -
  obtain ds d where cs: "cs = ds @ [d]" using assms by (metis rev_exhaust)
  thus ?thesis by (simp add: evalPolynomial_def evaluatePolynomial_def gf256Mul_Mul Add_def)
qed

lemma shamirSplit_bytes_result:
  assumes "shamirSplit_bytes rnd secret k bs shares = Inr shares'" "distinct bs"
    "\<And>s. s \<in> set shares \<Longrightarrow> length s = l" "set bs \<subseteq> {..<l}"
  shows "shares' = map (\<lambda>i. map (\<lambda>b. if b \<in> set bs
             then evaluatePolynomial (byte_poly rnd secret k b) (word_of_nat (i + 1)) else shares ! i ! b)
             [0..<l]) [0..<length shares]"
  using assms
proof (induction rnd secret k bs shares rule: shamirSplit_bytes.induct)
  case (1 rnd secret k shares)
  have "map (\<lambda>i. map (\<lambda>b. shares ! i ! b) [0..<l]) [0..<length shares] = map (\<lambda>i. shares ! i) [0..<length shares]"
    using "1.prems"(3) by (intro map_cong refl) (metis atLeastLessThan_iff map_nth nth_mem set_upt)
  thus ?case using 1 by (simp add: map_nth)
next
  case (2 rnd secret k b rest shares)
  obtain r where r: "rnd b = Some r" using "2.prems"(1) by (auto split: option.splits)
  let ?cs = "secret ! b # map r [0..<k - 1]"
  let ?sh = "map (\<lambda>(i, s). s[b := evalPolynomial ?cs (word_of_nat (i + 1))]) (enumerate 0 shares)"
  have "shamirSplit_bytes rnd secret k rest ?sh = Inr shares'"
    using "2.prems"(1) by (simp add: r)
  moreover have "length s = l" if "s \<in> set ?sh" for s
    using that "2.prems"(3) by (auto simp: enumerate_0_map)
  ultimately have "shares' = map (\<lambda>i. map (\<lambda>b. if b \<in> set rest
      then evaluatePolynomial (byte_poly rnd secret k b) (word_of_nat (i + 1)) else ?sh ! i ! b)
      [0..<l]) [0..<length ?sh]"
    using "2.IH" [OF r refl] "2.prems"(2,4) by simp
  moreover have "?sh ! i = (shares ! i)[b := evaluatePolynomial (byte_poly rnd secret k b) (word_of_nat (i + 1))]"
    if "i < length shares" for i
    using that by (simp add: enumerate_0_map r byte_poly_def evalPolynomial_evaluatePolynomial)
  ultimately show ?case
    using "2.prems"(2-4) by (auto simp: nth_list_update simp del: of_nat_add)
qed

lemma num_den_loop_result:
  "Abs_gf256 (fst (num_den_loop i xi l nd)) =
     Abs_gf256 (fst nd) * prod_list (map (\<lambda>(j, x). Abs_gf256 x) (filter (\<lambda>(j, x). j \<noteq> i) l))"
  "Abs_gf256 (snd (num_den_loop i xi l nd)) =
     Abs_gf256 (snd nd) * prod_list (map (\<lambda>(j, x). Abs_gf256 xi + Abs_gf256 x) (filter (\<lambda>(j, x). j \<noteq> i) l))"
  by (induction i xi l nd rule: num_den_loop.induct)
    (auto simp: agent_field.mul_field agent_field.add_field algebra_simps)

lemma lagrange_num_den:
  assumes "nd = num_den_loop i (xs ! i) (enumerate 0 xs) (1, 1)"
  shows "Abs_gf256 (gf256Mul (fst nd) (gf256Inv (snd nd)))
     = (\<Prod>j\<in>{..<length xs} - {i}. Abs_gf256 (xs ! j) / (Abs_gf256 (xs ! i) + Abs_gf256 (xs ! j)))"
  unfolding assms
  by (simp add: Abs_gf256Mul Abs_gf256Inv num_den_loop_result enumerate_0_map filter_map comp_def
      prod_list_except divide_inverse [symmetric] prod_dividef)

lemma val_loop_result:
  assumes "\<And>i x. (i, x) \<in> set l \<Longrightarrow> b < length (shares ! i) \<and> x = xs ! i"
  shows "val_loop shares xs b l v = Inr (foldl (\<lambda>v i. v XOR gf256Mul (shares ! i ! b)
    (let nd = num_den_loop i (xs ! i) (enumerate 0 xs) (1, 1) in gf256Mul (fst nd) (gf256Inv (snd nd))))
    v (map fst l))"
  using assms
proof (induction l arbitrary: v)
  case (Cons p l)
  obtain i x where p: "p = (i, x)" by (cases p)
  have b: "b < length (shares ! i)" and x: "x = xs ! i" using Cons.prems [of i x] by (auto simp: p)
  have "b < length (shares ! i) \<and> x = xs ! i" if "(i, x) \<in> set l" for i x
    using Cons.prems [of i x] that by simp
  note IH = Cons.IH [OF this]
  show ?case by (simp only: p val_loop.simps b x if_True Let_def IH [unfolded Let_def] list.map fst_conv foldl.simps)
qed simp

text \<open>What \<^const>\<open>shamirCombine\<close> returns on shares taken at the positions
  \<open>1, 2, \<dots>\<close>: the shares must be those positions' evaluations.\<close>

lemma shamirCombine_positional:
  assumes "2 \<le> k" "k \<le> length shares" "length shares \<le> 255"
    and sh: "\<And>i. i < length shares \<Longrightarrow>
      shares ! i = map (\<lambda>cs. evaluatePolynomial cs (word_of_nat (i + 1))) polys"
    and polys: "\<And>cs. cs \<in> set polys \<Longrightarrow> length cs = k"
  shows "shamirCombine shares = Inr (map hd polys)"
proof -
  define xs :: "byte list" where "xs = map (\<lambda>i. word_of_nat (i + 1)) [0..<length shares]"
  have len: "length xs = length shares" by (simp add: xs_def)
  have nth: "xs ! i = word_of_nat (i + 1)" if "i < length shares" for i
    using that by (simp add: xs_def)
  have d: "distinct xs"
    using assms(3) by (auto simp: xs_def distinct_map byte_of_nat_inj simp del: of_nat_Suc of_nat_add intro!: inj_onI)
  have "val_loop shares xs b (enumerate 0 xs) 0 = Inr (hd (polys ! b))" if b: "b < length polys" for b
  proof -
    have k: "length (polys ! b) = k" using polys b by auto
    let ?L = "\<lambda>i. let nd = num_den_loop i (xs ! i) (enumerate 0 xs) (1, 1)
                  in gf256Mul (fst nd) (gf256Inv (snd nd))"
    have "val_loop shares xs b (enumerate 0 xs) 0
        = Inr (foldl (\<lambda>v i. v XOR gf256Mul (shares ! i ! b) (?L i)) 0 [0..<length xs])"
      using b by (subst val_loop_result) (auto simp: enumerate_0_map sh len comp_def)
    also have "foldl (\<lambda>v i. v XOR gf256Mul (shares ! i ! b) (?L i)) 0 [0..<length xs] = hd (polys ! b)"
    proof (rule agent_field.interpolate_at_zero [OF d])
      show "length (polys ! b) \<le> length xs" "polys ! b \<noteq> []" using k assms(1,2) len by auto
      show "Abs_gf256 (shares ! i ! b) = peval (map Abs_gf256 (polys ! b)) (Abs_gf256 (xs ! i))"
        if "i < length xs" for i
        using that b by (simp only: len sh nth nth_map evaluatePolynomial_peval)
    qed (simp only: Let_def lagrange_num_den [OF refl])
    finally show ?thesis .
  qed
  hence "result_map_list (\<lambda>b. val_loop shares xs b (enumerate 0 xs) 0) [0..<length polys]
      = Inr (map (\<lambda>b. hd (polys ! b)) [0..<length polys])"
    by (intro result_map_list_Inr) simp
  moreover have "map (\<lambda>b. hd (polys ! b)) [0..<length polys] = map hd polys"
    by (rule nth_equalityI) simp_all
  moreover have "0 < length shares" using assms(1,2) by linarith
  hence "length (shares ! 0) = length polys" using sh [of 0] by simp
  ultimately show ?thesis using assms(1,2) by (simp add: shamirCombine_def xs_def)
qed

section \<open>Returning of the loops\<close>

lemma split_bytes_total:
  assumes "\<And>b. b \<in> set bs \<Longrightarrow> rnd b \<noteq> None"
  shows "\<exists>shares'. split_bytes rnd secret k bs shares = Inr shares'"
  using assms by (induction bs arbitrary: shares) (auto split: option.splits simp: Let_def)

lemma Split_total:
  assumes "2 \<le> k" "k \<le> n" "n \<le> 255" "secret \<noteq> []" "\<And>b. b < length secret \<Longrightarrow> rnd b \<noteq> None"
  shows "\<exists>shares. Split rnd secret n k = Inr shares"
  using assms split_bytes_total [of "[0..<length secret]" rnd secret] by (auto simp: Split_def)

lemma hd_byte_poly: "map hd (map (byte_poly rnd secret k) [0..<length secret]) = secret"
  by (simp add: byte_poly_def comp_def map_nth)

lemma shamirSplit_result:
  assumes "shamirSplit rnd secret n k = Inr shares"
  shows "2 \<le> k" "k \<le> n" "length shares = n"
    "\<And>i. i < n \<Longrightarrow> shares ! i = map (\<lambda>cs. evaluatePolynomial cs (word_of_nat (i + 1)))
       (map (byte_poly rnd secret k) [0..<length secret])"
proof -
  show k: "2 \<le> k" "k \<le> n" using assms by (auto simp: shamirSplit_def split: if_splits)
  hence *: "shamirSplit_bytes rnd secret k [0..<length secret] (replicate n (replicate (length secret) 0))
      = Inr shares"
    using assms by (simp add: shamirSplit_def)
  have sh: "shares = map (\<lambda>i. map (\<lambda>b. if b \<in> set [0..<length secret]
       then evaluatePolynomial (byte_poly rnd secret k b) (word_of_nat (i + 1))
       else replicate n (replicate (length secret) 0) ! i ! b) [0..<length secret])
       [0..<length (replicate n (replicate (length secret) (0 :: byte)))]"
    by (rule shamirSplit_bytes_result [OF *]) auto
  show "length shares = n" by (simp add: sh)
  show "shares ! i = map (\<lambda>cs. evaluatePolynomial cs (word_of_nat (i + 1)))
       (map (byte_poly rnd secret k) [0..<length secret])" if "i < n" for i
    using that by (simp add: sh)
qed

lemma shamirCombine_prefix:
  assumes "shamirSplit rnd secret n k = Inr shares" "n \<le> 255" "k \<le> m" "m \<le> n"
  shows "shamirCombine (take m shares) = Inr secret"
proof -
  note sp = shamirSplit_result [OF assms(1)]
  let ?polys = "map (byte_poly rnd secret k) [0..<length secret]"
  have "shamirCombine (take m shares) = Inr (map hd ?polys)"
  proof (rule shamirCombine_positional [of k])
    show "take m shares ! i = map (\<lambda>cs. evaluatePolynomial cs (word_of_nat (i + 1))) ?polys"
      if "i < length (take m shares)" for i
      using that sp(3,4) by simp
  qed (use sp assms in \<open>auto simp: byte_poly_def\<close>)
  thus ?thesis by (simp only: hd_byte_poly)
qed

text \<open>On shares of equal length \<^const>\<open>shamirCombine\<close> always returns a value.\<close>

lemma shamirCombine_returns:
  assumes "2 \<le> length shares" "\<And>s. s \<in> set shares \<Longrightarrow> length s = l"
  shows "\<exists>y. shamirCombine shares = Inr y"
proof -
  let ?xs = "map (\<lambda>i. word_of_nat (i + 1)) [0..<length shares] :: byte list"
  have l0: "length (shares ! 0) = l" using assms by (intro assms(2) nth_mem) linarith
  have "\<exists>y. val_loop shares ?xs b (enumerate 0 ?xs) 0 = Inr y" if "b < l" for b
    using that assms(2) by (subst val_loop_result) (auto simp: enumerate_0_map)
  then obtain f where "\<And>b. b < l \<Longrightarrow> val_loop shares ?xs b (enumerate 0 ?xs) 0 = Inr (f b)" by metis
  hence "result_map_list (\<lambda>b. val_loop shares ?xs b (enumerate 0 ?xs) 0) [0..<l] = Inr (map f [0..<l])"
    by (intro result_map_list_Inr) simp
  thus ?thesis using assms(1) by (simp add: shamirCombine_def l0)
qed

section \<open>Distribution and reconstruction of the disk key\<close>

lemma store_shares_all:
  "store_shares auth put l stored = (None, stored') \<Longrightarrow> stored' = stored @ l"
  by (induction auth put l stored rule: store_shares.induct) (auto split: if_splits)

lemma fetch_round_all:
  assumes "\<And>p. p \<in> set peers \<Longrightarrow> fetch p = Some (sh p)" "length shares \<le> k"
  shows "fetch_round fetch k peers shares = take (Suc k) (shares @ map sh peers)"
  using assms
proof (induction peers arbitrary: shares)
  case (Cons p peers)
  have IH: "length (shares @ [sh p]) \<le> k \<Longrightarrow>
      fetch_round fetch k peers (shares @ [sh p]) = take (Suc k) ((shares @ [sh p]) @ map sh peers)"
    using Cons by (intro Cons.IH) auto
  show ?case
  proof (cases "length shares = k")
    case True
    thus ?thesis using Cons.prems by simp
  next
    case False
    thus ?thesis using Cons.prems IH by simp
  qed
qed simp

lemma luks_threshold_le: "luks_threshold n \<le> n"
  by (auto simp: luks_threshold_def Let_def)

lemma DistributeKeyShares_ok:
  assumes "DistributeKeyShares rnd auth put key peers = (None, stored)"
  obtains shares where "shamirSplit rnd key (length peers) (luks_threshold (length peers)) = Inr shares"
    "stored = zip peers shares"
  using assms unfolding DistributeKeyShares_def Let_def
  by (auto split: if_splits sum.splits dest: store_shares_all)

section \<open>Properties\<close>

text \<open>C1: Splitting a non-empty secret into \<open>n\<close> shares with threshold \<open>k\<close>
  (\<open>2 \<le> k \<le> n \<le> 255\<close>, randomness available) succeeds, gives \<open>n\<close> shares, and
  \<^verbatim>\<open>Combine\<close> on any selection of at least \<open>k\<close> distinct shares, in any order,
  returns the secret.\<close>

theorem Split_then_Combine:
  assumes "2 \<le> k" "k \<le> n" "n \<le> 255" "secret \<noteq> []" "\<And>b. b < length secret \<Longrightarrow> rnd b \<noteq> None"
  shows "\<exists>shares. Split rnd secret n k = Inr shares \<and> length shares = nat n \<and>
    (\<forall>sub. set sub \<subseteq> set shares \<and> distinct sub \<and> k \<le> int (length sub) \<longrightarrow> Combine sub = Inr secret)"
proof -
  obtain shares where sh: "Split rnd secret n k = Inr shares" using Split_total assms by blast
  note so = Split_shares_of [OF sh]
  have "Combine sub = Inr secret" if "set sub \<subseteq> set shares" "distinct sub" "k \<le> int (length sub)" for sub
    using Combine_shares_of [OF shares_of_subset [OF so(1) that(1,2)]] that(3) assms(1)
    by (simp only: hd_byte_poly)
  thus ?thesis using sh so(2) by blast
qed

theorem Split_then_Combine_witness:
  "\<exists>shares. Split (\<lambda>b. Some (\<lambda>j. 7)) [0x53, 0xCA] 3 2 = Inr shares \<and>
     Combine [shares ! 2, shares ! 0] = Inr [0x53, 0xCA]"
proof -
  obtain shares where sh: "Split (\<lambda>b. Some (\<lambda>j. 7)) [0x53, 0xCA] 3 2 = Inr shares"
    "length shares = nat 3"
    and c: "\<And>sub. set sub \<subseteq> set shares \<and> distinct sub \<and> 2 \<le> int (length sub) \<Longrightarrow>
      Combine sub = Inr [0x53, 0xCA]"
    using Split_then_Combine [of 2 3 "[0x53, 0xCA]" "\<lambda>b. Some (\<lambda>j. 7)"] by auto
  have "distinct (map X shares)" using Split_shares_of(1) [OF sh(1)] by (simp add: shares_of_def)
  hence "distinct shares" by (simp add: distinct_map)
  hence "Combine [shares ! 2, shares ! 0] = Inr [0x53, 0xCA]"
    using sh(2) by (intro c) (auto simp: nth_eq_iff_index_eq)
  thus ?thesis using sh(1) by blast
qed

lemma evaluatePolynomial_Cons:
  "Abs_gf256 (evaluatePolynomial (s # cs) x) = Abs_gf256 s + Abs_gf256 x * peval (map Abs_gf256 cs) (Abs_gf256 x)"
  by (simp add: evaluatePolynomial_peval)

lemma hidden_tail:
  fixes xs ys :: "byte list"
  assumes "distinct xs" "0 \<notin> set xs" "length ys = length xs"
  shows "\<exists>!tail. length tail = length xs \<and> map (evaluatePolynomial (s # tail)) xs = ys"
proof -
  let ?z = "map (\<lambda>(x, y). (Abs_gf256 y - Abs_gf256 s) / Abs_gf256 x) (zip xs ys)"
  have eq: "map (evaluatePolynomial (s # tail)) xs = ys \<longleftrightarrow>
      map (peval (map Abs_gf256 tail)) (map Abs_gf256 xs) = ?z" for tail
  proof -
    have "evaluatePolynomial (s # tail) (xs ! i) = ys ! i \<longleftrightarrow>
        peval (map Abs_gf256 tail) (Abs_gf256 (xs ! i)) = (Abs_gf256 (ys ! i) - Abs_gf256 s) / Abs_gf256 (xs ! i)"
      if "i < length xs" for i
    proof -
      have "Abs_gf256 (xs ! i) \<noteq> 0" using assms(2) that by (metis Abs_gf256_eq_0 nth_mem)
      moreover have "evaluatePolynomial (s # tail) (xs ! i) = ys ! i \<longleftrightarrow>
          Abs_gf256 s + Abs_gf256 (xs ! i) * peval (map Abs_gf256 tail) (Abs_gf256 (xs ! i)) = Abs_gf256 (ys ! i)"
        by (metis Abs_gf256_inj evaluatePolynomial_Cons)
      ultimately show ?thesis by (auto simp: field_simps)
    qed
    thus ?thesis using assms(3) by (simp add: map_eq_nth_iff)
  qed
  have "distinct (map Abs_gf256 xs)" using assms(1) by (simp add: distinct_map inj_on_def)
  from unique_interpolant [OF this, of ?z]
  obtain cs where cs: "length cs = length xs" "map (peval cs) (map Abs_gf256 xs) = ?z"
    and un: "\<And>ds. length ds = length xs \<Longrightarrow> map (peval ds) (map Abs_gf256 xs) = ?z \<Longrightarrow> ds = cs"
    using assms(3) by auto
  have "map Abs_gf256 (map Rep_gf256 cs) = cs" by (simp add: comp_def Rep_gf256_inverse)
  moreover have "tail = map Rep_gf256 cs"
    if "length tail = length xs" "map (peval (map Abs_gf256 tail)) (map Abs_gf256 xs) = ?z" for tail
  proof -
    have "map Abs_gf256 tail = cs" using that by (intro un) simp_all
    hence "map Rep_gf256 cs = map Rep_gf256 (map Abs_gf256 tail)" by simp
    thus ?thesis by (simp add: comp_def Abs_gf256_inverse)
  qed
  ultimately show ?thesis
    using cs unfolding eq by (intro ex1I [of _ "map Rep_gf256 cs"]) simp_all
qed

text \<open>Fewer than \<open>k\<close> shares reveal nothing, per byte: for any \<open>k - 1\<close>
  distinct non-zero evaluation points, any observed values at them and any
  candidate secret byte there is exactly one choice of the \<open>k - 1\<close> random
  coefficients of \<^verbatim>\<open>Split\<close> that explains the observation.\<close>

lemma k_minus_1_shares_hide_byte:
  assumes "distinct xs" "0 \<notin> set xs" "length ys = length xs"
  shows "\<exists>!coeffs. length coeffs = length xs \<and> map (evaluatePolynomial (secretByte # coeffs)) xs = ys"
  using assms by (rule hidden_tail)

lemma k_minus_1_shares_hide_byte_example:
  "\<exists>!coeffs. length coeffs = length [1, 2 :: byte] \<and>
     map (evaluatePolynomial (0x42 # coeffs)) [1, 2] = [0x10, 0x20]"
  using k_minus_1_shares_hide_byte [where xs = "[1, 2]" and ys = "[0x10, 0x20]" and secretByte = "0x42"] by simp

text \<open>C7: Fewer than \<open>k\<close> shares reveal nothing about the secret: whatever \<open>k - 1\<close> of the shares
  of one secret are observed, every other secret of the same length has a run
  of \<^verbatim>\<open>Split\<close> that produces exactly these shares.\<close>

theorem Split_perfectly_hiding:
  assumes sp: "Split rnd secret n k = Inr shares"
    and idx: "distinct idx" "set idx \<subseteq> {..<nat n}" "length idx = nat k - 1"
    and len: "length secret' = length secret"
  shows "\<exists>rnd' shares'. Split rnd' secret' n k = Inr shares' \<and> (\<forall>i\<in>set idx. shares' ! i = shares ! i)"
proof -
  note so = Split_shares_of [OF sp]
  let ?x = "\<lambda>i. word_of_nat (i + 1) :: byte"
  have i255: "i + 1 < 256" if "i \<in> set idx" for i using that idx(2) so(5) by force
  have "distinct (map ?x idx)" "0 \<notin> set (map ?x idx)"
    using idx(1) i255 byte_of_nat_inj [of _ 0]
    by (auto simp: distinct_map byte_of_nat_inj simp del: of_nat_Suc of_nat_add intro!: inj_onI)
  hence "\<exists>tail. length tail = nat k - 1 \<and>
      map (evaluatePolynomial (secret' ! b # tail)) (map ?x idx) = map (\<lambda>i. Y (shares ! i) ! b) idx" for b
    using hidden_tail [of "map ?x idx" "map (\<lambda>i. Y (shares ! i) ! b) idx" "secret' ! b"] idx(3) by auto
  then obtain tl where tl: "\<And>b. length (tl b) = nat k - 1"
    "\<And>b. map (evaluatePolynomial (secret' ! b # tl b)) (map ?x idx) = map (\<lambda>i. Y (shares ! i) ! b) idx"
    by metis
  let ?rnd = "\<lambda>b. Some (\<lambda>j. tl b ! j)"
  obtain shares' where sp': "Split ?rnd secret' n k = Inr shares'"
    using Split_total [of k n secret' ?rnd] so(3-6) len by (cases secret') auto
  have bp: "byte_poly ?rnd secret' (nat k) b = secret' ! b # tl b" for b
    using tl(1) [of b] by (simp add: byte_poly_def) (metis map_nth)
  have "shares' ! i = shares ! i" if "i \<in> set idx" for i
  proof -
    have "evaluatePolynomial (secret' ! b # tl b) (?x i) = Y (shares ! i) ! b" for b
      using tl(2) [of b] that by (simp add: map_eq_conv)
    thus ?thesis
      using so(7) [of i] Split_shares_of(7) [OF sp', of i] that idx(2) len
      by (auto simp: bp simp del: of_nat_Suc of_nat_add)
  qed
  thus ?thesis using sp' by blast
qed

theorem Split_perfectly_hiding_witness:
  "\<exists>rnd' shares'. Split rnd' [0xFF] 3 2 = Inr shares' \<and>
     (\<forall>i\<in>set [1]. shares' ! i = [\<lparr>X = 1, Y = [0x41]\<rparr>, \<lparr>X = 2, Y = [0x42]\<rparr>, \<lparr>X = 3, Y = [0x43]\<rparr>] ! i)"
proof (rule Split_perfectly_hiding)
  show "Split (\<lambda>b. Some (\<lambda>j. 1)) [0x40] 3 2
      = Inr [\<lparr>X = 1, Y = [0x41]\<rparr>, \<lparr>X = 2, Y = [0x42]\<rparr>, \<lparr>X = 3, Y = [0x43]\<rparr>]"
    by (simp add: Split_def upt_rec_numeral evaluatePolynomial_def Add_def numeral_2_eq_2 numeral_3_eq_3)
qed simp_all

text \<open>The agent's \<^verbatim>\<open>shamirCombine\<close> inverts its \<^verbatim>\<open>shamirSplit\<close> on every
  prefix of at least \<open>k\<close> shares, in the order in which they were produced.\<close>

lemma shamirCombine_inverts_prefix:
  assumes "shamirSplit rnd secret n k = Inr shares" "n \<le> 255" "k \<le> m" "m \<le> n"
  shows "shamirCombine (take m shares) = Inr secret"
  using assms by (rule shamirCombine_prefix)

lemma shamirCombine_inverts_prefix_example:
  "shamirCombine (take 2 [[0x41], [0x42], [0x43]]) = Inr [0x40]"
proof (rule shamirCombine_inverts_prefix)
  show "shamirSplit (\<lambda>b. Some (\<lambda>j. 1)) [0x40] 3 2 = Inr [[0x41], [0x42], [0x43]]"
    by (simp add: shamirSplit_def numeral_3_eq_3 numeral_2_eq_2 evalPolynomial_def gf256Mul_Mul)
qed simp_all

text \<open>C33: End to end, when every peer answers at the first attempt: the key that
  \<^verbatim>\<open>DistributeKeyShares\<close> stored on the peers is the key that
  \<^verbatim>\<open>FetchAndReconstruct\<close> returns.\<close>

theorem disk_key_roundtrip:
  assumes "DistributeKeyShares rnd auth put key peers = (None, stored)" "distinct peers" "length peers \<le> 255"
    and fetch: "\<And>p. p \<in> set peers \<Longrightarrow> fetch 0 p = map_of stored p"
  shows "\<exists>warned. FetchAndReconstruct fetch peers = Inr (key, warned)"
proof -
  let ?n = "length peers" and ?k = "luks_threshold (length peers)"
  obtain shares where sp: "shamirSplit rnd key ?n ?k = Inr shares" and st: "stored = zip peers shares"
    using assms(1) by (rule DistributeKeyShares_ok)
  note r = shamirSplit_result [OF sp]
  have "map_of stored p = Some (the (map_of stored p))" if "p \<in> set peers" for p
    using that r(3) by (auto simp: st map_of_zip_is_None [symmetric])
  hence "fetch_round (fetch 0) ?k peers [] = take (Suc ?k) ([] @ map (\<lambda>p. the (map_of stored p)) peers)"
    using fetch by (intro fetch_round_all) simp_all
  moreover have "map (\<lambda>p. the (map_of stored p)) peers = shares"
    using assms(2) r(3) by (intro nth_equalityI) (simp_all add: st map_of_zip_nth)
  ultimately have fr: "fetch_round (fetch 0) ?k peers [] = take (Suc ?k) shares" by simp
  hence fa: "fetch_attempts fetch ?k peers [0..<6] [] = take (Suc ?k) shares"
    using r(2,3) by (simp add: upt_conv_Cons)
  have len: "?k \<le> length (take (Suc ?k) shares)" using r(2,3) by simp
  have c1: "shamirCombine (take ?k (take (Suc ?k) shares)) = Inr key"
    using shamirCombine_prefix [OF sp assms(3) order_refl r(2)] by (simp add: min_def)
  have "\<exists>y. shamirCombine (take ?k (drop 1 (take (Suc ?k) shares))) = Inr y"
    if "length (take (Suc ?k) shares) > ?k"
  proof -
    let ?sh = "take ?k (drop 1 (take (Suc ?k) shares))"
    have l: "length ?sh = ?k" using that r(2,3) by simp
    have "length (?sh ! i) = length key" if "i < ?k" for i
      using that r l by (auto simp: nth_append)
    thus ?thesis using l r(1) by (intro shamirCombine_returns) (auto simp: in_set_conv_nth)
  qed
  thus ?thesis
    unfolding FetchAndReconstruct_def Let_def fa c1 result_bind.simps using len by auto
qed

lemma split_example:
  "shamirSplit (\<lambda>b. Some (\<lambda>j. if j = 0 then 1 else 0)) [0x40] 4 3 = Inr [[0x41], [0x42], [0x43], [0x44]]"
  by (simp add: shamirSplit_def eval_nat_numeral evalPolynomial_def gf_eval)

lemma four_peers: "length [''p1'', ''p2'', ''p3'', ''p4''] = 4" "luks_threshold 4 = 3"
  by (simp_all add: luks_threshold_def)

lemma distribute_example:
  "DistributeKeyShares (\<lambda>b. Some (\<lambda>j. if j = 0 then 1 else 0)) (\<lambda>p. True) (\<lambda>p s. True) [0x40]
     [''p1'', ''p2'', ''p3'', ''p4'']
   = (None, [(''p1'', [0x41]), (''p2'', [0x42]), (''p3'', [0x43]), (''p4'', [0x44])])"
  unfolding DistributeKeyShares_def Let_def four_peers split_example by simp

theorem disk_key_roundtrip_witness:
  "\<exists>warned. FetchAndReconstruct (\<lambda>attempt. map_of [(''p1'', [0x41]), (''p2'', [0x42]), (''p3'', [0x43]), (''p4'', [0x44])])
     [''p1'', ''p2'', ''p3'', ''p4''] = Inr ([0x40], warned)"
  by (rule disk_key_roundtrip [OF distribute_example]) simp_all

lemma combine_examples:
  "shamirCombine [[0x42], [0x43], [0x44]] = Inr [0x45]"
  "shamirCombine [[0x41], [0x42], [0x43]] = Inr [0x40]"
proof -
  have inv: "gf256Inv 6 = 0x7B" "gf256Inv 3 = 0xF6" "gf256Inv 2 = 0x8D"
    by (rule gf256Inv_unique; simp add: gf_eval)+
  show "shamirCombine [[0x42], [0x43], [0x44]] = Inr [0x45]"
    "shamirCombine [[0x41], [0x42], [0x43]] = Inr [0x40]"
    by (simp_all add: shamirCombine_def gf_eval inv)
qed

text \<open>C34: The shares the agent stores do not carry their evaluation point, and
  \<^verbatim>\<open>FetchAndReconstruct\<close> numbers the fetched shares by their position.  With
  four honest peers and threshold three, one peer that does not answer makes it
  return a wrong key without an error, and when all peers answer it reports a
  malicious share although every share is genuine.\<close>

theorem missing_peer_gives_wrong_key:
  "\<exists>rnd stored. DistributeKeyShares rnd (\<lambda>p. True) (\<lambda>p s. True) [0x40] [''p1'', ''p2'', ''p3'', ''p4''] = (None, stored)
    \<and> FetchAndReconstruct (\<lambda>attempt p. if p = ''p1'' then None else map_of stored p)
         [''p1'', ''p2'', ''p3'', ''p4''] = Inr ([0x45], False)
    \<and> FetchAndReconstruct (\<lambda>attempt p. map_of stored p)
         [''p1'', ''p2'', ''p3'', ''p4''] = Inr ([0x40], True)"
proof -
  let ?all = "map_of [(''p1'', [0x41]), (''p2'', [0x42]), (''p3'', [0x43]), (''p4'', [0x44 :: byte])]"
  have fetched: "fetch_attempts (\<lambda>attempt p. if p = ''p1'' then None else ?all p) 3
      [''p1'', ''p2'', ''p3'', ''p4''] [0..<6] [] = [[0x42], [0x43], [0x44]]"
    "fetch_attempts (\<lambda>attempt p. ?all p) 3 [''p1'', ''p2'', ''p3'', ''p4''] [0..<6] []
      = [[0x41], [0x42], [0x43], [0x44]]"
    by (simp_all add: upt_conv_Cons)
  have "FetchAndReconstruct (\<lambda>attempt p. if p = ''p1'' then None else ?all p)
      [''p1'', ''p2'', ''p3'', ''p4''] = Inr ([0x45], False)"
    "FetchAndReconstruct (\<lambda>attempt p. ?all p) [''p1'', ''p2'', ''p3'', ''p4''] = Inr ([0x40], True)"
    unfolding FetchAndReconstruct_def Let_def four_peers fetched by (simp_all add: combine_examples)
  thus ?thesis using distribute_example by blast
qed

end
