(* ===== verification/Vault_Handlers.thy ===== *)
theory Vault_Handlers
  imports Secret_Sharing Base64_Std Gateway_Rate_Limit "HOL-Library.Char_ord"
begin

text \<open>
  The vault proxy of the gateway (\<^verbatim>\<open>core/pkg/gateway/handlers/vault\<close>):
  \<^verbatim>\<open>HandlePush\<close> splits an encrypted envelope over the active nodes and
  \<^verbatim>\<open>HandlePull\<close> reconstructs it.

  The guardians are separate services: the answer of guardian number \<open>i\<close> to a
  push is a status code or no answer, and its answer to a pull a status code
  with the decoded \<^verbatim>\<open>share\<close> field of its body.  The decoding of the client's
  JSON body, the rows of the node table, the clock and the randomness are
  arguments.  A handler returns its response and the new state of its rate
  limiter; \<^verbatim>\<open>HandlePush\<close> also returns the requests it sent, in the order of
  the guardians, with whether each was acknowledged.
\<close>

section \<open>handlers.go\<close>

datatype sql_value = SqlText string | SqlOther

record guardian =
  g_IP :: string
  g_Port :: int

definition VaultGuardianPort :: int where "VaultGuardianPort = 7500"
definition maxPushBodySize :: nat where "maxPushBodySize = 2 ^ 20"
definition maxPullBodySize :: nat where "maxPullBodySize = 4 * 2 ^ 10"

fun getString :: "sql_value \<Rightarrow> string" where
  "getString (SqlText s) = s"
| "getString SqlOther = ''''"

fun guardians_of :: "sql_value list list \<Rightarrow> guardian list" where
  "guardians_of [] = []"
| "guardians_of ([] # rows) = guardians_of rows"
| "guardians_of ((v # vs) # rows) =
     (if getString v = '''' then guardians_of rows
      else \<lparr>g_IP = getString v, g_Port = VaultGuardianPort\<rparr> # guardians_of rows)"

definition discoverGuardians :: "sql_value list list option \<Rightarrow> guardian list option" where
  "discoverGuardians result =
     (case result of
        None \<Rightarrow> None
      | Some rows \<Rightarrow> (let gs = guardians_of rows in if gs = [] then None else Some gs))"

definition hex_digit :: "char \<Rightarrow> bool" where
  "hex_digit c \<longleftrightarrow> (CHR ''0'' \<le> c \<and> c \<le> CHR ''9'') \<or> (CHR ''a'' \<le> c \<and> c \<le> CHR ''f'') \<or> (CHR ''A'' \<le> c \<and> c \<le> CHR ''F'')"

definition isValidIdentity :: "string \<Rightarrow> bool" where
  "isValidIdentity identity \<longleftrightarrow> length identity = 64 \<and> list_all hex_digit identity"

section \<open>push\_handler.go\<close>

record PushRequest =
  push_Identity :: string
  push_Envelope :: string
  push_Version :: "64 word"

record PushResponse =
  Status :: string
  AckCount :: int
  Total :: int
  Quorum :: int
  Threshold :: int

record guardianPushRequest =
  gp_Identity :: string
  gp_Share :: string
  gp_Version :: "64 word"

record PullResponse =
  pull_Envelope :: string
  Collected :: int
  pull_Threshold :: int

datatype vault_response =
    VaultError int
  | PushOk PushResponse
  | PullOk PullResponse

type_synonym guardian_push = "nat \<Rightarrow> guardian \<Rightarrow> guardianPushRequest \<Rightarrow> int option"
type_synonym guardian_pull = "nat \<Rightarrow> guardian \<Rightarrow> string \<Rightarrow> (int \<times> string option) option"

definition acknowledged :: "int option \<Rightarrow> bool" where
  "acknowledged resp = (case resp of None \<Rightarrow> False | Some code \<Rightarrow> 200 \<le> code \<and> code < 300)"

definition share_request :: "PushRequest \<Rightarrow> share \<Rightarrow> guardianPushRequest" where
  "share_request req s =
     \<lparr>gp_Identity = push_Identity req, gp_Share = EncodeToString (X s # Y s), gp_Version = push_Version req\<rparr>"

definition fan_out :: "guardian_push \<Rightarrow> PushRequest \<Rightarrow> guardian list \<Rightarrow> share list
    \<Rightarrow> (guardian \<times> guardianPushRequest \<times> bool) list" where
  "fan_out post req guardians shares =
     map (\<lambda>(i, g). (let r = share_request req (shares ! i) in (g, r, acknowledged (post i g r))))
       (enumerate 0 guardians)"

definition HandlePush :: "(string \<Rightarrow> PushRequest option) \<Rightarrow> rand_source \<Rightarrow> time_ns \<Rightarrow> string \<Rightarrow> string option
    \<Rightarrow> sql_value list list option \<Rightarrow> guardian_push \<Rightarrow> IdentityRateLimiter
    \<Rightarrow> vault_response \<times> IdentityRateLimiter \<times> (guardian \<times> guardianPushRequest \<times> bool) list" where
  "HandlePush unmarshal rnd now meth body rows post rl =
     (if meth \<noteq> ''POST'' then (VaultError 405, rl, [])
      else case body of None \<Rightarrow> (VaultError 400, rl, []) | Some raw \<Rightarrow>
      (case unmarshal (take maxPushBodySize raw) of None \<Rightarrow> (VaultError 400, rl, []) | Some req \<Rightarrow>
       if \<not> isValidIdentity (push_Identity req) then (VaultError 400, rl, [])
       else case DecodeString (push_Envelope req) of None \<Rightarrow> (VaultError 400, rl, []) | Some envelopeBytes \<Rightarrow>
       if length envelopeBytes = 0 then (VaultError 400, rl, [])
       else let (ok, rl') = AllowPush now (push_Identity req) rl in
       if \<not> ok then (VaultError 429, rl', [])
       else case discoverGuardians rows of None \<Rightarrow> (VaultError 503, rl', []) | Some guardians \<Rightarrow>
       (let n = int (length guardians); k = AdaptiveThreshold n; quorum = WriteQuorum n in
        case Split rnd envelopeBytes n k of Inl _ \<Rightarrow> (VaultError 500, rl', []) | Inr shares \<Rightarrow>
        (let sent = fan_out post req guardians shares;
             ack = int (length (filter (\<lambda>(g, r, a). a) sent))
         in (PushOk \<lparr>Status = (if ack < quorum then ''partial'' else ''ok''), AckCount = ack, Total = n,
                      Quorum = quorum, Threshold = k\<rparr>, rl', sent)))))"

section \<open>pull\_handler.go\<close>

definition pulled_share :: "(int \<times> string option) option \<Rightarrow> share option" where
  "pulled_share resp =
     (case resp of
        None \<Rightarrow> None
      | Some (code, field) \<Rightarrow>
          if code < 200 \<or> 300 \<le> code then None
          else case field of None \<Rightarrow> None | Some b64 \<Rightarrow>
            (case DecodeString b64 of None \<Rightarrow> None | Some bs \<Rightarrow>
               if length bs < 2 then None else Some \<lparr>X = hd bs, Y = tl bs\<rparr>))"

definition collect_shares :: "guardian_pull \<Rightarrow> string \<Rightarrow> guardian list \<Rightarrow> share list" where
  "collect_shares fetch identity guardians =
     List.map_filter (\<lambda>(i, g). pulled_share (fetch i g identity)) (enumerate 0 guardians)"

definition HandlePull :: "(string \<Rightarrow> string option) \<Rightarrow> time_ns \<Rightarrow> string \<Rightarrow> string option
    \<Rightarrow> sql_value list list option \<Rightarrow> guardian_pull \<Rightarrow> IdentityRateLimiter
    \<Rightarrow> vault_response \<times> IdentityRateLimiter" where
  "HandlePull unmarshal now meth body rows fetch rl =
     (if meth \<noteq> ''POST'' then (VaultError 405, rl)
      else case body of None \<Rightarrow> (VaultError 400, rl) | Some raw \<Rightarrow>
      (case unmarshal (take maxPullBodySize raw) of None \<Rightarrow> (VaultError 400, rl) | Some identity \<Rightarrow>
       if \<not> isValidIdentity identity then (VaultError 400, rl)
       else let (ok, rl') = AllowPull now identity rl in
       if \<not> ok then (VaultError 429, rl')
       else case discoverGuardians rows of None \<Rightarrow> (VaultError 503, rl') | Some guardians \<Rightarrow>
       (let n = int (length guardians); k = AdaptiveThreshold n;
            shares = collect_shares fetch identity guardians in
        if int (length shares) < k then (VaultError 503, rl')
        else case Combine (take (nat k) shares) of Inl _ \<Rightarrow> (VaultError 500, rl') | Inr envelope \<Rightarrow>
          (PullOk \<lparr>pull_Envelope = EncodeToString envelope, Collected = int (length shares),
                   pull_Threshold = k\<rparr>, rl'))))"

section \<open>From a push to a pull\<close>

lemma pulled_share_request [simp]:
  "Y s \<noteq> [] \<Longrightarrow> 200 \<le> code \<Longrightarrow> code < 300 \<Longrightarrow> pulled_share (Some (code, Some (gp_Share (share_request req s)))) = Some s"
  by (cases "Y s") (simp_all add: pulled_share_def share_request_def)

lemma length_fan_out [simp]: "length (fan_out post req gs shares) = length gs"
  by (simp add: fan_out_def)

lemma fan_out_nth:
  "i < length gs \<Longrightarrow> fan_out post req gs shares ! i =
     (gs ! i, share_request req (shares ! i), acknowledged (post i (gs ! i) (share_request req (shares ! i))))"
  by (simp add: fan_out_def nth_enumerate_eq Let_def)

text \<open>With at least four guardians a write quorum is a read quorum.\<close>

lemma quorum_covers_threshold: "4 \<le> n \<Longrightarrow> AdaptiveThreshold n \<le> WriteQuorum n"
  using zdiv_mono1 [of 10 "2 * n + 2" 3] zdiv_mono1 [of n "2 * n + 2" 3]
  by (simp add: AdaptiveThreshold_def WriteQuorum_def Let_def)

lemma threshold_ge_3: "3 \<le> AdaptiveThreshold n"
  by (simp add: AdaptiveThreshold_def Let_def)

text \<open>The shares a pull collects, when each guardian that answers returns the
  share it was sent.\<close>

lemma collect_sent:
  assumes "length shares = length gs" "distinct shares"
    and "\<And>i. i < length gs \<Longrightarrow> pulled_share (fetch i (gs ! i) identity) = (if P i then Some (shares ! i) else None)"
  shows "collect_shares fetch identity gs = map ((!) shares) (filter P [0..<length gs])"
    and "distinct (collect_shares fetch identity gs)" "set (collect_shares fetch identity gs) \<subseteq> set shares"
proof -
  have en: "enumerate 0 gs = map (\<lambda>i. (i, gs ! i)) [0..<length gs]"
    by (rule nth_equalityI) (simp_all add: nth_enumerate_eq)
  have "List.map_filter (\<lambda>i. pulled_share (fetch i (gs ! i) identity)) is
      = map ((!) shares) (filter P is)" if "set is \<subseteq> {..<length gs}" for "is"
    using that assms(3) by (induction "is") (auto simp: List.map_filter_simps)
  from this [of "[0..<length gs]", OF eq_refl] show c: "collect_shares fetch identity gs = map ((!) shares) (filter P [0..<length gs])"
    by (simp add: collect_shares_def en List.map_filter_def filter_map comp_def lessThan_atLeast0)
  show "set (collect_shares fetch identity gs) \<subseteq> set shares"
    unfolding c using assms(1) by auto
  have "inj_on ((!) shares) (set (filter P [0..<length gs]))"
    using assms(1,2) by (intro inj_onI) (simp add: nth_eq_iff_index_eq)
  thus "distinct (collect_shares fetch identity gs)" unfolding c by (simp add: distinct_map)
qed

lemma Combine_taken:
  assumes "Split rnd secret n k = Inr shares" "set sub \<subseteq> set shares" "distinct sub" "k \<le> int (length sub)"
  shows "Combine (take (nat k) sub) = Inr secret"
proof -
  note so = Split_shares_of [OF assms(1)]
  have "set (take (nat k) sub) \<subseteq> set shares" using assms(2) by (auto dest: in_set_takeD)
  hence "shares_of (map (byte_poly rnd secret (nat k)) [0..<length secret]) (nat k) (take (nat k) sub)"
    using shares_of_subset [OF so(1)] assms(3) distinct_take by metis
  moreover have "nat k \<le> length (take (nat k) sub)" "2 \<le> nat k" using assms(4) so(3) by simp_all
  ultimately show ?thesis using Combine_shares_of by (metis hd_byte_poly)
qed

lemma HandlePush_ok:
  assumes "HandlePush unmarshal rnd now meth body rows post rl = (PushOk resp, rl', sent)"
  shows "\<exists>raw req env gs shares. meth = ''POST'' \<and> body = Some raw \<and> unmarshal (take maxPushBodySize raw) = Some req
    \<and> isValidIdentity (push_Identity req) \<and> DecodeString (push_Envelope req) = Some env \<and> env \<noteq> []
    \<and> discoverGuardians rows = Some gs
    \<and> Split rnd env (int (length gs)) (AdaptiveThreshold (int (length gs))) = Inr shares
    \<and> sent = fan_out post req gs shares
    \<and> resp = \<lparr>Status = (if int (length (filter (\<lambda>(g, r, a). a) sent)) < WriteQuorum (int (length gs)) then ''partial'' else ''ok''),
         AckCount = int (length (filter (\<lambda>(g, r, a). a) sent)), Total = int (length gs),
         Quorum = WriteQuorum (int (length gs)), Threshold = AdaptiveThreshold (int (length gs))\<rparr>"
  using assms unfolding HandlePush_def Let_def
  by (auto split: if_splits option.splits prod.splits sum.splits)

lemma HandlePush_split:
  assumes "unmarshal (take maxPushBodySize raw) = Some req" "isValidIdentity (push_Identity req)"
    and "DecodeString (push_Envelope req) = Some env" "env \<noteq> []" "fst (AllowPush now (push_Identity req) rl)"
    and "discoverGuardians rows = Some gs"
    and "Split rnd env (int (length gs)) (AdaptiveThreshold (int (length gs))) = Inr shares"
  shows "HandlePush unmarshal rnd now ''POST'' (Some raw) rows post rl =
    (let sent = fan_out post req gs shares; ack = int (length (filter (\<lambda>(g, r, a). a) sent))
     in (PushOk \<lparr>Status = (if ack < WriteQuorum (int (length gs)) then ''partial'' else ''ok''), AckCount = ack,
           Total = int (length gs), Quorum = WriteQuorum (int (length gs)), Threshold = AdaptiveThreshold (int (length gs))\<rparr>,
         snd (AllowPush now (push_Identity req) rl), sent))"
  using assms by (cases "AllowPush now (push_Identity req) rl") (simp add: HandlePush_def Let_def)

lemma HandlePull_ok:
  assumes "unmarshal (take maxPullBodySize raw) = Some identity" "isValidIdentity identity"
    and "fst (AllowPull now identity rl)" "discoverGuardians rows = Some gs"
    and "AdaptiveThreshold (int (length gs)) \<le> int (length (collect_shares fetch identity gs))"
    and "Combine (take (nat (AdaptiveThreshold (int (length gs)))) (collect_shares fetch identity gs)) = Inr envelope"
  shows "HandlePull unmarshal now ''POST'' (Some raw) rows fetch rl
    = (PullOk \<lparr>pull_Envelope = EncodeToString envelope, Collected = int (length (collect_shares fetch identity gs)),
         pull_Threshold = AdaptiveThreshold (int (length gs))\<rparr>, snd (AllowPull now identity rl))"
  using assms by (cases "AllowPull now identity rl") (simp add: HandlePull_def Let_def)

lemma filter_nth_count:
  "length (filter Q xs) = length (filter (\<lambda>i. Q (xs ! i)) [0..<length xs])"
proof -
  have "filter Q xs = map ((!) xs) (filter (\<lambda>i. Q (xs ! i)) [0..<length xs])"
    by (metis (no_types, lifting) comp_def filter_cong filter_map map_nth)
  thus ?thesis by simp
qed

lemma length_filter_mono: "(\<And>x. x \<in> set xs \<Longrightarrow> P x \<Longrightarrow> Q x) \<Longrightarrow> length (filter P xs) \<le> length (filter Q xs)"
  by (induction xs) (auto simp: le_SucI)

section \<open>Properties\<close>

text \<open>C2: An envelope that was pushed can be pulled.  After a push to at least
  four guardians that reported \<^verbatim>\<open>ok\<close>, a pull of the same identity that finds
  the same active nodes and is within its rate limit returns the pushed
  envelope, provided that every guardian that acknowledged returns the share it
  was sent and each other guardian returns no share or the one it was sent.\<close>

theorem push_then_pull:
  assumes push: "HandlePush unmarshal rnd now ''POST'' (Some raw) rows post rl = (PushOk resp, rl', sent)"
    and req: "unmarshal (take maxPushBodySize raw) = Some req"
    and status: "Status resp = ''ok''" "4 \<le> Total resp"
    and pull: "unmarshal' (take maxPullBodySize raw') = Some (push_Identity req)" "fst (AllowPull later (push_Identity req) rl'')"
    and acked: "\<And>i g r. i < length sent \<Longrightarrow> sent ! i = (g, r, True) \<Longrightarrow>
      fetch i g (push_Identity req) = Some (200, Some (gp_Share r))"
    and silent: "\<And>i g r. i < length sent \<Longrightarrow> sent ! i = (g, r, False) \<Longrightarrow>
      fetch i g (push_Identity req) \<in> {None, Some (404, None), Some (200, Some (gp_Share r))}"
  shows "\<exists>env collected. DecodeString (push_Envelope req) = Some env
    \<and> fst (HandlePull unmarshal' later ''POST'' (Some raw') rows fetch rl'')
      = PullOk \<lparr>pull_Envelope = EncodeToString env, Collected = collected, pull_Threshold = Threshold resp\<rparr>"
proof -
  obtain env gs shares where id: "isValidIdentity (push_Identity req)" and env: "DecodeString (push_Envelope req) = Some env"
    and gs: "discoverGuardians rows = Some gs"
    and split: "Split rnd env (int (length gs)) (AdaptiveThreshold (int (length gs))) = Inr shares"
    and sent: "sent = fan_out post req gs shares"
    and resp: "resp = \<lparr>Status = (if int (length (filter (\<lambda>(g, r, a). a) sent)) < WriteQuorum (int (length gs)) then ''partial'' else ''ok''),
         AckCount = int (length (filter (\<lambda>(g, r, a). a) sent)), Total = int (length gs),
         Quorum = WriteQuorum (int (length gs)), Threshold = AdaptiveThreshold (int (length gs))\<rparr>"
    using HandlePush_ok [OF push] req by auto
  let ?k = "AdaptiveThreshold (int (length gs))"
  let ?ack = "\<lambda>i. acknowledged (post i (gs ! i) (share_request req (shares ! i)))"
  define P where "P i \<longleftrightarrow> ?ack i \<or> fetch i (gs ! i) (push_Identity req) = Some (200, Some (gp_Share (share_request req (shares ! i))))" for i
  note so = Split_shares_of [OF split]
  have len: "length shares = length gs" using so(2) by simp
  have "distinct (map X shares)" using so(1) by (simp add: shares_of_def)
  hence dist: "distinct shares" by (simp add: distinct_map)
  have ne: "Y (shares ! i) \<noteq> []" if "i < length gs" for i using so(7) [of i] so(6) that by simp
  have honest: "pulled_share (fetch i (gs ! i) (push_Identity req)) = (if P i then Some (shares ! i) else None)" if i: "i < length gs" for i
  proof (cases "?ack i")
    case True
    thus ?thesis using acked [of i] i ne [OF i] by (simp add: sent fan_out_nth P_def)
  next
    case False
    thus ?thesis using silent [of i] i ne [OF i] by (auto simp: sent fan_out_nth P_def pulled_share_def [of None] pulled_share_def [of "Some (404, None)"])
  qed
  note col = collect_sent [where fetch = fetch and identity = "push_Identity req" and P = P, OF len dist honest, simplified]
  have "WriteQuorum (int (length gs)) \<le> int (length (filter (\<lambda>(g, r, a). a) sent))"
    using status(1) by (simp add: resp split: if_splits)
  also have "filter (\<lambda>(g, r, a). a) sent = filter (\<lambda>p. snd (snd p)) sent" by (rule filter_cong) auto
  also have "length (filter (\<lambda>p. snd (snd p)) sent) = length (filter (\<lambda>i. snd (snd (sent ! i))) [0..<length gs])"
    using filter_nth_count [of "\<lambda>p. snd (snd p)" sent] by (simp add: sent)
  also have "\<dots> \<le> length (filter P [0..<length gs])"
    by (rule length_filter_mono) (auto simp: sent fan_out_nth P_def)
  finally have "?k \<le> int (length (collect_shares fetch (push_Identity req) gs))"
    using quorum_covers_threshold [of "int (length gs)"] status(2) by (simp add: col(1) resp)
  moreover from this have "Combine (take (nat ?k) (collect_shares fetch (push_Identity req) gs)) = Inr env"
    using Combine_taken [OF split col(3,2)] by blast
  ultimately show ?thesis using HandlePull_ok [where fetch = fetch and unmarshal = unmarshal' and raw = raw', OF pull(1) id pull(2) gs] env by (simp add: resp)
qed


text \<open>Guardians that keep the share of the push they acknowledged.\<close>

definition keeps_acknowledged :: "(guardian \<times> guardianPushRequest \<times> bool) list \<Rightarrow> guardian_pull" where
  "keeps_acknowledged sent i g identity =
     (if i < length sent \<and> snd (snd (sent ! i)) then Some (200, Some (gp_Share (fst (snd (sent ! i))))) else None)"

definition ident64 :: string where "ident64 = replicate 64 (CHR ''a'')"

definition push_of :: "byte list \<Rightarrow> PushRequest" where
  "push_of env = \<lparr>push_Identity = ident64, push_Envelope = EncodeToString env, push_Version = 1\<rparr>"

definition node_rows :: "string list \<Rightarrow> sql_value list list" where
  "node_rows names = map (\<lambda>s. [SqlText s]) names"

lemma valid_ident64: "isValidIdentity ident64"
  by (simp add: isValidIdentity_def ident64_def list_all_iff hex_digit_def less_eq_char_def)

lemma limits_fresh:
  "fst (AllowPush 0 ident64 (NewIdentityRateLimiter 30 120))"
  "fst (AllowPull 5 ident64 (snd (AllowPush 0 ident64 (NewIdentityRateLimiter 30 120))))"
  by (simp_all add: AllowPush_def AllowPull_def NewIdentityRateLimiter_def identity_allow_def refill_and_take_def Let_def)

definition nodes :: "string list \<Rightarrow> guardian list" where
  "nodes names = map (\<lambda>s. \<lparr>g_IP = s, g_Port = VaultGuardianPort\<rparr>) names"

lemma length_nodes [simp]: "length (nodes names) = length names"
  by (simp add: nodes_def)

lemma discover_nodes:
  assumes "'''' \<notin> set names" "names \<noteq> []"
  shows "discoverGuardians (Some (node_rows names)) = Some (nodes names)"
proof -
  have "guardians_of (node_rows names) = nodes names"
    using assms(1) by (induction names) (auto simp: node_rows_def nodes_def)
  thus ?thesis using assms(2) by (simp add: discoverGuardians_def nodes_def)
qed

lemma push_of_simps [simp]:
  "push_Identity (push_of env) = ident64" "DecodeString (push_Envelope (push_of env)) = Some env"
  by (simp_all add: push_of_def)

lemma push_example:
  assumes "'''' \<notin> set names" "names \<noteq> []" "env \<noteq> []"
    and "Split rnd env (int (length names)) (AdaptiveThreshold (int (length names))) = Inr shares"
  shows "HandlePush (\<lambda>_. Some (push_of env)) rnd 0 ''POST'' (Some '''') (Some (node_rows names)) post (NewIdentityRateLimiter 30 120) =
    (let sent = fan_out post (push_of env) (nodes names) shares; ack = int (length (filter (\<lambda>(g, r, a). a) sent))
     in (PushOk \<lparr>Status = (if ack < WriteQuorum (int (length names)) then ''partial'' else ''ok''), AckCount = ack,
           Total = int (length names), Quorum = WriteQuorum (int (length names)), Threshold = AdaptiveThreshold (int (length names))\<rparr>,
         snd (AllowPush 0 ident64 (NewIdentityRateLimiter 30 120)), sent))"
  using HandlePush_split [of "\<lambda>_. Some (push_of env)" "''''" "push_of env" env 0 "NewIdentityRateLimiter 30 120" "Some (node_rows names)" "nodes names" rnd shares post]
    valid_ident64 limits_fresh discover_nodes [OF assms(1,2)] assms(3,4) by simp

lemma filter_acked: "filter (\<lambda>(g, r, a). a) = filter (\<lambda>p. snd (snd p))"
  by (rule arg_cong [of _ _ filter]) auto

text \<open>How many of the requests are acknowledged is read off the guardians' answers.\<close>

lemma acks_of:
  "length (filter (\<lambda>(g, r, a). a) (fan_out (\<lambda>i g r. post i) req gs shares))
    = length (filter (\<lambda>i. acknowledged (post i)) [0..<length gs])"
proof -
  have "filter (\<lambda>i. snd (snd (fan_out (\<lambda>i g r. post i) req gs shares ! i))) [0..<length gs]
      = filter (\<lambda>i. acknowledged (post i)) [0..<length gs]"
    by (rule filter_cong) (auto simp: fan_out_nth)
  thus ?thesis by (simp add: filter_acked filter_nth_count [of "\<lambda>p. snd (snd p)"])
qed

theorem push_then_pull_witness:
  "\<exists>resp rl' sent collected.
     HandlePush (\<lambda>_. Some (push_of [0x40])) (\<lambda>b. Some (\<lambda>j. 7)) 0 ''POST'' (Some '''')
       (Some (node_rows [''n1'', ''n2'', ''n3'', ''n4''])) (\<lambda>i g r. if i = 1 then None else Some 200)
       (NewIdentityRateLimiter 30 120) = (PushOk resp, rl', sent)
     \<and> fst (HandlePull (\<lambda>_. Some ident64) 5 ''POST'' (Some '''') (Some (node_rows [''n1'', ''n2'', ''n3'', ''n4'']))
         (keeps_acknowledged sent) rl')
       = PullOk \<lparr>pull_Envelope = EncodeToString [0x40], Collected = collected, pull_Threshold = Threshold resp\<rparr>"
proof -
  let ?rnd = "\<lambda>b :: nat. Some (\<lambda>j :: nat. 7 :: byte)"
    and ?names = "[''n1'', ''n2'', ''n3'', ''n4'']" and ?rl = "NewIdentityRateLimiter 30 120"
    and ?post = "\<lambda>(i :: nat). if i = 1 then None else Some 200"
  have at: "AdaptiveThreshold 4 = 3" "WriteQuorum 4 = 3" by (simp_all add: AdaptiveThreshold_def WriteQuorum_def)
  obtain shares where sh: "Split ?rnd [0x40] 4 3 = Inr shares"
    using Split_total [of 3 4 "[0x40]" ?rnd] by auto
  let ?sent = "fan_out (\<lambda>i g r. ?post i) (push_of [0x40]) (nodes ?names) shares"
  have "length (filter (\<lambda>i. acknowledged (?post i)) [0..<4]) = 3" by (simp add: acknowledged_def upt_rec)
  hence push: "HandlePush (\<lambda>_. Some (push_of [0x40])) ?rnd 0 ''POST'' (Some '''') (Some (node_rows ?names)) (\<lambda>i g r. ?post i) ?rl
      = (PushOk \<lparr>Status = ''ok'', AckCount = 3, Total = 4, Quorum = 3, Threshold = 3\<rparr>, snd (AllowPush 0 ident64 ?rl), ?sent)"
    using push_example [of ?names "[0x40]" ?rnd shares "\<lambda>i g r. ?post i"] sh by (simp add: at Let_def acks_of acknowledged_def)
  show ?thesis
    using push_then_pull [OF push refl, where unmarshal' = "\<lambda>_. Some ident64" and raw' = "''''" and later = 5
        and rl'' = "snd (AllowPush 0 ident64 ?rl)" and fetch = "keeps_acknowledged ?sent"]
      limits_fresh(2) push by (auto simp: keeps_acknowledged_def)
qed


text \<open>The four-coefficient polynomial \<open>s + x\<^sup>3\<close> agrees on the points 1, 2, 3 with
  a polynomial of lower degree with another constant term.\<close>

lemma cubic_on_123:
  "x \<in> {1, 2, 3} \<Longrightarrow> evaluatePolynomial [0x40, 0, 0, 1] x = evaluatePolynomial [0x46, 7, 0] x"
  by (auto simp: evaluatePolynomial_def Add_def gf256Mul_Mul [symmetric] gf_eval)

text \<open>C35: A pull takes its threshold from the number of nodes that are active at
  that moment.  An envelope pushed to twelve guardians (threshold four) and
  acknowledged by all of them is, once three of the nodes are no longer active,
  reconstructed from three shares: the pull succeeds and returns a different
  envelope, although nine guardians answer with genuine shares.\<close>

theorem shrunk_cluster_returns_wrong_envelope:
  "let names = [''n01'', ''n02'', ''n03'', ''n04'', ''n05'', ''n06'', ''n07'', ''n08'', ''n09'', ''n10'', ''n11'', ''n12''];
       (response, rl, sent) = HandlePush (\<lambda>_. Some (push_of [0x40])) (\<lambda>b. Some (\<lambda>j. if j = 2 then 1 else 0)) 0 ''POST'' (Some '''')
         (Some (node_rows names)) (\<lambda>i g r. Some 200) (NewIdentityRateLimiter 30 120)
   in response = PushOk \<lparr>Status = ''ok'', AckCount = 12, Total = 12, Quorum = 8, Threshold = 4\<rparr>
      \<and> fst (HandlePull (\<lambda>_. Some ident64) 5 ''POST'' (Some '''') (Some (node_rows (take 9 names))) (keeps_acknowledged sent) rl)
        = PullOk \<lparr>pull_Envelope = EncodeToString [0x46], Collected = 9, pull_Threshold = 3\<rparr>"
proof -
  let ?names = "[''n01'', ''n02'', ''n03'', ''n04'', ''n05'', ''n06'', ''n07'', ''n08'', ''n09'', ''n10'', ''n11'', ''n12'']"
  let ?rnd = "\<lambda>b :: nat. Some (\<lambda>j :: nat. if j = 2 then 1 else 0 :: byte)" and ?rl = "NewIdentityRateLimiter 30 120"
  have at: "AdaptiveThreshold 12 = 4" "WriteQuorum 12 = 8" "AdaptiveThreshold 9 = 3"
    by (simp_all add: AdaptiveThreshold_def WriteQuorum_def)
  obtain shares where sh: "Split ?rnd [0x40] 12 4 = Inr shares"
    using Split_total [of 4 12 "[0x40]" ?rnd] by auto
  note so = Split_shares_of [OF sh]
  have poly: "byte_poly ?rnd [0x40] 4 0 = [0x40, 0, 0, 1]" by (simp add: byte_poly_def upt_rec)
  have nth: "shares ! i = \<lparr>X = word_of_nat (i + 1), Y = [evaluatePolynomial [0x40, 0, 0, 1] (word_of_nat (i + 1))]\<rparr>" if "i < 12" for i
    using so(7) [of i] that poly by simp
  let ?sent = "fan_out (\<lambda>i g r. Some 200) (push_of [0x40]) (nodes ?names) shares"
  have push: "HandlePush (\<lambda>_. Some (push_of [0x40])) ?rnd 0 ''POST'' (Some '''') (Some (node_rows ?names)) (\<lambda>i g r. Some 200) ?rl
      = (PushOk \<lparr>Status = ''ok'', AckCount = 12, Total = 12, Quorum = 8, Threshold = 4\<rparr>, snd (AllowPush 0 ident64 ?rl), ?sent)"
    using push_example [of ?names "[0x40]" ?rnd shares "\<lambda>i g r. Some 200"] sh by (simp add: at Let_def acks_of acknowledged_def)
  let ?gs = "nodes (take 9 ?names)"
  have "pulled_share (keeps_acknowledged ?sent i g ident64) = (if True then Some (take 9 shares ! i) else None)" if "i < length ?gs" for i g
    using that nth [of i] by (simp add: keeps_acknowledged_def fan_out_nth acknowledged_def)
  moreover have "distinct (map X shares)" using so(1) by (simp add: shares_of_def)
  hence "distinct (take 9 shares)" by (simp add: distinct_map)
  moreover have "length (take 9 shares) = length ?gs" using so(2) by simp
  ultimately have "collect_shares (keeps_acknowledged ?sent) ident64 ?gs
      = map ((!) (take 9 shares)) (filter (\<lambda>_. True) [0..<length (take 9 shares)])"
    using collect_sent(1) [of "take 9 shares" ?gs "keeps_acknowledged ?sent" ident64 "\<lambda>_. True"] by metis
  hence col: "collect_shares (keeps_acknowledged ?sent) ident64 ?gs = take 9 shares"
    by (metis (no_types, lifting) filter_True map_nth)
  have "take 3 shares = map ((!) shares) [0, 1, 2]" using so(2) by (simp add: take_Suc_conv_app_nth numeral_3_eq_3 numeral_2_eq_2)
  hence three: "take 3 (take 9 shares) = map (\<lambda>x. \<lparr>X = x, Y = [evaluatePolynomial [0x46, 7, 0] x]\<rparr>) [1, 2, 3]"
    using cubic_on_123 by (simp add: nth)
  have "shares_of [[0x46, 7, 0]] 3 (map (\<lambda>x. \<lparr>X = x, Y = [evaluatePolynomial [0x46, 7, 0] x]\<rparr>) [1, 2, 3])"
    by (simp add: shares_of_def)
  hence "Combine (take 3 (collect_shares (keeps_acknowledged ?sent) ident64 ?gs)) = Inr [0x46]"
    using Combine_shares_of [of "[[0x46, 7, 0]]" 3] unfolding col three by simp
  thus ?thesis
    using HandlePull_ok [of "\<lambda>_. Some ident64" "''''" ident64 5 "snd (AllowPush 0 ident64 ?rl)" "Some (node_rows (take 9 ?names))" ?gs "keeps_acknowledged ?sent" "[0x46]"]
      valid_ident64 limits_fresh(2) discover_nodes [of "take 9 ?names"] col push so(2) by (simp add: at)
qed


text \<open>With three guardians the write quorum (two) is below the read threshold
  (three): a push that two of them acknowledge reports \<^verbatim>\<open>ok\<close>, and the pull
  fails although both kept their shares.\<close>

lemma three_guardians_ok_not_recoverable:
  "let names = [''n1'', ''n2'', ''n3''];
       (response, rl, sent) = HandlePush (\<lambda>_. Some (push_of [0x40])) (\<lambda>b. Some (\<lambda>j. 7)) 0 ''POST'' (Some '''')
         (Some (node_rows names)) (\<lambda>i g r. if i = 2 then None else Some 200) (NewIdentityRateLimiter 30 120)
   in response = PushOk \<lparr>Status = ''ok'', AckCount = 2, Total = 3, Quorum = 2, Threshold = 3\<rparr>
      \<and> fst (HandlePull (\<lambda>_. Some ident64) 5 ''POST'' (Some '''') (Some (node_rows names)) (keeps_acknowledged sent) rl)
        = VaultError 503"
proof -
  let ?names = "[''n1'', ''n2'', ''n3'']" and ?rnd = "\<lambda>b :: nat. Some (\<lambda>j :: nat. 7 :: byte)"
    and ?rl = "NewIdentityRateLimiter 30 120" and ?post = "\<lambda>i :: nat. if i = 2 then None else Some 200"
  have at: "AdaptiveThreshold 3 = 3" "WriteQuorum 3 = 2" by (simp_all add: AdaptiveThreshold_def WriteQuorum_def)
  obtain shares where sh: "Split ?rnd [0x40] 3 3 = Inr shares"
    using Split_total [of 3 3 "[0x40]" ?rnd] by auto
  let ?sent = "fan_out (\<lambda>i g r. ?post i) (push_of [0x40]) (nodes ?names) shares"
  have push: "HandlePush (\<lambda>_. Some (push_of [0x40])) ?rnd 0 ''POST'' (Some '''') (Some (node_rows ?names)) (\<lambda>i g r. ?post i) ?rl
      = (PushOk \<lparr>Status = ''ok'', AckCount = 2, Total = 3, Quorum = 2, Threshold = 3\<rparr>, snd (AllowPush 0 ident64 ?rl), ?sent)"
    using push_example [of ?names "[0x40]" ?rnd shares "\<lambda>i g r. ?post i"] sh by (simp add: at Let_def acks_of acknowledged_def)
  have "pulled_share (keeps_acknowledged ?sent 2 g ident64) = None" for g
    by (simp add: keeps_acknowledged_def fan_out_nth acknowledged_def pulled_share_def)
  hence "length (collect_shares (keeps_acknowledged ?sent) ident64 (nodes ?names)) < 3"
    by (simp add: collect_shares_def nodes_def List.map_filter_simps numeral_2_eq_2 split: option.splits)
  thus ?thesis
    using valid_ident64 limits_fresh(2) discover_nodes [of ?names] push
    by (cases "AllowPull 5 ident64 (snd (AllowPush 0 ident64 ?rl))") (simp add: HandlePull_def Let_def at)
qed

definition answers :: "byte list \<Rightarrow> guardian_pull" where
  "answers ys i g identity = Some (200, Some (EncodeToString [word_of_nat (i + 1), ys ! i]))"

lemma mixed_on_123:
  "evaluatePolynomial [0x41, 0x8B, 0x8A] 1 = 0x40" "evaluatePolynomial [0x41, 0x8B, 0x8A] 2 = 0x52"
  "evaluatePolynomial [0x41, 0x8B, 0x8A] 3 = 0x53"
  by (simp_all add: evaluatePolynomial_def Add_def gf256Mul_Mul [symmetric] gf_eval)

text \<open>The pull response of a guardian carries no version, and \<^verbatim>\<open>HandlePull\<close>
  combines the first shares it collects.  One guardian of four that missed the
  second push and still returns its share of the first makes the pull return an
  envelope that was never pushed.\<close>

lemma stale_share_returns_wrong_envelope:
  "map Y (case Split (\<lambda>b. Some (\<lambda>j. 0)) [0x40] 4 3 of Inr shares \<Rightarrow> shares | Inl _ \<Rightarrow> []) = [[0x40], [0x40], [0x40], [0x40]]
   \<and> map Y (case Split (\<lambda>b. Some (\<lambda>j. if j = 0 then 1 else 0)) [0x50] 4 3 of Inr shares \<Rightarrow> shares | Inl _ \<Rightarrow> [])
       = [[0x51], [0x52], [0x53], [0x54]]
   \<and> fst (HandlePull (\<lambda>_. Some ident64) 5 ''POST'' (Some '''') (Some (node_rows [''n1'', ''n2'', ''n3'', ''n4'']))
         (answers [0x40, 0x52, 0x53, 0x54]) (snd (AllowPush 0 ident64 (NewIdentityRateLimiter 30 120))))
     = PullOk \<lparr>pull_Envelope = EncodeToString [0x41], Collected = 4, pull_Threshold = 3\<rparr>"
proof -
  let ?rl = "snd (AllowPush 0 ident64 (NewIdentityRateLimiter 30 120))" and ?names = "[''n1'', ''n2'', ''n3'', ''n4'']"
  have at: "AdaptiveThreshold 4 = 3" by (simp add: AdaptiveThreshold_def)
  have col: "collect_shares (answers [0x40, 0x52, 0x53, 0x54]) ident64 (nodes ?names)
      = [\<lparr>X = 1, Y = [0x40]\<rparr>, \<lparr>X = 2, Y = [0x52]\<rparr>, \<lparr>X = 3, Y = [0x53]\<rparr>, \<lparr>X = 4, Y = [0x54]\<rparr>]"
    by (simp add: collect_shares_def nodes_def List.map_filter_simps answers_def pulled_share_def del: EncodeToString.simps)
  have "shares_of [[0x41, 0x8B, 0x8A]] 3 [\<lparr>X = 1, Y = [0x40]\<rparr>, \<lparr>X = 2, Y = [0x52]\<rparr>, \<lparr>X = 3, Y = [0x53]\<rparr>]"
    by (simp add: shares_of_def mixed_on_123)
  hence "Combine [\<lparr>X = 1, Y = [0x40]\<rparr>, \<lparr>X = 2, Y = [0x52]\<rparr>, \<lparr>X = 3, Y = [0x53]\<rparr>] = Inr [0x41]"
    using Combine_shares_of [of "[[0x41, 0x8B, 0x8A]]" 3] by simp
  hence pull: "fst (HandlePull (\<lambda>_. Some ident64) 5 ''POST'' (Some '''') (Some (node_rows ?names))
         (answers [0x40, 0x52, 0x53, 0x54]) ?rl) = PullOk \<lparr>pull_Envelope = EncodeToString [0x41], Collected = 4, pull_Threshold = 3\<rparr>"
    using HandlePull_ok [of "\<lambda>_. Some ident64" "''''" ident64 5 ?rl "Some (node_rows ?names)" "nodes ?names" "answers [0x40, 0x52, 0x53, 0x54]" "[0x41]"]
      valid_ident64 limits_fresh(2) discover_nodes [of ?names] col by (simp add: at)
  have "map Y (case Split (\<lambda>b. Some (\<lambda>j. 0)) [0x40] 4 3 of Inr shares \<Rightarrow> shares | Inl _ \<Rightarrow> []) = [[0x40], [0x40], [0x40], [0x40]]"
    "map Y (case Split (\<lambda>b. Some (\<lambda>j. if j = 0 then 1 else 0)) [0x50] 4 3 of Inr shares \<Rightarrow> shares | Inl _ \<Rightarrow> []) = [[0x51], [0x52], [0x53], [0x54]]"
    by (simp_all add: Split_def upt_rec evaluatePolynomial_def Add_def gf256Mul_Mul [symmetric] gf_eval)
  thus ?thesis using pull by blast
qed

end
