(* ===== verification/WebRTC_Ports.thy ===== *)
theory WebRTC_Ports
  imports Port_Allocation
begin

text \<open>
  Allocation of SFU and TURN ports
  (\<^verbatim>\<open>core/pkg/namespace/webrtc_port_allocator.go\<close>), with the table
  \<^verbatim>\<open>webrtc_port_allocations\<close> of migration 018.  The conventions are those of
  the namespace blocks; a column name is the selector of that column.
\<close>

section \<open>Constants and rows\<close>

definition SFUMediaPortRangeStart :: int where "SFUMediaPortRangeStart = 20000"
definition SFUMediaPortRangeEnd :: int where "SFUMediaPortRangeEnd = 29999"
definition SFUMediaPortsPerNamespace :: int where "SFUMediaPortsPerNamespace = 500"
definition SFUSignalingPortRangeStart :: int where "SFUSignalingPortRangeStart = 30000"
definition SFUSignalingPortRangeEnd :: int where "SFUSignalingPortRangeEnd = 30099"
definition TURNRelayPortRangeStart :: int where "TURNRelayPortRangeStart = 49152"
definition TURNRelayPortRangeEnd :: int where "TURNRelayPortRangeEnd = 65535"
definition TURNRelayPortsPerNamespace :: int where "TURNRelayPortsPerNamespace = 800"
definition TURNDefaultPort :: int where "TURNDefaultPort = 3478"
definition TURNSPort :: int where "TURNSPort = 5349"

lemmas webrtc_constants = SFUMediaPortRangeStart_def SFUMediaPortRangeEnd_def SFUMediaPortsPerNamespace_def
  SFUSignalingPortRangeStart_def SFUSignalingPortRangeEnd_def TURNRelayPortRangeStart_def TURNRelayPortRangeEnd_def
  TURNRelayPortsPerNamespace_def

datatype service = Sfu | Turn

fun svc_name :: "service \<Rightarrow> string" where
  "svc_name Sfu = ''sfu''"
| "svc_name Turn = ''turn''"

record WebRTCPortBlock =
  wb_NodeID :: string
  wb_ClusterID :: string
  wb_ServiceType :: service
  SFUSignalingPort :: int
  SFUMediaPortStart :: int
  SFUMediaPortEnd :: int
  TURNListenPort :: int
  TURNTLSPort :: int
  TURNRelayPortStart :: int
  TURNRelayPortEnd :: int

record webrtc_db =
  wd_nodes :: "dns_node list"
  wd_blocks :: "WebRTCPortBlock list"

datatype webrtc_query = WQNodeIP | WQColocated | WQFirstIP | WQAllocated | WQBlock | WQCount | WQDelete

definition ErrNoWebRTCPortsAvailable :: ClusterError where
  "ErrNoWebRTCPortsAvailable = \<lparr>Message = ''no WebRTC ports available on node'', Cause = None\<rparr>"

section \<open>Helpers\<close>


definition insertPortBlock :: "string option \<Rightarrow> WebRTCPortBlock \<Rightarrow> webrtc_db \<Rightarrow> (ClusterError, webrtc_db) result" where
  "insertPortBlock failure b db =
     (case failure of
        Some cause \<Rightarrow> Inl \<lparr>Message = ''failed to insert '' @ svc_name (wb_ServiceType b) @ '' port allocation'', Cause = Some cause\<rparr>
      | None \<Rightarrow>
          if (wb_NodeID b, wb_ClusterID b, wb_ServiceType b)
               \<in> set (map (\<lambda>r. (wb_NodeID r, wb_ClusterID r, wb_ServiceType r)) (wd_blocks db))
          then Inl \<lparr>Message = ''failed to insert '' @ svc_name (wb_ServiceType b) @ '' port allocation'', Cause = Some unique_violation\<rparr>
          else Inr (db\<lparr>wd_blocks := wd_blocks db @ [b]\<rparr>))"

definition ip_of :: "webrtc_db \<Rightarrow> string \<Rightarrow> string option" where
  "ip_of db nodeID = map_option dn_ip (find (\<lambda>n. dn_id n = nodeID) (wd_nodes db))"

definition getColocatedNodeIDs :: "(webrtc_query \<Rightarrow> bool) \<Rightarrow> webrtc_db \<Rightarrow> string \<Rightarrow> string list" where
  "getColocatedNodeIDs answers db nodeID =
     (if \<not> answers WQNodeIP then [nodeID]
      else case ip_of db nodeID of
             None \<Rightarrow> [nodeID]
           | Some ip \<Rightarrow>
               if ip = '''' then [nodeID]
               else let colocated = filter (\<lambda>n. dn_ip n = ip) (wd_nodes db)
                    in if \<not> answers WQColocated \<or> length colocated \<le> 1 then [nodeID] else map dn_id colocated)"

definition getAllocatedValues :: "(webrtc_query \<Rightarrow> bool) \<Rightarrow> webrtc_db \<Rightarrow> string list \<Rightarrow> service \<Rightarrow> (WebRTCPortBlock \<Rightarrow> int)
    \<Rightarrow> (ClusterError, int list) result" where
  "getAllocatedValues answers db nodeIDs svc column =
     (if length nodeIDs = 1
      then if \<not> answers WQAllocated then Inl \<lparr>Message = ''failed to query allocated WebRTC ports'', Cause = Some ''query failed''\<rparr>
           else Inr (map column (filter (\<lambda>b. wb_NodeID b = hd nodeIDs \<and> wb_ServiceType b = svc \<and> 0 < column b) (wd_blocks db)))
      else if \<not> answers WQFirstIP then Inl \<lparr>Message = ''failed to get node IP for colocated port query'', Cause = None\<rparr>
      else case ip_of db (hd nodeIDs) of
             None \<Rightarrow> Inl \<lparr>Message = ''failed to get node IP for colocated port query'', Cause = None\<rparr>
           | Some ip \<Rightarrow>
               if \<not> answers WQAllocated then Inl \<lparr>Message = ''failed to query allocated WebRTC ports (colocated)'', Cause = Some ''query failed''\<rparr>
               else Inr (map column (filter (\<lambda>b. (\<exists>n \<in> set (wd_nodes db). dn_id n = wb_NodeID b \<and> dn_ip n = ip)
                      \<and> wb_ServiceType b = svc \<and> 0 < column b) (wd_blocks db))))"

definition findAvailablePort :: "(webrtc_query \<Rightarrow> bool) \<Rightarrow> webrtc_db \<Rightarrow> string list \<Rightarrow> service \<Rightarrow> (WebRTCPortBlock \<Rightarrow> int)
    \<Rightarrow> int \<Rightarrow> int \<Rightarrow> int \<Rightarrow> (ClusterError, int) result" where
  "findAvailablePort answers db nodeIDs svc column rangeStart rangeEnd step =
     result_bind (getAllocatedValues answers db nodeIDs svc column)
       (\<lambda>allocated. case scan_ports rangeStart rangeEnd step allocated of
          Some port \<Rightarrow> Inr port | None \<Rightarrow> Inl ErrNoWebRTCPortsAvailable)"

definition findAvailablePortBlock :: "(webrtc_query \<Rightarrow> bool) \<Rightarrow> webrtc_db \<Rightarrow> string list \<Rightarrow> service \<Rightarrow> (WebRTCPortBlock \<Rightarrow> int)
    \<Rightarrow> int \<Rightarrow> int \<Rightarrow> int \<Rightarrow> (ClusterError, int) result" where
  "findAvailablePortBlock answers db nodeIDs svc column rangeStart rangeEnd blockSize =
     result_bind (getAllocatedValues answers db nodeIDs svc column)
       (\<lambda>allocated. case scan_ports rangeStart (rangeEnd - blockSize + 1) blockSize allocated of
          Some start \<Rightarrow> Inr start | None \<Rightarrow> Inl ErrNoWebRTCPortsAvailable)"

definition wrap_error :: "string \<Rightarrow> (ClusterError, 'a) result \<Rightarrow> (ClusterError, 'a) result" where
  "wrap_error msg r = (case r of Inl e \<Rightarrow> Inl \<lparr>Message = msg, Cause = Some (Error_text e)\<rparr> | Inr x \<Rightarrow> Inr x)"

section \<open>Allocation\<close>

definition sfu_block :: "string \<Rightarrow> string \<Rightarrow> int \<Rightarrow> int \<Rightarrow> WebRTCPortBlock" where
  "sfu_block nodeID clusterID signalingPort mediaStart =
     \<lparr>wb_NodeID = nodeID, wb_ClusterID = clusterID, wb_ServiceType = Sfu, SFUSignalingPort = signalingPort,
      SFUMediaPortStart = mediaStart, SFUMediaPortEnd = mediaStart + SFUMediaPortsPerNamespace - 1,
      TURNListenPort = 0, TURNTLSPort = 0, TURNRelayPortStart = 0, TURNRelayPortEnd = 0\<rparr>"

definition turn_block :: "string \<Rightarrow> string \<Rightarrow> int \<Rightarrow> WebRTCPortBlock" where
  "turn_block nodeID clusterID relayStart =
     \<lparr>wb_NodeID = nodeID, wb_ClusterID = clusterID, wb_ServiceType = Turn, SFUSignalingPort = 0,
      SFUMediaPortStart = 0, SFUMediaPortEnd = 0, TURNListenPort = TURNDefaultPort, TURNTLSPort = TURNSPort,
      TURNRelayPortStart = relayStart, TURNRelayPortEnd = relayStart + TURNRelayPortsPerNamespace - 1\<rparr>"

definition choose_sfu :: "(webrtc_query \<Rightarrow> bool) \<Rightarrow> string \<Rightarrow> webrtc_db \<Rightarrow> webrtc_db \<Rightarrow> (ClusterError, int \<times> int) result" where
  "choose_sfu answers nodeID db_sig db_media =
     (let nodeIDs = getColocatedNodeIDs answers db_sig nodeID
      in result_bind (wrap_error ''no SFU signaling port available on node''
             (findAvailablePort answers db_sig nodeIDs Sfu SFUSignalingPort SFUSignalingPortRangeStart SFUSignalingPortRangeEnd 1))
           (\<lambda>sig. result_bind (wrap_error ''no SFU media port range available on node''
               (findAvailablePortBlock answers db_media nodeIDs Sfu SFUMediaPortStart SFUMediaPortRangeStart SFUMediaPortRangeEnd SFUMediaPortsPerNamespace))
             (\<lambda>media. Inr (sig, media))))"

definition tryAllocateSFUPorts :: "(webrtc_query \<Rightarrow> bool) \<Rightarrow> string option \<Rightarrow> string \<Rightarrow> string \<Rightarrow> webrtc_db \<Rightarrow> webrtc_db \<Rightarrow> webrtc_db
    \<Rightarrow> (ClusterError, WebRTCPortBlock \<times> webrtc_db) result" where
  "tryAllocateSFUPorts answers failure nodeID clusterID db_sig db_media db_write =
     result_bind (choose_sfu answers nodeID db_sig db_media)
       (\<lambda>(sig, media). result_bind (insertPortBlock failure (sfu_block nodeID clusterID sig media) db_write)
          (\<lambda>db'. Inr (sfu_block nodeID clusterID sig media, db')))"

definition choose_turn :: "(webrtc_query \<Rightarrow> bool) \<Rightarrow> string \<Rightarrow> webrtc_db \<Rightarrow> (ClusterError, int) result" where
  "choose_turn answers nodeID db =
     wrap_error ''no TURN relay port range available on node''
       (findAvailablePortBlock answers db (getColocatedNodeIDs answers db nodeID) Turn TURNRelayPortStart
          TURNRelayPortRangeStart TURNRelayPortRangeEnd TURNRelayPortsPerNamespace)"

definition tryAllocateTURNPorts :: "(webrtc_query \<Rightarrow> bool) \<Rightarrow> string option \<Rightarrow> string \<Rightarrow> string \<Rightarrow> webrtc_db \<Rightarrow> webrtc_db
    \<Rightarrow> (ClusterError, WebRTCPortBlock \<times> webrtc_db) result" where
  "tryAllocateTURNPorts answers failure nodeID clusterID db_read db_write =
     result_bind (choose_turn answers nodeID db_read)
       (\<lambda>relay. result_bind (insertPortBlock failure (turn_block nodeID clusterID relay) db_write)
          (\<lambda>db'. Inr (turn_block nodeID clusterID relay, db')))"






definition DeallocateAll :: "(webrtc_query \<Rightarrow> bool) \<Rightarrow> string \<Rightarrow> webrtc_db \<Rightarrow> (ClusterError, webrtc_db) result" where
  "DeallocateAll answers clusterID db =
     (if \<not> answers WQDelete then Inl \<lparr>Message = ''failed to deallocate WebRTC port blocks'', Cause = Some ''exec failed''\<rparr>
      else Inr (db\<lparr>wd_blocks := filter (\<lambda>b. wb_ClusterID b \<noteq> clusterID) (wd_blocks db)\<rparr>))"

definition DeallocateByNode :: "(webrtc_query \<Rightarrow> bool) \<Rightarrow> string \<Rightarrow> string \<Rightarrow> service \<Rightarrow> webrtc_db \<Rightarrow> (ClusterError, webrtc_db) result" where
  "DeallocateByNode answers clusterID nodeID svc db =
     (if \<not> answers WQDelete then Inl \<lparr>Message = ''failed to deallocate '' @ svc_name svc @ '' port block on node '' @ nodeID, Cause = Some ''exec failed''\<rparr>
      else Inr (db\<lparr>wd_blocks := filter (\<lambda>b. \<not> (wb_ClusterID b = clusterID \<and> wb_NodeID b = nodeID \<and> wb_ServiceType b = svc)) (wd_blocks db)\<rparr>))"

definition NodeHasTURN :: "(webrtc_query \<Rightarrow> bool) \<Rightarrow> webrtc_db \<Rightarrow> string \<Rightarrow> (ClusterError, bool) result" where
  "NodeHasTURN answers db nodeID =
     (if \<not> answers WQCount then Inl \<lparr>Message = ''failed to check TURN allocation on node'', Cause = Some ''query failed''\<rparr>
      else Inr (0 < length (filter (\<lambda>b. wb_NodeID b = nodeID \<and> wb_ServiceType b = Turn) (wd_blocks db))))"

section \<open>Allocations one after the other\<close>

inductive webrtc_step :: "webrtc_db \<Rightarrow> webrtc_db \<Rightarrow> bool" where
  sfu: "tryAllocateSFUPorts answers failure nodeID clusterID db db db = Inr (b, db') \<Longrightarrow> webrtc_step db db'"
| turn: "tryAllocateTURNPorts answers failure nodeID clusterID db db = Inr (b, db') \<Longrightarrow> webrtc_step db db'"
| deallocate_all: "DeallocateAll answers clusterID db = Inr db' \<Longrightarrow> webrtc_step db db'"
| deallocate_node: "DeallocateByNode answers clusterID nodeID svc db = Inr db' \<Longrightarrow> webrtc_step db db'"
| nodes_change: "distinct (map dn_id ns) \<Longrightarrow> webrtc_step db (db\<lparr>wd_nodes := ns\<rparr>)"

text \<open>The ports already taken on a node are among those an allocation reads.\<close>

lemma ip_of_member:
  "distinct (map dn_id (wd_nodes db)) \<Longrightarrow> n \<in> set (wd_nodes db) \<Longrightarrow> ip_of db (dn_id n) = Some (dn_ip n)"
proof -
  assume d: "distinct (map dn_id (wd_nodes db))" and n: "n \<in> set (wd_nodes db)"
  obtain m where m: "find (\<lambda>m. dn_id m = dn_id n) (wd_nodes db) = Some m"
    using n by (metis (mono_tags, lifting) find_None_iff not_Some_eq)
  hence "m \<in> set (wd_nodes db)" "dn_id m = dn_id n" by (auto simp: find_Some_iff)
  hence "m = n" using d n by (auto simp: distinct_map inj_on_def)
  thus ?thesis using m by (simp add: ip_of_def)
qed

lemma own_values_read:
  assumes "distinct (map dn_id (wd_nodes db))"
    and "getAllocatedValues answers db (getColocatedNodeIDs answers db nodeID) svc column = Inr vals"
    and "b \<in> set (wd_blocks db)" "wb_NodeID b = nodeID" "wb_ServiceType b = svc" "0 < column b"
  shows "column b \<in> set vals"
proof (cases "getColocatedNodeIDs answers db nodeID = [nodeID]")
  case True
  thus ?thesis using assms by (auto simp: getAllocatedValues_def split: if_splits)
next
  case False
  then obtain ip where ip: "ip_of db nodeID = Some ip"
    and co: "getColocatedNodeIDs answers db nodeID = map dn_id (filter (\<lambda>n. dn_ip n = ip) (wd_nodes db))"
    and len: "1 < length (filter (\<lambda>n. dn_ip n = ip) (wd_nodes db))"
    by (auto simp: getColocatedNodeIDs_def Let_def not_le split: if_splits option.splits)
  let ?co = "filter (\<lambda>n. dn_ip n = ip) (wd_nodes db)"
  have hd: "hd ?co \<in> set ?co" using len by (intro hd_in_set) auto
  moreover have "hd (map dn_id ?co) = dn_id (hd ?co)" using len by (intro hd_map) auto
  ultimately have "ip_of db (hd (map dn_id ?co)) = Some ip"
    using ip_of_member [OF assms(1), of "hd ?co"] by simp
  moreover obtain n where n: "find (\<lambda>n. dn_id n = nodeID) (wd_nodes db) = Some n" "dn_ip n = ip"
    using ip by (auto simp: ip_of_def)
  hence "n \<in> set (wd_nodes db)" "dn_id n = nodeID" by (auto simp: find_Some_iff)
  ultimately show ?thesis using assms(2-6) len n(2)
    by (auto simp: getAllocatedValues_def co intro!: imageI split: if_splits)
qed

definition column_distinct :: "service \<Rightarrow> (WebRTCPortBlock \<Rightarrow> int) \<Rightarrow> WebRTCPortBlock list \<Rightarrow> bool" where
  "column_distinct svc column bs \<longleftrightarrow>
     distinct (map (\<lambda>b. (wb_NodeID b, column b)) (filter (\<lambda>b. wb_ServiceType b = svc) bs))"

definition webrtc_block_ok :: "WebRTCPortBlock \<Rightarrow> bool" where
  "webrtc_block_ok b \<longleftrightarrow>
     (\<exists>n c sig media. b = sfu_block n c sig media \<and> 30000 \<le> sig \<and> sig \<le> 30099
        \<and> 20000 \<le> media \<and> media \<le> 29500 \<and> (media - 20000) mod 500 = 0)
   \<or> (\<exists>n c relay. b = turn_block n c relay \<and> 49152 \<le> relay \<and> relay \<le> 64736 \<and> (relay - 49152) mod 800 = 0)"

lemma sfu_block_ok:
  "30000 \<le> sig \<Longrightarrow> sig \<le> 30099 \<Longrightarrow> 20000 \<le> media \<Longrightarrow> media \<le> 29500 \<Longrightarrow> (media - 20000) mod 500 = 0
    \<Longrightarrow> webrtc_block_ok (sfu_block n c sig media)"
  unfolding webrtc_block_ok_def by (rule disjI1, rule exI [of _ n], rule exI [of _ c], rule exI [of _ sig], rule exI [of _ media]) simp

lemma turn_block_ok:
  "49152 \<le> relay \<Longrightarrow> relay \<le> 64736 \<Longrightarrow> (relay - 49152) mod 800 = 0 \<Longrightarrow> webrtc_block_ok (turn_block n c relay)"
  unfolding webrtc_block_ok_def by (rule disjI2, rule exI [of _ n], rule exI [of _ c], rule exI [of _ relay]) simp

definition webrtc_inv :: "webrtc_db \<Rightarrow> bool" where
  "webrtc_inv db \<longleftrightarrow> distinct (map dn_id (wd_nodes db)) \<and> (\<forall>b \<in> set (wd_blocks db). webrtc_block_ok b)
     \<and> column_distinct Sfu SFUSignalingPort (wd_blocks db) \<and> column_distinct Sfu SFUMediaPortStart (wd_blocks db)
     \<and> column_distinct Turn TURNRelayPortStart (wd_blocks db)"

lemma column_distinct_filter: "column_distinct svc column bs \<Longrightarrow> column_distinct svc column (filter P bs)"
proof -
  assume "column_distinct svc column bs"
  hence "distinct (map (\<lambda>b. (wb_NodeID b, column b)) (filter P (filter (\<lambda>b. wb_ServiceType b = svc) bs)))"
    unfolding column_distinct_def by (rule distinct_map_filter)
  moreover have "filter P (filter (\<lambda>b. wb_ServiceType b = svc) bs) = filter (\<lambda>b. wb_ServiceType b = svc) (filter P bs)"
    by (simp add: conj_commute)
  ultimately show ?thesis by (simp only: column_distinct_def)
qed

lemma column_distinct_append:
  "column_distinct svc column bs \<Longrightarrow>
    (wb_ServiceType b = svc \<Longrightarrow> \<forall>c \<in> set bs. wb_ServiceType c = svc \<and> wb_NodeID c = wb_NodeID b \<longrightarrow> column c \<noteq> column b)
    \<Longrightarrow> column_distinct svc column (bs @ [b])"
  by (auto simp: column_distinct_def)

lemma column_positive:
  "webrtc_block_ok b \<Longrightarrow> wb_ServiceType b = Sfu \<Longrightarrow> 0 < SFUSignalingPort b \<and> 0 < SFUMediaPortStart b"
  "webrtc_block_ok b \<Longrightarrow> wb_ServiceType b = Turn \<Longrightarrow> 0 < TURNRelayPortStart b"
  by (auto simp: webrtc_block_ok_def sfu_block_def turn_block_def)

lemma find_port_fresh:
  assumes "distinct (map dn_id (wd_nodes db))"
    and "findAvailablePort answers db (getColocatedNodeIDs answers db nodeID) svc column lo hi step = Inr p"
    and "\<And>b. b \<in> set (wd_blocks db) \<Longrightarrow> wb_ServiceType b = svc \<Longrightarrow> 0 < column b"
  shows "lo \<le> p \<and> p \<le> hi \<and> (\<forall>b \<in> set (wd_blocks db). wb_NodeID b = nodeID \<and> wb_ServiceType b = svc \<longrightarrow> column b \<noteq> p)"
proof -
  obtain vals where v: "getAllocatedValues answers db (getColocatedNodeIDs answers db nodeID) svc column = Inr vals"
    and s: "scan_ports lo hi step vals = Some p"
    using assms(2) by (auto simp: findAvailablePort_def result_bind_Inr_iff split: option.splits)
  show ?thesis using scan_ports_Some [OF s] own_values_read [OF assms(1) v] assms(3) by blast
qed

lemma find_block_fresh:
  assumes "distinct (map dn_id (wd_nodes db))"
    and "findAvailablePortBlock answers db (getColocatedNodeIDs answers db nodeID) svc column lo hi width = Inr p"
    and "\<And>b. b \<in> set (wd_blocks db) \<Longrightarrow> wb_ServiceType b = svc \<Longrightarrow> 0 < column b"
  shows "lo \<le> p \<and> p + width - 1 \<le> hi \<and> (p - lo) mod width = 0
    \<and> (\<forall>b \<in> set (wd_blocks db). wb_NodeID b = nodeID \<and> wb_ServiceType b = svc \<longrightarrow> column b \<noteq> p)"
proof -
  obtain vals where v: "getAllocatedValues answers db (getColocatedNodeIDs answers db nodeID) svc column = Inr vals"
    and s: "scan_ports lo (hi - width + 1) width vals = Some p"
    using assms(2) by (auto simp: findAvailablePortBlock_def result_bind_Inr_iff split: option.splits)
  have "\<forall>b \<in> set (wd_blocks db). wb_NodeID b = nodeID \<and> wb_ServiceType b = svc \<longrightarrow> column b \<noteq> p"
    using scan_ports_Some [OF s] own_values_read [OF assms(1) v] assms(3) by blast
  moreover have "p + width - 1 \<le> hi" using scan_ports_Some [OF s] by linarith
  ultimately show ?thesis using scan_ports_Some [OF s] by blast
qed

lemma wrap_error_Inr [simp]: "wrap_error msg r = Inr x \<longleftrightarrow> r = Inr x"
  by (cases r) (simp_all add: wrap_error_def)

lemma insertPortBlock_Inr: "insertPortBlock failure b db = Inr db' \<Longrightarrow> db' = db\<lparr>wd_blocks := wd_blocks db @ [b]\<rparr>"
  by (auto simp: insertPortBlock_def split: option.splits if_splits)

lemma sfu_step_inv:
  assumes "webrtc_inv db" "tryAllocateSFUPorts answers failure nodeID clusterID db db db = Inr (b, db')"
  shows "webrtc_inv db'"
proof -
  obtain sig media where ch: "choose_sfu answers nodeID db db = Inr (sig, media)"
    and ins: "insertPortBlock failure (sfu_block nodeID clusterID sig media) db = Inr db'"
    using assms(2) by (auto simp: tryAllocateSFUPorts_def result_bind_Inr_iff)
  have dist: "distinct (map dn_id (wd_nodes db))" using assms(1) by (simp add: webrtc_inv_def)
  have pos: "0 < SFUSignalingPort c \<and> 0 < SFUMediaPortStart c" if "c \<in> set (wd_blocks db)" "wb_ServiceType c = Sfu" for c
    using assms(1) that column_positive by (simp add: webrtc_inv_def)
  have "findAvailablePort answers db (getColocatedNodeIDs answers db nodeID) Sfu SFUSignalingPort 30000 30099 1 = Inr sig"
    "findAvailablePortBlock answers db (getColocatedNodeIDs answers db nodeID) Sfu SFUMediaPortStart 20000 29999 500 = Inr media"
    using ch by (auto simp: choose_sfu_def Let_def result_bind_Inr_iff webrtc_constants)
  note f = find_port_fresh [OF dist this(1)] find_block_fresh [OF dist this(2)]
  have "webrtc_block_ok (sfu_block nodeID clusterID sig media)"
    using f pos by (intro sfu_block_ok) auto
  thus ?thesis unfolding insertPortBlock_Inr [OF ins]
    using assms(1) f pos by (auto simp: webrtc_inv_def sfu_block_def intro!: column_distinct_append)
qed

lemma turn_step_inv:
  assumes "webrtc_inv db" "tryAllocateTURNPorts answers failure nodeID clusterID db db = Inr (b, db')"
  shows "webrtc_inv db'"
proof -
  obtain relay where ch: "choose_turn answers nodeID db = Inr relay"
    and ins: "insertPortBlock failure (turn_block nodeID clusterID relay) db = Inr db'"
    using assms(2) by (auto simp: tryAllocateTURNPorts_def result_bind_Inr_iff)
  have dist: "distinct (map dn_id (wd_nodes db))" using assms(1) by (simp add: webrtc_inv_def)
  have pos: "0 < TURNRelayPortStart c" if "c \<in> set (wd_blocks db)" "wb_ServiceType c = Turn" for c
    using assms(1) that column_positive by (simp add: webrtc_inv_def)
  have "findAvailablePortBlock answers db (getColocatedNodeIDs answers db nodeID) Turn TURNRelayPortStart 49152 65535 800 = Inr relay"
    using ch by (simp add: choose_turn_def webrtc_constants)
  note f = find_block_fresh [OF dist this]
  have "webrtc_block_ok (turn_block nodeID clusterID relay)"
    using f pos by (intro turn_block_ok) auto
  thus ?thesis unfolding insertPortBlock_Inr [OF ins]
    using assms(1) f pos by (auto simp: webrtc_inv_def turn_block_def intro!: column_distinct_append)
qed

lemma webrtc_step_inv [inv_intros]: "webrtc_step db db' \<Longrightarrow> webrtc_inv db \<Longrightarrow> webrtc_inv db'"
proof (induction rule: webrtc_step.induct)
  case (sfu answers failure nodeID clusterID db b db')
  thus ?case using sfu_step_inv by blast
next
  case (turn answers failure nodeID clusterID db b db')
  thus ?case using turn_step_inv by blast
next
  case (deallocate_all answers clusterID db db')
  thus ?case by (auto simp: DeallocateAll_def webrtc_inv_def column_distinct_filter split: if_splits)
next
  case (deallocate_node answers clusterID nodeID svc db db')
  thus ?case by (auto simp: DeallocateByNode_def webrtc_inv_def column_distinct_filter split: if_splits)
qed (simp add: webrtc_inv_def)


lemma column_distinct_same:
  "column_distinct svc column bs \<Longrightarrow> b \<in> set bs \<Longrightarrow> c \<in> set bs \<Longrightarrow> wb_ServiceType b = svc \<Longrightarrow> wb_ServiceType c = svc
    \<Longrightarrow> wb_NodeID b = wb_NodeID c \<Longrightarrow> column b = column c \<Longrightarrow> b = c"
  by (auto simp: column_distinct_def distinct_map inj_on_def)

lemma webrtc_ranges:
  "webrtc_block_ok b \<Longrightarrow> wb_ServiceType b = Sfu \<Longrightarrow> SFUMediaPortEnd b = SFUMediaPortStart b + 499
     \<and> (SFUMediaPortStart b - 20000) mod 500 = 0 \<and> 20000 \<le> SFUMediaPortStart b \<and> SFUMediaPortEnd b \<le> 29999
     \<and> 30000 \<le> SFUSignalingPort b \<and> SFUSignalingPort b \<le> 30099"
  "webrtc_block_ok b \<Longrightarrow> wb_ServiceType b = Turn \<Longrightarrow> TURNRelayPortEnd b = TURNRelayPortStart b + 799
     \<and> (TURNRelayPortStart b - 49152) mod 800 = 0 \<and> 49152 \<le> TURNRelayPortStart b \<and> TURNRelayPortEnd b \<le> 65535"
  by (auto simp: webrtc_block_ok_def sfu_block_def turn_block_def webrtc_constants)

section \<open>Properties\<close>

text \<open>C24: WebRTC port ranges of one node do not overlap if allocations do not
  interleave.  After any sequence of complete allocations, deallocations and
  changes of the node table, two SFU allocations on a node have disjoint media
  ranges and different signaling ports, two TURN allocations have disjoint relay
  ranges, and all lie within their configured ranges.\<close>

theorem webrtc_ranges_disjoint:
  assumes "webrtc_step\<^sup>*\<^sup>* \<lparr>wd_nodes = [], wd_blocks = []\<rparr> db" "b \<in> set (wd_blocks db)" "c \<in> set (wd_blocks db)"
    and "b \<noteq> c" "wb_NodeID b = wb_NodeID c" "wb_ServiceType b = wb_ServiceType c"
  shows "case wb_ServiceType b of
      Sfu \<Rightarrow> {SFUMediaPortStart b..SFUMediaPortEnd b} \<inter> {SFUMediaPortStart c..SFUMediaPortEnd c} = {}
        \<and> SFUSignalingPort b \<noteq> SFUSignalingPort c \<and> {SFUMediaPortStart b..SFUMediaPortEnd b} \<subseteq> {20000..29999}
        \<and> SFUSignalingPort b \<in> {30000..30099}
    | Turn \<Rightarrow> {TURNRelayPortStart b..TURNRelayPortEnd b} \<inter> {TURNRelayPortStart c..TURNRelayPortEnd c} = {}
        \<and> {TURNRelayPortStart b..TURNRelayPortEnd b} \<subseteq> {49152..65535}"
proof -
  have inv: "webrtc_inv db"
    using assms(1) by (induction rule: rtranclp_induct)
      (auto simp: webrtc_inv_def [of "\<lparr>wd_nodes = [], wd_blocks = []\<rparr>"] column_distinct_def intro: webrtc_step_inv)
  hence ok: "webrtc_block_ok b" "webrtc_block_ok c" using assms(2,3) by (auto simp: webrtc_inv_def)
  show ?thesis
  proof (cases "wb_ServiceType b")
    case Sfu
    hence "SFUMediaPortStart b \<noteq> SFUMediaPortStart c" "SFUSignalingPort b \<noteq> SFUSignalingPort c"
      using inv assms column_distinct_same [of Sfu _ "wd_blocks db" b c] by (auto simp: webrtc_inv_def)
    thus ?thesis
      using webrtc_ranges(1) [OF ok(1)] webrtc_ranges(1) [OF ok(2)] Sfu assms(6)
        aligned_ranges_disjoint [of "SFUMediaPortStart b" 20000 500 "SFUMediaPortStart c"] by auto
  next
    case Turn
    hence "TURNRelayPortStart b \<noteq> TURNRelayPortStart c"
      using inv assms column_distinct_same [of Turn _ "wd_blocks db" b c] by (auto simp: webrtc_inv_def)
    thus ?thesis
      using webrtc_ranges(2) [OF ok(1)] webrtc_ranges(2) [OF ok(2)] Turn assms(6)
        aligned_ranges_disjoint [of "TURNRelayPortStart b" 49152 800 "TURNRelayPortStart c"] by auto
  qed
qed

lemma turn_examples:
  "tryAllocateTURNPorts (\<lambda>_. True) None ''n1'' ''ns1'' \<lparr>wd_nodes = [], wd_blocks = []\<rparr> \<lparr>wd_nodes = [], wd_blocks = []\<rparr>
     = Inr (turn_block ''n1'' ''ns1'' 49152, \<lparr>wd_nodes = [], wd_blocks = [turn_block ''n1'' ''ns1'' 49152]\<rparr>)"
  "tryAllocateTURNPorts (\<lambda>_. True) None ''n1'' ''ns2'' \<lparr>wd_nodes = [], wd_blocks = [turn_block ''n1'' ''ns1'' 49152]\<rparr>
       \<lparr>wd_nodes = [], wd_blocks = [turn_block ''n1'' ''ns1'' 49152]\<rparr>
     = Inr (turn_block ''n1'' ''ns2'' 49952, \<lparr>wd_nodes = [], wd_blocks = [turn_block ''n1'' ''ns1'' 49152, turn_block ''n1'' ''ns2'' 49952]\<rparr>)"
  by (simp_all add: tryAllocateTURNPorts_def choose_turn_def wrap_error_def findAvailablePortBlock_def getAllocatedValues_def
      getColocatedNodeIDs_def ip_of_def scan_ports.simps webrtc_constants insertPortBlock_def turn_block_def)

theorem webrtc_ranges_disjoint_witness:
  "\<exists>db b c. webrtc_step\<^sup>*\<^sup>* \<lparr>wd_nodes = [], wd_blocks = []\<rparr> db \<and> b \<in> set (wd_blocks db) \<and> c \<in> set (wd_blocks db)
    \<and> {TURNRelayPortStart b..TURNRelayPortEnd b} \<inter> {TURNRelayPortStart c..TURNRelayPortEnd c} = {}"
proof -
  let ?db = "\<lparr>wd_nodes = [], wd_blocks = [turn_block ''n1'' ''ns1'' 49152, turn_block ''n1'' ''ns2'' 49952]\<rparr>"
  have reach: "webrtc_step\<^sup>*\<^sup>* \<lparr>wd_nodes = [], wd_blocks = []\<rparr> ?db"
    using webrtc_step.turn [OF turn_examples(1)] webrtc_step.turn [OF turn_examples(2)]
    by (rule converse_rtranclp_into_rtranclp [OF _ r_into_rtranclp])
  show ?thesis
    using webrtc_ranges_disjoint [OF reach, of "turn_block ''n1'' ''ns1'' 49152" "turn_block ''n1'' ''ns2'' 49952"] reach
    by (intro exI [of _ ?db] exI [of _ "turn_block ''n1'' ''ns1'' 49152"] exI [of _ "turn_block ''n1'' ''ns2'' 49952"])
      (simp add: turn_block_def)
qed

section \<open>Allocations that interleave\<close>











end
