(* ===== verification/Spec2Isabelle.thy ===== *)
theory Spec2Isabelle
  imports Access_Scopes Api_Key_Cache Base64_Std Circuit_Breaker Civil_Calendar Cron_Dispatch
    Cron_Schedule Ephemeral_Store Function_Rate_Limit Galois_Field Galois_Tables Gateway_Auth
    Gateway_Identity Gateway_Rate_Limit Gateway_Requests Go_Net Go_Strings Interpolation
    Lru_Cache Namespace_Proxy Node_Health Node_Lifecycle Orama_Prelude Port_Allocation
    Rate_Limit_Manager Secret_Sharing Token_Bucket Vault_Handlers WebRTC_Ports
begin

text \<open>
  This development verifies parts of the Orama node software: the Go sources
  under \<^verbatim>\<open>src/core\<close> (API gateway, node daemon, serverless runtime) and
  \<^verbatim>\<open>src/os/agent\<close> (boot agent).  A node runs a gateway that authenticates and
  limits requests, invokes serverless functions, proxies the secret vault, and
  keeps the cluster tables (nodes, ports, triggers) in an RQLite database that
  all nodes share.

  \<^bold>\<open>Conventions.\<close>  Pure Go functions are HOL functions.  A stateful Go type is a
  record that its methods take and return.  \<^verbatim>\<open>(T, error)\<close> is a sum type.  A byte is
  an 8-bit word, and 64-bit integers are words or carry their wrap-around where
  it can be reached; other integers are unbounded.  Times are nanoseconds.
  \<^verbatim>\<open>float64\<close> token counts are exact rationals, so rounding is not modelled.
  Clock readings, random bytes, HTTP answers, JSON decoding, database failures
  and the iteration order of Go maps are arguments.  Database tables are lists
  of rows with the \<^verbatim>\<open>UNIQUE\<close> constraints of \<^verbatim>\<open>core/migrations\<close>.  Where goroutines or
  nodes interleave, an operation is split at its critical sections and an
  inductive step relation composes the pieces in any order.  Log messages and
  metrics are left out.

  \<^bold>\<open>Foundations.\<close>
  \<^item> \<open>Orama_Prelude\<close>: machine types, results, facts on words and lists.
  \<^item> \<open>Go_Strings\<close>: the functions of the packages strings and strconv in use.
  \<^item> \<open>Civil_Calendar\<close>: dates and times of the package time, with the proof that
    days, dates and times of day determine each other.
  \<^item> \<open>Interpolation\<close>: polynomials over a field as coefficient lists.
  \<^item> \<open>Base64_Std\<close>: the standard base64 encoding and its round trip.
  \<^item> \<open>Lru_Cache\<close>: the contract of a bounded least-recently-used table.

  \<^bold>\<open>Secret sharing.\<close>
  \<^item> \<open>Galois_Tables\<close>, \<open>Galois_Field\<close>: the arithmetic of \<^verbatim>\<open>shamir/field.go\<close> (tables) and
    of \<^verbatim>\<open>boot/luks.go\<close> (shift and add); both implement one field.
  \<^item> \<open>Secret_Sharing\<close>: \<^verbatim>\<open>shamir/shamir.go\<close> and the key sharing of \<^verbatim>\<open>boot/luks.go\<close>.
    Combining inverts splitting, and fewer shares than the threshold reveal
    nothing; reconstruction by the agent relies on positions of the peers.
  \<^item> \<open>Vault_Handlers\<close>: \<^verbatim>\<open>gateway/handlers/vault\<close>.  A pushed envelope can be pulled,
    with the situations in which the handlers return something else.

  \<^bold>\<open>Rate limiting.\<close>
  \<^item> \<open>Token_Bucket\<close>: the five token buckets of the sources and the rate bound they
    share, proved once in a locale.
  \<^item> \<open>Function_Rate_Limit\<close>: \<^verbatim>\<open>serverless/ratelimit.go\<close>, sharded tables and tiers; the
    bound for a namespace holds while its bucket is not evicted.
  \<^item> \<open>Rate_Limit_Manager\<close>: \<^verbatim>\<open>ratelimit/manager.go\<close>, interleaved builders of cached
    limiters.
  \<^item> \<open>Gateway_Rate_Limit\<close>: \<^verbatim>\<open>gateway/rate_limiter.go\<close> and the identity limiter of the
    vault.

  \<^bold>\<open>Gateway.\<close>
  \<^item> \<open>Go_Net\<close>: host and port, and textual IP addresses, of the package net.
  \<^item> \<open>Gateway_Requests\<close>: what the middlewares read of a request, and the classes of
    paths (\<^verbatim>\<open>gateway/middleware.go\<close>).
  \<^item> \<open>Access_Scopes\<close>: \<^verbatim>\<open>gateway/auth/scopes.go\<close> and the grant of each route
    (\<^verbatim>\<open>gateway/scope_policy.go\<close>); stored grants read back as the ones asked for.
  \<^item> \<open>Gateway_Auth\<close>: the authentication, ownership and grant middlewares in their
    order; who reaches the control plane, and what internal headers can do.
  \<^item> \<open>Gateway_Identity\<close>: the internal hop to a namespace gateway and the exchange of
    a key for a token preserve the identity of the caller, the latter as long as
    the key is not changed.
  \<^item> \<open>Api_Key_Cache\<close>: the cached lookup of keys over time.
  \<^item> \<open>Circuit_Breaker\<close>: \<^verbatim>\<open>gateway/circuit_breaker.go\<close>; a breaker is a function of the
    history of its calls.  The locale \<open>failover\<close> is the loop over candidates.
  \<^item> \<open>Namespace_Proxy\<close>: the proxies to namespace gateways and between nodes, the
    order of the targets and the probes of half-open breakers.  The attempts of a
    failover share the body of the request, as \<^verbatim>\<open>net/http\<close> treats it.


  \<^bold>\<open>Serverless functions.\<close>
  \<^item> \<open>Ephemeral_Store\<close>: \<^verbatim>\<open>serverless/ephemeral_state.go\<close>; the index of owned keys is
    exact, and events that are all published, in the order of the updates,
    determine the state; what a set event that comes too late does.
  \<^item> \<open>Cron_Schedule\<close>: \<^verbatim>\<open>triggers/cron_parser.go\<close>; a written schedule means its
    occurrences, and both the parser and the search end.  The counting loop of
    the parser is a partial function because its counter may wrap around, and
    what a step that makes it wrap matches is determined.
  \<^item> \<open>Cron_Dispatch\<close>: \<^verbatim>\<open>triggers/cron_store.go\<close> and \<^verbatim>\<open>cron_scheduler.go\<close>; the
    compare-and-swap on the next run time is a lease, so that interleaved
    gateways invoke a run at most once, and an undisturbed tick handles the
    first hundred triggers that are due.
  \<^bold>\<open>Nodes and ports.\<close>
  \<^item> \<open>Node_Lifecycle\<close>, \<open>Node_Health\<close>: \<^verbatim>\<open>node/lifecycle\<close> and \<^verbatim>\<open>node/health\<close>; verdicts are a
    function of the trailing missed probes, the ring covers every node, and the
    order of the reports decides how often a recovery is triggered.
  \<^item> \<open>Port_Allocation\<close>, \<open>WebRTC_Ports\<close>: the three port allocators; ranges are disjoint
    in every interleaving of namespace and deployment allocations, and in every
    sequence of WebRTC allocations, while WebRTC allocations that interleave
    receive the same ports.

  \<^bold>\<open>Bounds.\<close>  The retry loops carry the ten attempts of the sources as fuel, so
  the fuel runs out exactly when the code gives up.  No other definition has
  fuel: loops are structural or have a termination proof.

  \<^bold>\<open>Not modelled.\<close>  Code whose effects are outside the program (command line,
  installers, process supervision, inspector), wrappers of libraries that are not
  part of the sources (the WASM runtime, libp2p, pion, IPFS, Olric), the RQLite
  process manager, the provisioning of namespace clusters, the SNI proxy, the Zig
  guardian, the SDK and the website.  Goroutines that only call a modelled
  operation at intervals are represented by that operation.
\<close>

end
